(* ===== verification/Dots_Prelude.thy ===== *)
theory Dots_Prelude
  imports Main "HOL-Library.Word"
begin

text \<open>
  Prelude of the Dots development: the collections the component theories put their
  facts into, unsigned machine arithmetic with its wrap-around written out, and raw byte
  memory with the C library calls the program makes on it (memcpy, memset and the
  little-endian reads and writes of integers the code does through casted pointers).

  Conventions.  A pointer is a natural number, 0 is the null pointer.  An unsigned
  integer of w bits is a natural number below \<open>2 ^ w\<close>; every operation of the source
  that can leave the range is written with one of \<open>u8\<close>, \<open>u16\<close>, \<open>u32\<close>, \<open>u64\<close>
  (reduction modulo the width) or with \<open>sub32\<close> (wrapping subtraction).
\<close>

named_theorems wrap_simps \<open>small values are not changed by the wrap-around\<close>
named_theorems mem_simps \<open>reads over writes of byte memory\<close>
named_theorems heap_simps \<open>frame facts of the heap operations\<close>

type_synonym ptr = nat
type_synonym byte = "8 word"
type_synonym bmem = "nat \<Rightarrow> byte"

section \<open>Unsigned integers\<close>

definition u8 :: "nat \<Rightarrow> nat" where "u8 n = n mod 2 ^ 8"
definition u16 :: "nat \<Rightarrow> nat" where "u16 n = n mod 2 ^ 16"
definition u32 :: "nat \<Rightarrow> nat" where "u32 n = n mod 2 ^ 32"
definition u64 :: "nat \<Rightarrow> nat" where "u64 n = n mod 2 ^ 64"

text \<open>Subtraction of two \<open>uint32_t\<close>: wraps below zero.\<close>

definition sub32 :: "nat \<Rightarrow> nat \<Rightarrow> nat" where
  "sub32 a b = u32 (a + (2 ^ 32 - u32 b))"

lemma u8_small [wrap_simps]: "n < 2 ^ 8 \<Longrightarrow> u8 n = n"
  by (simp add: u8_def)

lemma u16_small [wrap_simps]: "n < 2 ^ 16 \<Longrightarrow> u16 n = n"
  by (simp add: u16_def)

lemma u32_small [wrap_simps]: "n < 2 ^ 32 \<Longrightarrow> u32 n = n"
  by (simp add: u32_def)

lemma u64_small [wrap_simps]: "n < 2 ^ 64 \<Longrightarrow> u64 n = n"
  by (simp add: u64_def)

lemma u8_bound [simp]: "u8 n < 256"
  by (simp add: u8_def)

lemma u16_bound [simp]: "u16 n < 65536"
  by (simp add: u16_def)

lemma u32_bound [simp]: "u32 n < 4294967296"
  by (simp add: u32_def)

lemma sub32_small [wrap_simps]: "b \<le> a \<Longrightarrow> a < 2 ^ 32 \<Longrightarrow> sub32 a b = a - b"
  by (simp add: sub32_def u32_def mod_if)

lemma sub32_bound [simp]: "sub32 a b < 4294967296"
  by (simp add: sub32_def)

section \<open>Byte memory\<close>

definition memcpy :: "bmem \<Rightarrow> nat \<Rightarrow> bmem \<Rightarrow> nat \<Rightarrow> nat \<Rightarrow> bmem" where
  "memcpy dm d sm s n = (\<lambda>a. if d \<le> a \<and> a < d + n then sm (s + (a - d)) else dm a)"

definition memset :: "bmem \<Rightarrow> nat \<Rightarrow> byte \<Rightarrow> nat \<Rightarrow> bmem" where
  "memset m d v n = (\<lambda>a. if d \<le> a \<and> a < d + n then v else m a)"

lemma memcpy_in [mem_simps]: "d \<le> a \<Longrightarrow> a < d + n \<Longrightarrow> memcpy dm d sm s n a = sm (s + (a - d))"
  by (simp add: memcpy_def)

lemma memcpy_out [mem_simps]: "a < d \<or> d + n \<le> a \<Longrightarrow> memcpy dm d sm s n a = dm a"
  by (auto simp: memcpy_def)

lemma memset_in [mem_simps]: "d \<le> a \<Longrightarrow> a < d + n \<Longrightarrow> memset m d v n a = v"
  by (simp add: memset_def)

lemma memset_out [mem_simps]: "a < d \<or> d + n \<le> a \<Longrightarrow> memset m d v n a = m a"
  by (auto simp: memset_def)

lemma memcpy_0 [simp]: "memcpy dm d sm s 0 = dm"
  by (rule ext) (auto simp: memcpy_def)

text \<open>Little-endian integers of \<open>n\<close> bytes at an address.\<close>

primrec rd :: "nat \<Rightarrow> bmem \<Rightarrow> nat \<Rightarrow> nat" where
  "rd 0 m a = 0"
| "rd (Suc n) m a = unat (m a) + 256 * rd n m (Suc a)"

primrec wr :: "nat \<Rightarrow> bmem \<Rightarrow> nat \<Rightarrow> nat \<Rightarrow> bmem" where
  "wr 0 m a v = m"
| "wr (Suc n) m a v = wr n (m(a := of_nat v)) (Suc a) (v div 256)"

lemma rd_cong: "(\<And>i. i < n \<Longrightarrow> m (a + i) = m' (b + i)) \<Longrightarrow> rd n m a = rd n m' b"
proof (induction n arbitrary: a b)
  case 0
  then show ?case by simp
next
  case (Suc n)
  have "m a = m' b" using Suc.prems [of 0] by simp
  moreover have "rd n m (Suc a) = rd n m' (Suc b)"
    by (rule Suc.IH) (use Suc.prems [of "Suc _"] in simp)
  ultimately show ?case by simp
qed

lemma wr_out [mem_simps]: "b < a \<or> a + n \<le> b \<Longrightarrow> wr n m a v b = m b"
  by (induction n arbitrary: m a v) auto

lemma rd_wr_out [mem_simps]:
  "b + k \<le> a \<or> a + n \<le> b \<Longrightarrow> rd k (wr n m a v) b = rd k m b"
  by (rule rd_cong) (auto simp: wr_out)

lemma rd_wr_same [mem_simps]: "rd n (wr n m a v) a = v mod 256 ^ n"
proof (induction n arbitrary: m a v)
  case 0
  then show ?case by simp
next
  case (Suc n)
  have "wr n (m(a := of_nat v)) (Suc a) (v div 256) a = (of_nat v :: byte)"
    by (simp add: wr_out)
  moreover have "v mod (256 * 256 ^ n) = v mod 256 + 256 * (v div 256 mod 256 ^ n)"
    by (simp add: mod_mult2_eq)
  ultimately show ?case
    by (simp add: Suc.IH unat_of_nat)
qed

lemma rd_bound: "rd n m a < 256 ^ n"
proof (induction n arbitrary: a)
  case 0
  then show ?case by simp
next
  case (Suc n)
  have "unat (m a) < 256" using unsigned_less [of "m a"] by simp
  with Suc.IH [of "Suc a"] show ?case by simp
qed

lemma rd_memcpy [mem_simps]:
  "d \<le> b \<Longrightarrow> b + k \<le> d + n \<Longrightarrow> rd k (memcpy dm d sm s n) b = rd k sm (s + (b - d))"
  by (rule rd_cong) (auto simp: memcpy_def intro!: arg_cong [where f = sm])

lemma rd_memcpy_out [mem_simps]:
  "b + k \<le> d \<or> d + n \<le> b \<Longrightarrow> rd k (memcpy dm d sm s n) b = rd k dm b"
  by (rule rd_cong) (auto simp: memcpy_def)

section \<open>Indexed loops\<close>

text \<open>
  \<open>for_up f i n s\<close> is the loop \<open>forloop(k, i, n)\<close> of the sources, with \<open>f k\<close> as the
  body acting on the state.
\<close>

definition for_up :: "(nat \<Rightarrow> 's \<Rightarrow> 's) \<Rightarrow> nat \<Rightarrow> nat \<Rightarrow> 's \<Rightarrow> 's" where
  "for_up f i n s = fold f [i..<n] s"

lemma for_up_done [simp]: "n \<le> i \<Longrightarrow> for_up f i n s = s"
  by (simp add: for_up_def)

lemma for_up_Suc: "i \<le> n \<Longrightarrow> for_up f i (Suc n) s = f n (for_up f i n s)"
  by (simp add: for_up_def)

lemma for_up_single [simp]: "for_up f i (Suc i) s = f i s"
  by (simp add: for_up_def)

lemma for_up_step: "i < n \<Longrightarrow> for_up f i n s = for_up f (Suc i) n (f i s)"
  by (simp add: for_up_def upt_conv_Cons)

lemma for_up_invariant:
  assumes "P i s" "\<And>k s. i \<le> k \<Longrightarrow> k < n \<Longrightarrow> P k s \<Longrightarrow> P (Suc k) (f k s)" "i \<le> n"
  shows "P n (for_up f i n s)"
  using assms(3,2)
proof (induction n rule: dec_induct)
  case base
  then show ?case using assms(1) by simp
next
  case (step n)
  then show ?case by (simp add: for_up_Suc)
qed

lemma for_up_keeps:
  assumes "\<And>k s. i \<le> k \<Longrightarrow> k < n \<Longrightarrow> g (f k s) = g s"
  shows "g (for_up f i n s) = g s"
proof (cases "i \<le> n")
  case True
  show ?thesis
    by (rule for_up_invariant [where P = "\<lambda>k t. g t = g s"]) (use assms True in auto)
qed simp

lemma for_up_cong:
  "(\<And>k s. i \<le> k \<Longrightarrow> k < n \<Longrightarrow> f k s = g k s) \<Longrightarrow> for_up f i n s = for_up g i n s"
  unfolding for_up_def by (rule fold_cong) auto

end
