(* ===== verification/Typeset.thy ===== *)
theory Typeset
  imports Dots_Prelude
begin

text \<open>
  The sorted array sets of \<open>DotsRuntime/Set.h\<close> (\<open>core::database::set<T>\<close>, used as
  \<open>typeset\<close> and \<open>metaset\<close>).  A set object \<open>{data, length}\<close> is the list of its
  elements; the index loops of \<open>merge\<close>, \<open>substract\<close>, \<open>intersect\<close>, \<open>any\<close> and \<open>all\<close>
  consume the two arrays from the front, so the list still to be read is the suffix
  \<open>data[i..length)\<close>.  \<open>merge_loop\<close> is the loop of \<open>merge\<close> with its three 16-bit counters and
  its destination array, and is shown to compute \<open>set_merge\<close> as long as the counter \<open>k\<close>
  does not wrap.
\<close>

section \<open>Operations\<close>

fun set_merge :: "'a::linorder list \<Rightarrow> 'a list \<Rightarrow> 'a list" where
  "set_merge (x # xs) (y # ys) =
     (if x > y then y # set_merge (x # xs) ys
      else if x < y then x # set_merge xs (y # ys)
      else x # set_merge xs ys)"
| "set_merge (x # xs) [] = x # set_merge xs []"
| "set_merge [] (y # ys) = y # set_merge [] ys"
| "set_merge [] [] = []"

fun set_substract :: "'a::linorder list \<Rightarrow> 'a list \<Rightarrow> 'a list" where
  "set_substract (x # xs) (y # ys) =
     (if x > y then set_substract (x # xs) ys
      else if x < y then x # set_substract xs (y # ys)
      else set_substract xs ys)"
| "set_substract (x # xs) [] = x # set_substract xs []"
| "set_substract [] ys = []"

fun set_intersect :: "'a::linorder list \<Rightarrow> 'a list \<Rightarrow> 'a list" where
  "set_intersect (x # xs) (y # ys) =
     (if x > y then set_intersect (x # xs) ys
      else if x < y then set_intersect xs (y # ys)
      else x # set_intersect xs ys)"
| "set_intersect _ _ = []"

fun set_any :: "'a::linorder list \<Rightarrow> 'a list \<Rightarrow> bool" where
  "set_any (x # xs) (y # ys) =
     (if x > y then set_any (x # xs) ys
      else if x < y then set_any xs (y # ys)
      else True)"
| "set_any _ _ = False"

fun set_all :: "'a::linorder list \<Rightarrow> 'a list \<Rightarrow> bool" where
  "set_all (x # xs) (y # ys) =
     (if x > y then False
      else if x < y then set_all xs (y # ys)
      else set_all xs ys)"
| "set_all _ ys = (ys = [])"

definition set_equal :: "'a list \<Rightarrow> 'a list \<Rightarrow> bool" where
  "set_equal l r = (if length l = length r then list_all2 (=) l r else False)"

definition set_get_size :: "nat \<Rightarrow> 'a list \<Rightarrow> nat" where
  "set_get_size elem_size s = elem_size * length s"

text \<open>
  \<open>merge\<close> as written: counters \<open>i\<close>, \<open>j\<close>, \<open>k\<close> of type \<open>tsize_t\<close> and the destination array.
  Only \<open>k\<close> can pass 65535.
\<close>

function merge_loop ::
  "'a::linorder list \<Rightarrow> 'a list \<Rightarrow> nat \<Rightarrow> nat \<Rightarrow> nat \<Rightarrow> (nat \<Rightarrow> 'a) \<Rightarrow> (nat \<Rightarrow> 'a) \<times> nat" where
  "merge_loop lhs rhs i j k dst =
     (if i < length lhs \<and> j < length rhs then
        (if lhs ! i > rhs ! j then merge_loop lhs rhs i (j + 1) (u16 (k + 1)) (dst(k := rhs ! j))
         else if lhs ! i < rhs ! j then merge_loop lhs rhs (i + 1) j (u16 (k + 1)) (dst(k := lhs ! i))
         else merge_loop lhs rhs (i + 1) (j + 1) (u16 (k + 1)) (dst(k := lhs ! i)))
      else if i < length lhs then merge_loop lhs rhs (i + 1) j (u16 (k + 1)) (dst(k := lhs ! i))
      else if j < length rhs then merge_loop lhs rhs i (j + 1) (u16 (k + 1)) (dst(k := rhs ! j))
      else (dst, k))"
  by pat_completeness auto
termination
  by (relation "measure (\<lambda>(l, r, i, j, k, d). (length l - i) + (length r - j))") auto

declare merge_loop.simps [simp del]

section \<open>What the operations compute\<close>

abbreviation ssorted :: "'a::linorder list \<Rightarrow> bool" where
  "ssorted \<equiv> sorted_wrt (<)"

named_theorems typeset_simps \<open>set-level reading of the sorted array operations\<close>

lemma set_merge_Nil [simp]: "set_merge xs [] = xs" "set_merge [] ys = ys"
  by (induction xs; auto) (induction ys; auto)

lemma set_substract_Nil [simp]: "set_substract xs [] = xs" "set_substract [] ys = []"
  by (induction xs) auto

lemma set_set_merge [typeset_simps]: "set (set_merge xs ys) = set xs \<union> set ys"
  by (induction xs ys rule: set_merge.induct) auto

lemma length_set_merge_le: "length (set_merge xs ys) \<le> length xs + length ys"
  by (induction xs ys rule: set_merge.induct) auto

lemma ssorted_set_merge [intro]: "ssorted xs \<Longrightarrow> ssorted ys \<Longrightarrow> ssorted (set_merge xs ys)"
  by (induction xs ys rule: set_merge.induct) (auto simp: set_set_merge)

lemma set_set_substract [typeset_simps]:
  "ssorted xs \<Longrightarrow> ssorted ys \<Longrightarrow> set (set_substract xs ys) = set xs - set ys"
proof (induction xs ys rule: set_substract.induct)
  case (1 x xs y ys)
  then show ?case
    by (cases "x = y"; cases "x < y") (auto dest: less_trans)
qed auto

lemma set_substract_subset: "set (set_substract xs ys) \<subseteq> set xs"
  by (induction xs ys rule: set_substract.induct) auto

lemma ssorted_set_substract [intro]: "ssorted xs \<Longrightarrow> ssorted (set_substract xs ys)"
proof (induction xs ys rule: set_substract.induct)
  case (1 x xs y ys)
  then show ?case using set_substract_subset [of xs "y # ys"] by auto
qed auto

lemma set_set_intersect [typeset_simps]:
  "ssorted xs \<Longrightarrow> ssorted ys \<Longrightarrow> set (set_intersect xs ys) = set xs \<inter> set ys"
proof (induction xs ys rule: set_intersect.induct)
  case (1 x xs y ys)
  then show ?case
    by (cases "x = y"; cases "x < y") (auto dest: less_trans)
qed auto

lemma set_intersect_subset: "set (set_intersect xs ys) \<subseteq> set xs"
  by (induction xs ys rule: set_intersect.induct) auto

lemma ssorted_set_intersect [intro]: "ssorted xs \<Longrightarrow> ssorted (set_intersect xs ys)"
proof (induction xs ys rule: set_intersect.induct)
  case (1 x xs y ys)
  then show ?case using set_intersect_subset [of xs ys] by auto
qed auto

lemma set_any_iff [typeset_simps]:
  "ssorted xs \<Longrightarrow> ssorted ys \<Longrightarrow> set_any xs ys \<longleftrightarrow> set xs \<inter> set ys \<noteq> {}"
proof (induction xs ys rule: set_any.induct)
  case (1 x xs y ys)
  then show ?case
    by (cases "x = y"; cases "x < y") (auto dest: less_trans)
qed auto

lemma set_all_iff [typeset_simps]:
  "ssorted xs \<Longrightarrow> ssorted ys \<Longrightarrow> set_all xs ys \<longleftrightarrow> set ys \<subseteq> set xs"
proof (induction xs ys rule: set_all.induct)
  case (1 x xs y ys)
  then show ?case
    by (cases "x = y"; cases "x < y") (auto dest: less_trans)
qed auto

lemma set_equal_iff [simp]: "set_equal l r \<longleftrightarrow> l = r"
  by (auto simp: set_equal_def list.rel_eq dest: arg_cong [where f = length])

text \<open>A strictly sorted list is determined by its elements.\<close>

lemma ssorted_unique: "ssorted xs \<Longrightarrow> ssorted ys \<Longrightarrow> set xs = set ys \<Longrightarrow> xs = ys"
  by (metis strict_sorted_equal)

lemma ssorted_distinct: "ssorted xs \<Longrightarrow> distinct xs"
  by (simp add: strict_sorted_iff)

section \<open>The interface the other components use\<close>

text \<open>
  What the archetype code relies on: the operations compute union, difference,
  non-disjointness and inclusion on well-formed arrays and keep them well-formed.
\<close>

locale sorted_array_set =
  fixes merge substract :: "'s \<Rightarrow> 's \<Rightarrow> 's"
    and any all :: "'s \<Rightarrow> 's \<Rightarrow> bool"
    and elems :: "'s \<Rightarrow> 'a set"
    and wf :: "'s \<Rightarrow> bool"
  assumes elems_merge: "wf s \<Longrightarrow> wf t \<Longrightarrow> elems (merge s t) = elems s \<union> elems t"
    and elems_substract: "wf s \<Longrightarrow> wf t \<Longrightarrow> elems (substract s t) = elems s - elems t"
    and any_iff: "wf s \<Longrightarrow> wf t \<Longrightarrow> any s t \<longleftrightarrow> elems s \<inter> elems t \<noteq> {}"
    and all_iff: "wf s \<Longrightarrow> wf t \<Longrightarrow> all s t \<longleftrightarrow> elems t \<subseteq> elems s"
    and wf_merge: "wf s \<Longrightarrow> wf t \<Longrightarrow> wf (merge s t)"
    and wf_substract: "wf s \<Longrightarrow> wf t \<Longrightarrow> wf (substract s t)"
begin

lemma extend_shrink:
  "wf s \<Longrightarrow> wf e \<Longrightarrow> wf h \<Longrightarrow> elems (substract (merge s e) h) = (elems s \<union> elems e) - elems h"
  by (simp add: elems_merge elems_substract wf_merge)

lemma all_merge:
  "wf s \<Longrightarrow> wf t \<Longrightarrow> wf q \<Longrightarrow> all (merge s t) q \<longleftrightarrow> elems q \<subseteq> elems s \<union> elems t"
  by (simp add: all_iff elems_merge wf_merge)

lemma any_merge:
  "wf s \<Longrightarrow> wf t \<Longrightarrow> wf q \<Longrightarrow> any (merge s t) q \<longleftrightarrow> any s q \<or> any t q"
  by (auto simp: any_iff elems_merge wf_merge)

lemma any_substract:
  "wf s \<Longrightarrow> wf n \<Longrightarrow> wf o' \<Longrightarrow> any s (substract n o') \<longleftrightarrow> elems s \<inter> elems n \<inter> - elems o' \<noteq> {}"
  by (auto simp: any_iff elems_substract wf_substract)

end

interpretation ts: sorted_array_set set_merge set_substract set_any set_all set ssorted
  by unfold_locales
     (auto simp: set_set_merge set_set_substract set_any_iff set_all_iff)

section \<open>The index loop of merge\<close>

lemma merge_loop_gen:
  assumes "i \<le> length l" "j \<le> length r" "k + (length l - i) + (length r - j) < 2 ^ 16"
    and "merge_loop l r i j k dst = (d', k')"
  shows "map d' [0..<k'] = map dst [0..<k] @ set_merge (drop i l) (drop j r)"
  using assms
proof (induction l r i j k dst rule: merge_loop.induct)
  case (1 l r i j k dst)
  have pre: "map (\<lambda>a. if a = k then x else dst a) [0..<k] = map dst [0..<k]" for x
    by (rule map_cong) auto
  have k: "i < length l \<or> j < length r \<Longrightarrow> u16 (Suc k) = Suc k"
    using "1.prems" by (auto intro!: u16_small)
  have di: "i < length l \<Longrightarrow> drop i l = l ! i # drop (Suc i) l"
    and dj: "j < length r \<Longrightarrow> drop j r = r ! j # drop (Suc j) r"
    by (simp_all add: Cons_nth_drop_Suc)
  consider (both) "i < length l" "j < length r" | (left) "i < length l" "\<not> j < length r"
    | (right) "\<not> i < length l" "j < length r" | (none) "\<not> i < length l" "\<not> j < length r"
    by blast
  then show ?case
  proof cases
    case both
    consider "l ! i > r ! j" | "\<not> l ! i > r ! j" "l ! i < r ! j"
      | "\<not> l ! i > r ! j" "\<not> l ! i < r ! j" "l ! i = r ! j" by force
    then show ?thesis
    proof cases
      case 1
      with both "1.prems" "1.IH"(1) k show ?thesis
        by (simp add: merge_loop.simps [of l r i j] di dj pre fun_upd_def)
    next
      case 2
      with both "1.prems" "1.IH"(2) k show ?thesis
        by (simp add: merge_loop.simps [of l r i j] di dj pre fun_upd_def)
    next
      case 3
      with both "1.prems" "1.IH"(3) k show ?thesis
        by (simp add: merge_loop.simps [of l r i j] di dj pre fun_upd_def)
    qed
  next
    case left
    have "merge_loop l r (Suc i) j (Suc k) (dst(k := l ! i)) = (d', k')"
      using "1.prems"(4) left k by (subst (asm) merge_loop.simps) simp
    with left "1.prems" "1.IH"(4) k show ?thesis by (simp add: di pre fun_upd_def)
  next
    case right
    have "merge_loop l r i (Suc j) (Suc k) (dst(k := r ! j)) = (d', k')"
      using "1.prems"(4) right k by (subst (asm) merge_loop.simps) simp
    with right "1.prems" "1.IH"(5) k show ?thesis by (simp add: dj pre fun_upd_def)
  next
    case none
    with "1.prems" have "(dst, k) = (d', k')"
      by (subst (asm) merge_loop.simps) simp
    with none "1.prems" show ?thesis by simp
  qed
qed

end
