(* ===== verification/Handle.thy ===== *)
theory Handle
  imports Dots_Prelude
begin

text \<open>
  Entity handles: \<open>handle<24, 8>\<close> of \<open>DotsRuntime/DotsRuntime.h\<close>.  A handle is one 32-bit
  value; its bit-fields are \<open>version\<close> (the low 8 bits) and \<open>id\<close> (the high 24 bits).
  \<open>recycle\<close> works on the 32-bit type \<open>T\<close> of the template, so the result of the version
  step is only cut to 8 bits when it is stored into the bit-field.
\<close>

type_synonym entity = nat

definition e_version :: "entity \<Rightarrow> nat" where
  "e_version e = e mod 2 ^ 8"

definition e_id :: "entity \<Rightarrow> nat" where
  "e_id e = e div 2 ^ 8 mod 2 ^ 24"

definition mk_handle :: "nat \<Rightarrow> nat \<Rightarrow> entity" where
  "mk_handle i v = i mod 2 ^ 24 * 2 ^ 8 + v mod 2 ^ 8"

definition NullEntity :: entity where
  "NullEntity = 2 ^ 32 - 1"

definition TransientMagicNumber :: nat where
  "TransientMagicNumber = 2 ^ 8 - 1"

definition is_transient :: "entity \<Rightarrow> bool" where
  "is_transient e \<longleftrightarrow> e_version e = 2 ^ 8 - 1"

definition make_transient :: "nat \<Rightarrow> entity" where
  "make_transient i = mk_handle i TransientMagicNumber"

definition recycle :: "nat \<Rightarrow> nat" where
  "recycle version = (if u32 (version + 1) = TransientMagicNumber
                      then u32 (version + 2) else u32 (version + 1))"

lemma e_version_bound [simp]: "e_version e < 256"
  by (simp add: e_version_def)

lemma e_id_bound [simp]: "e_id e < 16777216"
  by (simp add: e_id_def)

lemma e_version_mk_handle [simp]: "e_version (mk_handle i v) = v mod 256"
  by (simp add: e_version_def mk_handle_def)

lemma e_id_mk_handle [simp]: "e_id (mk_handle i v) = i mod 16777216"
  by (simp add: e_id_def mk_handle_def)

lemma mk_handle_bound: "mk_handle i v < 2 ^ 32"
proof -
  have "i mod 16777216 < 16777216" "v mod 256 < 256" by simp_all
  then show ?thesis by (simp add: mk_handle_def)
qed

lemma mk_handle_id_version: "e < 2 ^ 32 \<Longrightarrow> mk_handle (e_id e) (e_version e) = e"
  by (simp add: mk_handle_def e_id_def e_version_def)

lemma handle_eq_iff:
  "e < 2 ^ 32 \<Longrightarrow> e' < 2 ^ 32 \<Longrightarrow> e = e' \<longleftrightarrow> e_id e = e_id e' \<and> e_version e = e_version e'"
  by (metis mk_handle_id_version)

lemma is_transient_make_transient [simp]: "is_transient (make_transient i)"
  by (simp add: is_transient_def make_transient_def TransientMagicNumber_def)

lemma e_id_make_transient [simp]: "e_id (make_transient i) = i mod 16777216"
  by (simp add: make_transient_def)

lemma is_transient_NullEntity: "is_transient NullEntity" "e_id NullEntity = 2 ^ 24 - 1"
  by (simp_all add: is_transient_def NullEntity_def e_version_def e_id_def)

section \<open>Version recycling\<close>

text \<open>The version as it is stored back into the 8-bit field.\<close>

abbreviation next_version :: "nat \<Rightarrow> nat" where
  "next_version v \<equiv> u8 (recycle v)"

lemma next_version_mod: "v < 255 \<Longrightarrow> next_version v = Suc v mod 255"
  by (auto simp: recycle_def TransientMagicNumber_def u8_def u32_def mod_if)

lemma next_version_255: "next_version 255 = 0"
  by (simp add: recycle_def TransientMagicNumber_def u8_def u32_def)

lemma next_version_lt: "v < 256 \<Longrightarrow> next_version v < 255"
  by (cases "v = 255") (auto simp: next_version_255 next_version_mod)

lemma next_version_neq: "v < 256 \<Longrightarrow> next_version v \<noteq> v"
  by (cases "v = 255") (auto simp: next_version_255 next_version_mod mod_if)

lemma next_version_iter:
  assumes "v < 255"
  shows "(next_version ^^ n) v = (v + n) mod 255"
proof (induction n)
  case 0
  then show ?case using assms by simp
next
  case (Suc n)
  then show ?case by (simp add: next_version_mod mod_Suc_eq)
qed

text \<open>C40. Version recycling never produces the transient marker, always changes the version,
  and a slot has to be freed a multiple of 255 times before an old handle's version comes
  back: the handle of a freed slot stays dead for 254 reuses.\<close>

theorem recycle_period:
  assumes "v < 255"
  shows "(next_version ^^ n) v \<noteq> TransientMagicNumber
    \<and> ((next_version ^^ n) v = v \<longleftrightarrow> 255 dvd n)"
proof -
  have "(v + n) mod 255 = v mod 255 \<longleftrightarrow> 255 dvd n"
    by (subst mod_eq_dvd_iff_nat) auto
  moreover have "v mod 255 = v" using assms by simp
  moreover have "(v + n) mod 255 < 255" by simp
  then have "(v + n) mod 255 \<noteq> TransientMagicNumber"
    by (simp add: TransientMagicNumber_def)
  ultimately show ?thesis
    by (simp only: next_version_iter [OF assms] simp_thms)
qed

theorem recycle_period_witness:
  "(7::nat) < 255 \<and> (next_version ^^ 255) 7 = 7 \<and> (next_version ^^ 254) 7 \<noteq> 7"
  using recycle_period [of 7 255] recycle_period [of 7 254] by (simp del: funpow.simps)

end
