(* ===== verification/Guid.thy ===== *)
theory Guid
  imports Dots_Prelude "HOL-Library.Char_ord"
begin

unbundle bit_operations_syntax

text \<open>
  GUIDs, their textual form and the FNV hash of \<open>DotsRuntime/DotsRuntime.h\<close>.  A failed
  \<open>assert\<close> of the parser is the value \<open>None\<close>.  Strings are lists of characters; a moving
  \<open>const char*\<close> is the suffix of the string that starts there.
\<close>

record GUID =
  Data1 :: nat
  Data2 :: nat
  Data3 :: nat
  Data4 :: "nat list"

text \<open>Little-endian bytes of an integer.\<close>

primrec le_bytes :: "nat \<Rightarrow> nat \<Rightarrow> nat list" where
  "le_bytes 0 v = []"
| "le_bytes (Suc n) v = v mod 256 # le_bytes n (v div 256)"

definition guid_bytes :: "GUID \<Rightarrow> nat list" where
  "guid_bytes g = le_bytes 4 (Data1 g) @ le_bytes 2 (Data2 g) @ le_bytes 2 (Data3 g) @ Data4 g"

fun bytes_less :: "nat list \<Rightarrow> nat list \<Rightarrow> bool" where
  "bytes_less [] ys = (ys \<noteq> [])"
| "bytes_less (x # xs) [] = False"
| "bytes_less (x # xs) (y # ys) = (x < y \<or> (x = y \<and> bytes_less xs ys))"

definition guid_less :: "GUID \<Rightarrow> GUID \<Rightarrow> bool" where
  "guid_less a b = bytes_less (guid_bytes a) (guid_bytes b)"

section \<open>Hashing\<close>

definition FNV_offset_basis :: "64 word" where
  "FNV_offset_basis = 14695981039346656037"

text \<open>The condition of the source is \<open>sizeof(uint32_t)\<close>, which is not zero: the 32-bit
  prime is chosen on every target.\<close>

definition FNV_prime :: "64 word" where
  "FNV_prime = (if (4::nat) \<noteq> 0 then 16777619 else 1099511628211)"

primrec hash_append :: "64 word \<Rightarrow> nat list \<Rightarrow> 64 word" where
  "hash_append val [] = val"
| "hash_append val (b # bs) = hash_append ((val XOR of_nat b) * FNV_prime) bs"

definition hash_array :: "nat list \<Rightarrow> 64 word \<Rightarrow> 64 word" where
  "hash_array xs basis = hash_append basis (concat (map (le_bytes 4) xs))"

lemma hash_append_app: "hash_append v (xs @ ys) = hash_append (hash_append v xs) ys"
  by (induction xs arbitrary: v) auto

lemma hash_array_app: "hash_array (xs @ ys) v = hash_array ys (hash_array xs v)"
  by (simp add: hash_array_def hash_append_app)

section \<open>Parsing\<close>

definition parse_hex_digit :: "char \<Rightarrow> nat option" where
  "parse_hex_digit c =
     (let k = of_char c :: nat in
      if 48 \<le> k \<and> k \<le> 57 then Some (k - 48)
      else if 97 \<le> k \<and> k \<le> 102 then Some (10 + k - 97)
      else if 65 \<le> k \<and> k \<le> 70 then Some (10 + k - 65)
      else None)"

text \<open>The loop of \<open>parse_hex<T>\<close> with \<open>digits = sizeof(T) * 2\<close>; \<open>i\<close> counts up.\<close>

fun parse_hex_loop :: "nat \<Rightarrow> nat \<Rightarrow> nat \<Rightarrow> string \<Rightarrow> nat option" where
  "parse_hex_loop digits i result ptr =
     (if i < digits then
        (case ptr of
           [] \<Rightarrow> None
         | c # cs \<Rightarrow>
             (case parse_hex_digit c of
                None \<Rightarrow> None
              | Some d \<Rightarrow> parse_hex_loop digits (i + 1)
                            (result OR push_bit (4 * (digits - i - 1)) d) cs))
      else Some result)"

declare parse_hex_loop.simps [simp del]

definition parse_hex :: "nat \<Rightarrow> string \<Rightarrow> nat option" where
  "parse_hex bytes ptr = parse_hex_loop (bytes * 2) 0 0 ptr"

primrec parse_tail :: "nat \<Rightarrow> string \<Rightarrow> nat list option" where
  "parse_tail 0 ptr = Some []"
| "parse_tail (Suc n) ptr =
     (case parse_hex 1 ptr of
        None \<Rightarrow> None
      | Some b \<Rightarrow> map_option ((#) b) (parse_tail n (drop 2 ptr)))"

definition make_guid_helper :: "string \<Rightarrow> GUID option" where
  "make_guid_helper begin0 =
     (case parse_hex 4 begin0 of None \<Rightarrow> None | Some d1 \<Rightarrow>
      (let begin1 = drop (8 + 1) begin0 in
       case parse_hex 2 begin1 of None \<Rightarrow> None | Some d2 \<Rightarrow>
       (let begin2 = drop (4 + 1) begin1 in
        case parse_hex 2 begin2 of None \<Rightarrow> None | Some d3 \<Rightarrow>
        (let begin3 = drop (4 + 1) begin2 in
         case parse_hex 1 begin3 of None \<Rightarrow> None | Some b0 \<Rightarrow>
         (let begin4 = drop 2 begin3 in
          case parse_hex 1 begin4 of None \<Rightarrow> None | Some b1 \<Rightarrow>
          (let begin5 = drop (2 + 1) begin4 in
           case parse_tail 6 begin5 of None \<Rightarrow> None | Some bs \<Rightarrow>
             Some \<lparr>Data1 = d1, Data2 = d2, Data3 = d3, Data4 = b0 # b1 # bs\<rparr>))))))"

text \<open>\<open>operator "" _guid\<close> (and \<open>make_guid\<close>, which has the length check at compile time).\<close>

definition guid_literal :: "string \<Rightarrow> GUID option" where
  "guid_literal str =
     (let n = length str in
      if \<not> (n = 38 \<or> n = 36) then None
      else if n = 38 \<and> (str ! 0 \<noteq> CHR ''{'' \<or> str ! 37 \<noteq> CHR ''}'') then None
      else make_guid_helper (drop (if n = 38 then 1 else 0) str))"

section \<open>Parsing inverts printing\<close>

text \<open>The specification: the upper-case text form of a number and of a GUID.\<close>

definition hex_char :: "nat \<Rightarrow> char" where
  "hex_char d = (if d < 10 then char_of (48 + d) else char_of (55 + d))"

primrec hex_text :: "nat \<Rightarrow> nat \<Rightarrow> string" where
  "hex_text 0 v = []"
| "hex_text (Suc n) v = hex_char (v div 16 ^ n mod 16) # hex_text n v"

definition guid_text :: "GUID \<Rightarrow> string" where
  "guid_text g = hex_text 8 (Data1 g) @ ''-'' @ hex_text 4 (Data2 g) @ ''-'' @
     hex_text 4 (Data3 g) @ ''-'' @ concat (map (hex_text 2) (take 2 (Data4 g))) @ ''-'' @
     concat (map (hex_text 2) (drop 2 (Data4 g)))"

definition guid_wf :: "GUID \<Rightarrow> bool" where
  "guid_wf g \<longleftrightarrow> Data1 g < 2 ^ 32 \<and> Data2 g < 2 ^ 16 \<and> Data3 g < 2 ^ 16
     \<and> length (Data4 g) = 8 \<and> (\<forall>b \<in> set (Data4 g). b < 256)"

lemma of_char_hex_char: "d < 16 \<Longrightarrow> (of_char (hex_char d) :: nat) = (if d < 10 then 48 + d else 55 + d)"
  by (simp add: hex_char_def of_char_of)

lemma parse_hex_digit_hex_char: "d < 16 \<Longrightarrow> parse_hex_digit (hex_char d) = Some d"
  by (auto simp: parse_hex_digit_def Let_def of_char_hex_char)

lemma length_hex_text [simp]: "length (hex_text n v) = n"
  by (induction n) auto

lemma or_low_nibble: "d < 16 \<Longrightarrow> (p * 16 OR d) = p * 16 + (d::nat)"
proof -
  assume d: "d < 16"
  have "take_bit 4 d = d" using d by (simp add: take_bit_nat_eq_self_iff)
  moreover have "push_bit 4 p = p * 16" by (simp add: push_bit_eq_mult)
  moreover have "push_bit 4 p AND take_bit 4 d = 0"
    by (rule bit_eqI) (auto simp: bit_simps)
  ultimately show ?thesis by (metis disjunctive_add_eq_or)
qed

lemma parse_hex_loop_text:
  "n \<le> digits \<Longrightarrow>
   parse_hex_loop digits (digits - n) (p * 16 ^ n) (hex_text n v @ rest) = Some (p * 16 ^ n + v mod 16 ^ n)"
proof (induction n arbitrary: p)
  case 0
  then show ?case by (subst parse_hex_loop.simps) simp
next
  case (Suc n)
  let ?d = "v div 16 ^ n mod 16"
  have idx: "digits - (digits - Suc n) - 1 = n" "Suc (digits - Suc n) = digits - n"
    using Suc.prems by auto
  have "p * 16 ^ Suc n = push_bit (4 * n) (p * 16)"
    by (simp add: push_bit_eq_mult power_mult)
  then have "p * 16 ^ Suc n OR push_bit (4 * n) ?d = push_bit (4 * n) (p * 16 OR ?d)"
    by (simp add: push_bit_or)
  also have "\<dots> = (p * 16 + ?d) * 16 ^ n"
    by (simp add: or_low_nibble push_bit_eq_mult power_mult)
  finally have step: "p * 16 ^ Suc n OR push_bit (4 * n) ?d = (p * 16 + ?d) * 16 ^ n" .
  have v: "v mod 16 ^ Suc n = 16 ^ n * ?d + v mod 16 ^ n"
    by (metis mod_mult2_eq power_Suc2)
  have "parse_hex_loop digits (digits - Suc n) (p * 16 ^ Suc n) (hex_text (Suc n) v @ rest)
      = parse_hex_loop digits (digits - n) ((p * 16 + ?d) * 16 ^ n) (hex_text n v @ rest)"
    using Suc.prems
    by (subst parse_hex_loop.simps)
       (simp add: parse_hex_digit_hex_char idx step del: power_Suc)
  then show ?case
    using Suc.IH [of "p * 16 + ?d"] Suc.prems v by (simp add: algebra_simps)
qed

lemma parse_hex_text:
  assumes "v < 16 ^ (2 * b)"
  shows "parse_hex b (hex_text (2 * b) v @ rest) = Some v"
  using parse_hex_loop_text [of "2 * b" "2 * b" 0 v rest] assms
  by (simp add: parse_hex_def mult.commute)

lemma parse_hex_texts:
  "v < 2 ^ 32 \<Longrightarrow> parse_hex 4 (hex_text 8 v @ rest) = Some v"
  "v < 2 ^ 16 \<Longrightarrow> parse_hex 2 (hex_text 4 v @ rest) = Some v"
  "v < 2 ^ 8 \<Longrightarrow> parse_hex 1 (hex_text 2 v @ rest) = Some v"
  using parse_hex_text [of v 4 rest] parse_hex_text [of v 2 rest] parse_hex_text [of v 1 rest]
  by simp_all

lemma parse_tail_text:
  "\<forall>b \<in> set bs. b < 256 \<Longrightarrow> parse_tail (length bs) (concat (map (hex_text 2) bs) @ rest) = Some bs"
proof (induction bs)
  case (Cons b bs)
  have "parse_hex 1 (hex_text 2 b @ (concat (map (hex_text 2) bs) @ rest)) = Some b"
    using Cons.prems by (intro parse_hex_texts) simp
  moreover have "drop 2 (hex_text 2 b @ (concat (map (hex_text 2) bs) @ rest))
      = concat (map (hex_text 2) bs) @ rest"
    by (simp only: drop_append length_hex_text) simp
  ultimately show ?case using Cons by simp
qed simp

lemma drop_hex_text:
  "drop n (hex_text n v @ t) = t"
  "drop (n + 1) (hex_text n v @ ''-'' @ t) = t"
  by (simp_all add: drop_append)

lemma make_guid_helper_text:
  assumes "guid_wf g"
  shows "make_guid_helper (guid_text g @ rest) = Some g"
proof -
  have "length (Data4 g) = 8" using assms by (simp add: guid_wf_def)
  then obtain b0 b1 bs where d4: "Data4 g = b0 # b1 # bs" and l6: "length bs = 6"
    by (cases "Data4 g"; cases "tl (Data4 g)") auto
  define t5 where "t5 = concat (map (hex_text 2) bs) @ rest"
  define t3 where "t3 = hex_text 2 b0 @ hex_text 2 b1 @ ''-'' @ t5"
  define t2 where "t2 = hex_text 4 (Data3 g) @ ''-'' @ t3"
  define t1 where "t1 = hex_text 4 (Data2 g) @ ''-'' @ t2"
  have tx: "guid_text g @ rest = hex_text 8 (Data1 g) @ ''-'' @ t1"
    by (simp add: guid_text_def t1_def t2_def t3_def t5_def d4)
  have wf: "Data1 g < 2 ^ 32" "Data2 g < 2 ^ 16" "Data3 g < 2 ^ 16" "b0 < 2 ^ 8" "b1 < 2 ^ 8"
    "\<forall>b \<in> set bs. b < 256"
    using assms by (auto simp: guid_wf_def d4)
  have d: "drop (8 + 1) (guid_text g @ rest) = t1" "drop (4 + 1) t1 = t2" "drop (4 + 1) t2 = t3"
    "drop 2 t3 = hex_text 2 b1 @ ''-'' @ t5" "drop (2 + 1) (hex_text 2 b1 @ ''-'' @ t5) = t5"
    by (simp_all only: tx t1_def t2_def t3_def drop_hex_text)
  have "parse_hex 4 (guid_text g @ rest) = Some (Data1 g)"
    unfolding tx by (rule parse_hex_texts(1)) (rule wf)
  moreover have "parse_hex 2 t1 = Some (Data2 g)" "parse_hex 2 t2 = Some (Data3 g)"
    unfolding t1_def t2_def by (rule parse_hex_texts(2), rule wf)+
  moreover have "parse_hex 1 t3 = Some b0" "parse_hex 1 (hex_text 2 b1 @ ''-'' @ t5) = Some b1"
    unfolding t3_def by (rule parse_hex_texts(3), rule wf)+
  moreover have "parse_tail 6 t5 = Some bs"
    using parse_tail_text [OF wf(6), of rest] l6 by (simp add: t5_def)
  ultimately show ?thesis
    by (simp only: make_guid_helper_def Let_def d option.case) (simp flip: d4)
qed

lemma length_guid_text: "guid_wf g \<Longrightarrow> length (guid_text g) = 36"
  by (simp add: guid_wf_def guid_text_def length_concat comp_def sum_list_triv)

text \<open>C34. Parsing the 36-character text of a GUID, or the same text in braces, gives the
  GUID back; a literal of another length is rejected.\<close>

theorem guid_literal_roundtrip:
  assumes "guid_wf g"
  shows "guid_literal (guid_text g) = Some g
    \<and> guid_literal (''{'' @ guid_text g @ ''}'') = Some g
    \<and> (\<forall>s. length s \<noteq> 36 \<and> length s \<noteq> 38 \<longrightarrow> guid_literal s = None)"
proof (intro conjI allI impI)
  show "guid_literal (guid_text g) = Some g"
    using make_guid_helper_text [OF assms, of "[]"]
    by (simp add: guid_literal_def length_guid_text [OF assms])
  show "guid_literal (''{'' @ guid_text g @ ''}'') = Some g"
    using make_guid_helper_text [OF assms, of "''}''"]
    by (simp add: guid_literal_def length_guid_text [OF assms] nth_append)
  show "guid_literal s = None" if "length s \<noteq> 36 \<and> length s \<noteq> 38" for s
    using that by (auto simp: guid_literal_def Let_def)
qed

theorem guid_literal_roundtrip_witness:
  "let g = \<lparr>Data1 = 0, Data2 = 0, Data3 = 0, Data4 = [0, 0, 0, 0, 0, 0, 0, 1]\<rparr> in
   guid_wf g \<and> guid_literal (guid_text g) = Some g"
proof -
  have "guid_wf \<lparr>Data1 = 0, Data2 = 0, Data3 = 0, Data4 = [0, 0, 0, 0, 0, 0, 0, 1]\<rparr>"
    by (simp add: guid_wf_def)
  then show ?thesis using guid_literal_roundtrip by (simp add: Let_def)
qed

end
