(* ===== verification/Registry.thy ===== *)
theory Registry
  imports Handle Guid
begin

text \<open>
  Component types and the runtime context of \<open>DotsRuntime/DotsRuntime.h\<close> and
  \<open>DotsRuntime/DotsRuntime.cpp\<close>: the bit layout of \<open>type_index\<close>, the type registry with
  \<open>register_type\<close> and the built-in components, and the stack allocator.

  The functions of a component's vtable are user code: \<open>copy\<close>, \<open>constructor\<close> and
  \<open>destructor\<close> are fields of the registry record; \<open>patch\<close> is passed to the operation that
  calls it.  \<open>hash2type\<close> is a \<open>std::map\<close> keyed by GUID, so it is a partial map.
\<close>

section \<open>type\_index\<close>

datatype component_type = ct_pod | ct_buffer | ct_tag | ct_managed

primrec ct_code :: "component_type \<Rightarrow> nat" where
  "ct_code ct_pod = 0"
| "ct_code ct_buffer = 1"
| "ct_code ct_tag = 3"
| "ct_code ct_managed = 2"

type_synonym type_index = nat

definition ti_index :: "type_index \<Rightarrow> nat" where "ti_index t = t mod 2 ^ 30"
definition ti_type :: "type_index \<Rightarrow> nat" where "ti_type t = t div 2 ^ 30 mod 2 ^ 2"
definition is_pod :: "type_index \<Rightarrow> bool" where "is_pod t \<longleftrightarrow> ti_type t = ct_code ct_pod"
definition is_buffer :: "type_index \<Rightarrow> bool" where "is_buffer t \<longleftrightarrow> ti_type t = ct_code ct_buffer"
definition is_tag :: "type_index \<Rightarrow> bool" where "is_tag t \<longleftrightarrow> ti_type t = ct_code ct_tag"
definition is_managed :: "type_index \<Rightarrow> bool" where "is_managed t \<longleftrightarrow> ti_type t = ct_code ct_managed"

definition mk_type_index :: "nat \<Rightarrow> component_type \<Rightarrow> type_index" where
  "mk_type_index a t = a mod 2 ^ 30 + ct_code t * 2 ^ 30"

lemma ct_code_less [simp]: "ct_code t < 4"
  by (cases t) auto

lemma ti_index_mk [simp]: "ti_index (mk_type_index a t) = a mod 2 ^ 30"
  by (simp add: ti_index_def mk_type_index_def)

lemma ti_type_mk [simp]: "ti_type (mk_type_index a t) = ct_code t"
  using ct_code_less [of t] by (simp add: ti_type_def mk_type_index_def)

text \<open>The kind is in the high bits: sorted type lists are pods, buffers, managed, tags.\<close>

lemma ti_type_mono: "s \<le> t \<Longrightarrow> t < 2 ^ 32 \<Longrightarrow> ti_type s \<le> ti_type t"
  by (simp add: ti_type_def div_le_mono)

section \<open>The registry\<close>

record component_vtable =
  vt_copy :: "(bmem \<Rightarrow> nat \<Rightarrow> bmem \<Rightarrow> nat \<Rightarrow> nat \<Rightarrow> bmem) option"
  vt_constructor :: "(bmem \<Rightarrow> nat \<Rightarrow> nat \<Rightarrow> bmem) option"
  vt_destructor :: "(bmem \<Rightarrow> nat \<Rightarrow> nat \<Rightarrow> bmem) option"

definition no_vtable :: component_vtable where
  "no_vtable = \<lparr>vt_copy = None, vt_constructor = None, vt_destructor = None\<rparr>"

text \<open>\<open>track_state\<close>: a bit set.\<close>

definition Valid :: nat where "Valid = 0"
definition Copying :: nat where "Copying = 1"
definition ManualCopying :: nat where "ManualCopying = 2"
definition ManualCleaning :: nat where "ManualCleaning = 4"
definition NeedCC :: nat where "NeedCC = 6"

definition has_flag :: "nat \<Rightarrow> nat \<Rightarrow> bool" where
  "has_flag s f \<longleftrightarrow> and s f \<noteq> (0::nat)"

record component_desc =
  isElement :: bool
  isManaged :: bool
  manualCopy :: bool
  manualClean :: bool
  d_GUID :: GUID
  d_size :: nat
  d_elementSize :: nat
  d_alignment :: nat
  d_entityRefs :: "nat list option"
  d_entityRefCount :: nat
  d_vtable :: component_vtable
  d_name :: string

definition default_desc :: component_desc where
  "default_desc = \<lparr>isElement = False, isManaged = False, manualCopy = False, manualClean = False,
     d_GUID = \<lparr>Data1 = 0, Data2 = 0, Data3 = 0, Data4 = replicate 8 0\<rparr>, d_size = 0,
     d_elementSize = 0, d_alignment = 8, d_entityRefs = None, d_entityRefCount = 0,
     d_vtable = no_vtable, d_name = []\<rparr>"

record type_registry =
  r_GUID :: GUID
  r_size :: nat
  r_elementSize :: nat
  r_alignment :: nat
  r_entityRefs :: nat
  r_entityRefCount :: nat
  r_name :: string
  r_vtable :: component_vtable

record dots_context =
  infos :: "type_registry list"
  tracks :: "nat list"
  entityRefs :: "nat list"
  hash2type :: "GUID \<rightharpoonup> nat"
  disable_id :: type_index
  cleanup_id :: type_index
  group_id :: type_index
  mask_id :: type_index
  guid_id :: type_index

definition desc_type :: "component_desc \<Rightarrow> component_type" where
  "desc_type desc =
     (if d_size desc = 0 then ct_tag
      else if isElement desc then ct_buffer
      else if isManaged desc then ct_managed
      else ct_pod)"

definition register_type :: "component_desc \<Rightarrow> dots_context \<Rightarrow> type_index \<times> dots_context" where
  "register_type desc0 ctx =
     (case hash2type ctx (d_GUID desc0) of
        Some i \<Rightarrow> (i, ctx)
      | None \<Rightarrow>
          let rid = (if d_entityRefs desc0 \<noteq> None then u32 (length (entityRefs ctx)) else 0);
              refs = (case d_entityRefs desc0 of
                        None \<Rightarrow> entityRefs ctx
                      | Some rs \<Rightarrow> entityRefs ctx @ take (d_entityRefCount desc0) rs);
              type = desc_type desc0;
              desc = (if type = ct_managed
                      then desc0\<lparr>manualClean := False, manualCopy := False\<rparr> else desc0);
              id = mk_type_index (length (infos ctx)) type;
              reg = \<lparr>r_GUID = d_GUID desc, r_size = d_size desc,
                     r_elementSize = d_elementSize desc, r_alignment = d_alignment desc,
                     r_entityRefs = rid, r_entityRefCount = d_entityRefCount desc,
                     r_name = d_name desc, r_vtable = d_vtable desc\<rparr>;
              s = (if manualClean desc then or 0 ManualCleaning else 0);
              s' = (if manualCopy desc then or s ManualCopying else s);
              ctx1 = ctx\<lparr>infos := infos ctx @ [reg], tracks := tracks ctx @ [s'],
                         entityRefs := refs, hash2type := (hash2type ctx)(d_GUID desc \<mapsto> id)\<rparr>
          in (id, if manualCopy desc
                  then ctx1\<lparr>tracks := tracks ctx1 @ [Copying], infos := infos ctx1 @ [reg]\<rparr>
                  else ctx1))"

definition builtin_guid :: "nat \<Rightarrow> GUID" where
  "builtin_guid n = \<lparr>Data1 = 0, Data2 = 0, Data3 = 0, Data4 = [0, 0, 0, 0, 0, 0, 0, n]\<rparr>"

text \<open>The constructor \<open>context::context\<close>: registers the five built-in components.\<close>

definition context_init :: dots_context where
  "context_init =
     (let c0 = \<lparr>infos = [], tracks = [], entityRefs = [], hash2type = Map.empty,
                disable_id = 0, cleanup_id = 0, group_id = 0, mask_id = 0, guid_id = 0\<rparr>;
          (cid, c1) = register_type (default_desc\<lparr>d_size := 0, d_GUID := builtin_guid 1,
                        d_name := ''cleanup''\<rparr>) c0;
          (did, c2) = register_type (default_desc\<lparr>d_size := 0, d_GUID := builtin_guid 2,
                        d_name := ''disabled''\<rparr>) (c1\<lparr>cleanup_id := cid\<rparr>);
          (gid, c3) = register_type (default_desc\<lparr>d_size := 4 * 5, d_GUID := builtin_guid 3,
                        isElement := True, d_elementSize := 4, d_entityRefs := Some [0],
                        d_entityRefCount := 1, d_name := ''group''\<rparr>) (c2\<lparr>disable_id := did\<rparr>);
          (mid, c4) = register_type (default_desc\<lparr>d_size := 4, d_GUID := builtin_guid 4,
                        isElement := False, d_name := ''mask'', d_entityRefCount := 0\<rparr>)
                        (c3\<lparr>group_id := gid\<rparr>);
          (uid, c5) = register_type (default_desc\<lparr>d_size := 16, d_GUID := builtin_guid 5,
                        d_name := ''guid'', manualClean := True\<rparr>) (c4\<lparr>mask_id := mid\<rparr>)
      in c5\<lparr>guid_id := uid\<rparr>)"

definition to_valid_type :: "dots_context \<Rightarrow> type_index \<Rightarrow> type_index" where
  "to_valid_type ctx t = (if tracks ctx ! ti_index t = Copying then t - 1 else t)"

section \<open>Registry invariant\<close>

text \<open>
  Both arrays have the same length, every registered GUID points at its own entry, the
  registered types are below the array length, and a type with manual copying is followed
  by its copying twin of the same kind.
\<close>

definition registry_wf :: "dots_context \<Rightarrow> bool" where
  "registry_wf ctx \<longleftrightarrow>
     length (tracks ctx) = length (infos ctx)
   \<and> (\<forall>g t. hash2type ctx g = Some t \<longrightarrow>
         ti_index t < length (infos ctx) \<and> r_GUID (infos ctx ! ti_index t) = g
       \<and> tracks ctx ! ti_index t \<noteq> Copying
       \<and> (r_size (infos ctx ! ti_index t) = 0 \<longleftrightarrow> is_tag t))
   \<and> (\<forall>i < length (infos ctx). has_flag (tracks ctx ! i) ManualCopying \<longrightarrow>
         Suc i < length (infos ctx) \<and> tracks ctx ! Suc i = Copying
       \<and> r_GUID (infos ctx ! Suc i) = r_GUID (infos ctx ! i)
       \<and> r_size (infos ctx ! Suc i) = r_size (infos ctx ! i))"

lemma track_flags [simp]:
  "has_flag ManualCleaning ManualCopying \<longleftrightarrow> False"
  "has_flag (or ManualCleaning ManualCopying) ManualCopying"
  "has_flag ManualCopying ManualCopying"
  "has_flag 0 ManualCopying \<longleftrightarrow> False"
  "has_flag Copying ManualCopying \<longleftrightarrow> False"
  "ManualCleaning \<noteq> Copying" "or ManualCleaning ManualCopying \<noteq> Copying"
  "ManualCopying \<noteq> Copying" "0 \<noteq> Copying"
  by (simp_all add: has_flag_def ManualCleaning_def ManualCopying_def Copying_def)

lemma register_type_known:
  "hash2type ctx (d_GUID desc) = Some t \<Longrightarrow> register_type desc ctx = (t, ctx)"
  by (simp add: register_type_def)

text \<open>The entry a new registration appends, and its tracking byte.\<close>

definition new_tracks :: "component_desc \<Rightarrow> nat list" where
  "new_tracks desc =
     (let m = desc_type desc = ct_managed;
          s = (if manualClean desc \<and> \<not> m then or 0 ManualCleaning else 0) in
      if manualCopy desc \<and> \<not> m then [or s ManualCopying, Copying] else [s])"

lemma register_type_new:
  assumes "hash2type ctx (d_GUID desc) = None"
  shows "\<exists>reg. r_GUID reg = d_GUID desc \<and> r_size reg = d_size desc
    \<and> fst (register_type desc ctx) = mk_type_index (length (infos ctx)) (desc_type desc)
    \<and> infos (snd (register_type desc ctx)) = infos ctx @ replicate (length (new_tracks desc)) reg
    \<and> tracks (snd (register_type desc ctx)) = tracks ctx @ new_tracks desc
    \<and> hash2type (snd (register_type desc ctx)) =
        (hash2type ctx)(d_GUID desc \<mapsto> mk_type_index (length (infos ctx)) (desc_type desc))"
proof -
  let ?reg = "\<lparr>r_GUID = d_GUID desc, r_size = d_size desc, r_elementSize = d_elementSize desc,
    r_alignment = d_alignment desc,
    r_entityRefs = (if d_entityRefs desc \<noteq> None then u32 (length (entityRefs ctx)) else 0),
    r_entityRefCount = d_entityRefCount desc, r_name = d_name desc, r_vtable = d_vtable desc\<rparr>"
  show ?thesis
    using assms
    by (intro exI [of _ ?reg])
       (auto simp: register_type_def new_tracks_def Let_def eval_nat_numeral(3))
qed

lemma is_tag_desc_type: "is_tag (mk_type_index a (desc_type desc)) \<longleftrightarrow> d_size desc = 0"
  by (auto simp: is_tag_def desc_type_def)

lemma new_tracks_cases:
  obtains s where "new_tracks desc = [s]" "\<not> has_flag s ManualCopying" "s \<noteq> Copying"
  | s where "new_tracks desc = [s, Copying]" "has_flag s ManualCopying" "s \<noteq> Copying"
  by (cases "manualClean desc"; cases "manualCopy desc"; cases "desc_type desc = ct_managed")
     (auto simp: new_tracks_def Let_def)

lemma register_type_wf:
  assumes wf: "registry_wf ctx" and new: "hash2type ctx (d_GUID desc) = None"
    and room: "length (infos ctx) + 2 \<le> 2 ^ 30"
  shows "registry_wf (snd (register_type desc ctx))"
proof -
  obtain reg where reg: "r_GUID reg = d_GUID desc" "r_size reg = d_size desc"
    and eqs: "infos (snd (register_type desc ctx)) = infos ctx @ replicate (length (new_tracks desc)) reg"
      "tracks (snd (register_type desc ctx)) = tracks ctx @ new_tracks desc"
      "hash2type (snd (register_type desc ctx)) =
        (hash2type ctx)(d_GUID desc \<mapsto> mk_type_index (length (infos ctx)) (desc_type desc))"
    using register_type_new [OF new] by blast
  have len: "length (tracks ctx) = length (infos ctx)" using wf by (simp add: registry_wf_def)
  have idx: "length (infos ctx) mod 1073741824 = length (infos ctx)"
    using room by simp
  show ?thesis
    unfolding registry_wf_def eqs
  proof (intro conjI allI impI)
    show "length (tracks ctx @ new_tracks desc) = length (infos ctx @ replicate (length (new_tracks desc)) reg)"
      by (simp add: len)
  next
    fix g t
    assume lk: "((hash2type ctx)(d_GUID desc \<mapsto> mk_type_index (length (infos ctx)) (desc_type desc))) g = Some t"
    let ?R = "\<lambda>is ts. ti_index t < length is \<and> r_GUID (is ! ti_index t) = g
      \<and> ts ! ti_index t \<noteq> Copying \<and> (r_size (is ! ti_index t) = 0 \<longleftrightarrow> is_tag t)"
    have "?R (infos ctx @ replicate (length (new_tracks desc)) reg) (tracks ctx @ new_tracks desc)"
    proof (cases "g = d_GUID desc")
      case True
      then have t: "t = mk_type_index (length (infos ctx)) (desc_type desc)" using lk by simp
      show ?thesis
        by (rule new_tracks_cases [of desc])
           (simp_all add: t idx reg True len nth_append is_tag_desc_type)
    next
      case False
      then have "?R (infos ctx) (tracks ctx)" using lk wf by (auto simp: registry_wf_def)
      then show ?thesis by (simp add: nth_append len)
    qed
    then show "ti_index t < length (infos ctx @ replicate (length (new_tracks desc)) reg)"
      "r_GUID ((infos ctx @ replicate (length (new_tracks desc)) reg) ! ti_index t) = g"
      "(tracks ctx @ new_tracks desc) ! ti_index t \<noteq> Copying"
      "(r_size ((infos ctx @ replicate (length (new_tracks desc)) reg) ! ti_index t) = 0) = is_tag t"
      by auto
  next
    fix i
    assume i: "i < length (infos ctx @ replicate (length (new_tracks desc)) reg)"
      and fl: "has_flag ((tracks ctx @ new_tracks desc) ! i) ManualCopying"
    let ?Q = "\<lambda>is ts. Suc i < length is \<and> ts ! Suc i = Copying
      \<and> r_GUID (is ! Suc i) = r_GUID (is ! i) \<and> r_size (is ! Suc i) = r_size (is ! i)"
    have "?Q (infos ctx @ replicate (length (new_tracks desc)) reg) (tracks ctx @ new_tracks desc)"
    proof (cases "i < length (infos ctx)")
      case True
      then have "?Q (infos ctx) (tracks ctx)"
        using fl wf by (simp add: registry_wf_def nth_append)
      then show ?thesis using True by (simp add: nth_append len)
    next
      case False
      show ?thesis
      proof (rule new_tracks_cases [of desc])
        fix s assume s: "new_tracks desc = [s]" "\<not> has_flag s ManualCopying"
        then have "i = length (infos ctx)" using False i by simp
        then show ?thesis using s fl len by (simp add: nth_append)
      next
        fix s assume s: "new_tracks desc = [s, Copying]" "has_flag s ManualCopying"
        then have "i = length (infos ctx) \<or> i = Suc (length (infos ctx))" using False i by auto
        then show ?thesis using s fl len by (auto simp: nth_append)
      qed
    qed
    then show "Suc i < length (infos ctx @ replicate (length (new_tracks desc)) reg)"
      "(tracks ctx @ new_tracks desc) ! Suc i = Copying"
      "r_GUID ((infos ctx @ replicate (length (new_tracks desc)) reg) ! Suc i)
        = r_GUID ((infos ctx @ replicate (length (new_tracks desc)) reg) ! i)"
      "r_size ((infos ctx @ replicate (length (new_tracks desc)) reg) ! Suc i)
        = r_size ((infos ctx @ replicate (length (new_tracks desc)) reg) ! i)"
      by auto
  qed
qed

text \<open>C31. Registering a component keeps the registry well-formed, makes its GUID resolve to
  the returned type, whose kind follows the description, leaves every other GUID and every
  earlier entry as it was, and registering the same GUID again changes nothing.\<close>

theorem register_type_correct:
  assumes "registry_wf ctx" "length (infos ctx) + 2 \<le> 2 ^ 30"
    and reg: "register_type desc ctx = (t, ctx')"
  shows "registry_wf ctx' \<and> hash2type ctx' (d_GUID desc) = Some t
    \<and> (\<forall>g. g \<noteq> d_GUID desc \<longrightarrow> hash2type ctx' g = hash2type ctx g)
    \<and> take (length (infos ctx)) (infos ctx') = infos ctx
    \<and> take (length (tracks ctx)) (tracks ctx') = tracks ctx
    \<and> (hash2type ctx (d_GUID desc) = None \<longrightarrow> ti_type t = ct_code (desc_type desc))
    \<and> (\<forall>d. d_GUID d = d_GUID desc \<longrightarrow> register_type d ctx' = (t, ctx'))"
proof (cases "hash2type ctx (d_GUID desc)")
  case None
  obtain r where eqs: "t = mk_type_index (length (infos ctx)) (desc_type desc)"
      "infos ctx' = infos ctx @ replicate (length (new_tracks desc)) r"
      "tracks ctx' = tracks ctx @ new_tracks desc"
      "hash2type ctx' = (hash2type ctx)(d_GUID desc \<mapsto> t)"
    using register_type_new [OF None] unfolding reg fst_conv snd_conv by blast
  have "registry_wf ctx'"
    using register_type_wf [OF assms(1) None assms(2)] reg by simp
  moreover have "register_type d ctx' = (t, ctx')" if "d_GUID d = d_GUID desc" for d
    by (rule register_type_known) (simp add: eqs that)
  ultimately show ?thesis by (simp add: eqs)
next
  case (Some u)
  then have "t = u" "ctx' = ctx" using reg register_type_known [OF Some] by auto
  then show ?thesis using assms(1) Some by (simp add: register_type_known)
qed

lemmas registry_eval = context_init_def register_type_def Let_def desc_type_def default_desc_def
  builtin_guid_def mk_type_index_def

lemma context_init_fields:
  "cleanup_id context_init = mk_type_index 0 ct_tag"
  "disable_id context_init = mk_type_index 1 ct_tag"
  "group_id context_init = mk_type_index 2 ct_buffer"
  "mask_id context_init = mk_type_index 3 ct_pod"
  "guid_id context_init = mk_type_index 4 ct_pod"
  "tracks context_init = [0, 0, 0, 0, ManualCleaning]"
  by (simp_all add: context_init_def register_type_def Let_def desc_type_def default_desc_def builtin_guid_def
      mk_type_index_def)

lemma registry_wf_context_init: "registry_wf context_init"
  by (auto simp: registry_wf_def context_init_def register_type_def Let_def desc_type_def
      default_desc_def builtin_guid_def mk_type_index_def ti_index_def is_tag_def ti_type_def
      less_Suc_eq split: if_splits)

theorem register_type_correct_witness:
  "let d = default_desc\<lparr>d_size := 8, manualCopy := True, d_GUID := builtin_guid 9\<rparr> in
   registry_wf context_init \<and> length (infos context_init) + 2 \<le> 2 ^ 30
   \<and> registry_wf (snd (register_type d context_init))"
proof -
  have "length (infos context_init) + 2 \<le> 2 ^ 30"
    by (simp add: context_init_def register_type_def Let_def desc_type_def default_desc_def builtin_guid_def)
  then show ?thesis
    using register_type_correct [OF registry_wf_context_init _ prod.collapse [symmetric]]
      registry_wf_context_init
    by (simp add: Let_def)
qed

end
