(* ===== verification/Entity_Type.thy ===== *)
theory Entity_Type
  imports Typeset Registry
begin

unbundle bit_operations_syntax

text \<open>
  Entity types, type differences and filters (\<open>Dots/Type.h\<close>, \<open>type_diff\<close> of
  \<open>Dots/Database.h\<close>) with their operations in \<open>Dots/Database.cpp\<close>: matching an archetype
  against a query, matching a chunk against a change filter, the index of a type in an
  archetype and the 32-bit component mask.  \<open>std::bitset<32>::set\<close> throws outside the mask,
  which ends the program from the \<open>noexcept\<close> function \<open>get_mask\<close>: the value \<open>None\<close>.
\<close>

section \<open>entity\_type and type\_diff\<close>

record entity_type =
  et_types :: "type_index list"
  et_metas :: "entity list"

definition EmptyType :: entity_type where
  "EmptyType = \<lparr>et_types = [], et_metas = []\<rparr>"

definition et_equal :: "entity_type \<Rightarrow> entity_type \<Rightarrow> bool" where
  "et_equal a b \<longleftrightarrow> set_equal (et_types a) (et_types b) \<and> set_equal (et_metas a) (et_metas b)"

definition et_hash :: "entity_type \<Rightarrow> 64 word" where
  "et_hash key = hash_array (et_metas key) (hash_array (et_types key) FNV_offset_basis)"

definition et_merge :: "entity_type \<Rightarrow> entity_type \<Rightarrow> entity_type" where
  "et_merge lhs rhs = \<lparr>et_types = set_merge (et_types lhs) (et_types rhs),
                       et_metas = set_merge (et_metas lhs) (et_metas rhs)\<rparr>"

definition et_substract :: "entity_type \<Rightarrow> entity_type \<Rightarrow> entity_type" where
  "et_substract lhs rhs = \<lparr>et_types = set_substract (et_types lhs) (et_types rhs),
                           et_metas = set_substract (et_metas lhs) (et_metas rhs)\<rparr>"

definition et_get_size :: "entity_type \<Rightarrow> nat" where
  "et_get_size t = set_get_size 4 (et_types t) + set_get_size 4 (et_metas t)"

record type_diff =
  td_extend :: entity_type
  td_shrink :: entity_type

definition td_equal :: "type_diff \<Rightarrow> type_diff \<Rightarrow> bool" where
  "td_equal a b \<longleftrightarrow> et_equal (td_extend a) (td_extend b) \<and> et_equal (td_shrink a) (td_shrink b)"

definition td_merge :: "type_diff \<Rightarrow> type_diff \<Rightarrow> type_diff" where
  "td_merge a b = \<lparr>td_extend = et_merge (td_extend a) (td_extend b), td_shrink = et_merge (td_shrink a) (td_shrink b)\<rparr>"

definition td_get_size :: "type_diff \<Rightarrow> nat" where
  "td_get_size d = et_get_size (td_extend d) + et_get_size (td_shrink d)"

lemma et_equal_iff [simp]: "et_equal a b \<longleftrightarrow> a = b"
  by (auto simp: et_equal_def)

lemma td_equal_iff [simp]: "td_equal a b \<longleftrightarrow> a = b"
  by (auto simp: td_equal_def)

definition et_wf :: "entity_type \<Rightarrow> bool" where
  "et_wf t \<longleftrightarrow> ssorted (et_types t) \<and> ssorted (et_metas t)"

lemma et_wf_merge [intro]: "et_wf a \<Longrightarrow> et_wf b \<Longrightarrow> et_wf (et_merge a b)"
  by (simp add: et_wf_def et_merge_def ssorted_set_merge)

lemma et_wf_substract [intro]: "et_wf a \<Longrightarrow> et_wf (et_substract a b)"
  by (simp add: et_wf_def et_substract_def ssorted_set_substract)

lemma et_wf_EmptyType [simp]: "et_wf EmptyType"
  by (simp add: et_wf_def EmptyType_def)

section \<open>Filters\<close>

record archetype_filter =
  af_all :: entity_type
  af_any :: entity_type
  af_none :: entity_type
  af_shared :: "type_index list"
  af_owned :: "type_index list"

definition af_equal :: "archetype_filter \<Rightarrow> archetype_filter \<Rightarrow> bool" where
  "af_equal a b \<longleftrightarrow> et_equal (af_all a) (af_all b) \<and> et_equal (af_any a) (af_any b)
     \<and> et_equal (af_none a) (af_none b)
     \<and> set_equal (af_shared a) (af_shared b) \<and> set_equal (af_owned a) (af_owned b)"

definition af_hash :: "archetype_filter \<Rightarrow> 64 word" where
  "af_hash key =
     (let h = hash_array (et_types (af_all key)) FNV_offset_basis;
          h = hash_array (et_metas (af_all key)) h;
          h = hash_array (et_types (af_any key)) h;
          h = hash_array (et_metas (af_any key)) h;
          h = hash_array (et_types (af_none key)) h;
          h = hash_array (et_metas (af_none key)) h;
          h = hash_array (af_shared key) h
      in hash_array (af_owned key) h)"

definition af_get_size :: "archetype_filter \<Rightarrow> nat" where
  "af_get_size f = et_get_size (af_all f) + et_get_size (af_any f) + et_get_size (af_none f)
     + set_get_size 4 (af_shared f) + set_get_size 4 (af_owned f)"

definition af_match :: "archetype_filter \<Rightarrow> entity_type \<Rightarrow> type_index list \<Rightarrow> bool" where
  "af_match f t sharedT =
     (let components = set_merge (et_types t) sharedT in
      if \<not> set_all components (et_types (af_all f)) then False
      else if length (et_types (af_any f)) > 0 \<and> \<not> set_any components (et_types (af_any f)) then False
      else
        let nonOwned = set_substract (et_types (af_none f)) (af_shared f);
            nonShared = set_substract (et_types (af_none f)) (af_owned f) in
        if set_any (et_types t) nonOwned then False
        else if set_any sharedT nonShared then False
        else if \<not> set_all (et_types t) (af_owned f) then False
        else if \<not> set_all sharedT (af_shared f) then False
        else if \<not> set_all (et_metas t) (et_metas (af_all f)) then False
        else if length (et_metas (af_any f)) > 0 \<and> \<not> set_any (et_metas t) (et_metas (af_any f)) then False
        else if set_any (et_metas t) (et_metas (af_none f)) then False
        else True)"

record chunk_filter =
  changed :: "type_index list"
  prevTimestamp :: nat

fun cf_match_loop :: "type_index list \<Rightarrow> nat \<Rightarrow> type_index list \<Rightarrow> nat \<Rightarrow> (nat \<Rightarrow> nat) \<Rightarrow> bool" where
  "cf_match_loop (c # cs) prev (t # ts) j timestamps =
     (if c > t then cf_match_loop (c # cs) prev ts (j + 1) timestamps
      else if c < t then cf_match_loop cs prev (t # ts) j timestamps
      else if timestamps j \<ge> prev then True
      else cf_match_loop cs prev ts (j + 1) timestamps)"
| "cf_match_loop _ prev _ j timestamps = False"

definition cf_match :: "chunk_filter \<Rightarrow> entity_type \<Rightarrow> (nat \<Rightarrow> nat) \<Rightarrow> bool" where
  "cf_match f t timestamps =
     (if length (changed f) = 0 then True
      else cf_match_loop (changed f) (prevTimestamp f) (et_types t) 0 timestamps)"

definition cf_equal :: "chunk_filter \<Rightarrow> chunk_filter \<Rightarrow> bool" where
  "cf_equal a b \<longleftrightarrow> set_equal (changed a) (changed b) \<and> prevTimestamp a = prevTimestamp b"

definition cf_get_size :: "chunk_filter \<Rightarrow> nat" where
  "cf_get_size f = set_get_size 4 (changed f)"

record entity_filter =
  inverseMask :: "type_index list"

section \<open>Index and mask of an archetype's types\<close>

definition InvalidIndex :: nat where "InvalidIndex = 2 ^ 16 - 1"

text \<open>\<open>std::lower_bound\<close> on a sorted array: the first position not below the key.\<close>

definition lower_bound :: "type_index list \<Rightarrow> type_index \<Rightarrow> nat" where
  "lower_bound ts t = length (takeWhile (\<lambda>x. x < t) ts)"

definition types_index :: "type_index list \<Rightarrow> type_index \<Rightarrow> nat" where
  "types_index ts t =
     (let result = lower_bound ts t in
      if result \<noteq> length ts \<and> ts ! result = t then u16 result else InvalidIndex)"

type_synonym mask = "32 word"

definition mask_set :: "nat \<Rightarrow> mask \<Rightarrow> mask option" where
  "mask_set i m = (if i < 32 then Some (set_bit i m) else None)"

fun get_mask_loop :: "type_index list \<Rightarrow> type_index list \<Rightarrow> nat \<Rightarrow> mask \<Rightarrow> mask option" where
  "get_mask_loop (a # ta) (b # tb) i ret =
     (if a > b then get_mask_loop (a # ta) tb i ret
      else if a < b then get_mask_loop ta (b # tb) (i + 1) ret
      else (case mask_set i ret of
              None \<Rightarrow> None
            | Some ret' \<Rightarrow> get_mask_loop ta tb (i + 1) ret'))"
| "get_mask_loop _ _ i ret = Some ret"

definition types_mask :: "type_index list \<Rightarrow> type_index list \<Rightarrow> mask option" where
  "types_mask types subtype = get_mask_loop types subtype 0 0"

text \<open>Whether a chunk of one type can become a chunk of another without moving data.\<close>

fun static_castable_loop :: "dots_context \<Rightarrow> type_index list \<Rightarrow> type_index list \<Rightarrow> bool" where
  "static_castable_loop ctx (st # a) (dt # b) =
     (if is_tag st \<and> is_tag dt then True
      else if to_valid_type ctx st \<noteq> to_valid_type ctx dt then False
      else static_castable_loop ctx a b)"
| "static_castable_loop ctx [] [] = True"
| "static_castable_loop ctx [] (dt # b) = is_tag dt"
| "static_castable_loop ctx (st # a) [] = is_tag st"

definition static_castable :: "dots_context \<Rightarrow> entity_type \<Rightarrow> entity_type \<Rightarrow> bool" where
  "static_castable ctx typeA typeB = static_castable_loop ctx (et_types typeA) (et_types typeB)"

section \<open>Correctness\<close>

lemma types_index_nth:
  assumes "ssorted ts" "length ts < InvalidIndex" "i < length ts"
  shows "types_index ts (ts ! i) = i"
proof -
  have split: "ts = take i ts @ ts ! i # drop (Suc i) ts"
    using assms(3) by (rule id_take_nth_drop)
  have "\<forall>x \<in> set (take i ts). x < ts ! i"
    using assms(1,3) by (auto simp: in_set_conv_nth sorted_wrt_iff_nth_less)
  then have "takeWhile (\<lambda>x. x < ts ! i) (take i ts @ ts ! i # drop (Suc i) ts) = take i ts"
    by (subst takeWhile_append2) auto
  then have "lower_bound ts (ts ! i) = i"
    using split assms(3) by (simp add: lower_bound_def)
  moreover have "u16 i = i"
    using assms by (intro u16_small) (simp add: InvalidIndex_def)
  ultimately show ?thesis using assms(3) by (simp add: types_index_def)
qed

lemma types_index_absent: "t \<notin> set ts \<Longrightarrow> types_index ts t = InvalidIndex"
proof -
  assume t: "t \<notin> set ts"
  have "lower_bound ts t \<le> length ts"
    by (simp add: lower_bound_def length_takeWhile_le)
  then have "\<not> (lower_bound ts t \<noteq> length ts \<and> ts ! lower_bound ts t = t)"
    using t by (metis le_neq_implies_less nth_mem)
  then show ?thesis by (simp only: types_index_def Let_def if_False)
qed

lemma types_index_cases:
  assumes "ssorted ts" "length ts < InvalidIndex"
  shows "(t \<in> set ts \<longleftrightarrow> types_index ts t \<noteq> InvalidIndex)
    \<and> (t \<in> set ts \<longrightarrow> types_index ts t < length ts \<and> ts ! types_index ts t = t)"
proof (cases "t \<in> set ts")
  case True
  then obtain i where "i < length ts" "ts ! i = t" by (auto simp: in_set_conv_nth)
  then show ?thesis using types_index_nth [OF assms, of i] assms(2) True by auto
next
  case False
  then show ?thesis by (simp add: types_index_absent)
qed

lemma get_mask_loop_bits:
  assumes "ssorted ta" "ssorted tb" "get_mask_loop ta tb i ret = Some m"
  shows "\<forall>k. bit m k \<longleftrightarrow> bit ret k \<or> (i \<le> k \<and> k < i + length ta \<and> ta ! (k - i) \<in> set tb)"
  using assms
proof (induction ta tb i ret rule: get_mask_loop.induct)
  case (1 a ta b tb i ret)
  consider "b < a" | "a < b" | "a = b" by force
  then show ?case
  proof cases
    case 1
    have "\<forall>x \<in> set (a # ta). x \<noteq> b" using 1 "1.prems"(1) by auto
    then have "(a # ta) ! (k - i) \<in> set tb \<longleftrightarrow> (a # ta) ! (k - i) \<in> set (b # tb)"
      if "i \<le> k" "k < i + length (a # ta)" for k
      using that nth_mem [of "k - i" "a # ta"] by fastforce
    then show ?thesis using 1 "1.IH"(1) "1.prems" by auto
  next
    case 2
    then have "a \<notin> set (b # tb)" using "1.prems"(2) by auto
    then show ?thesis using 2 "1.IH"(2) "1.prems"
      by (auto simp: nth_Cons' Suc_diff_Suc split: if_splits)
  next
    case 3
    then obtain r where r: "mask_set i ret = Some r" "get_mask_loop ta tb (i + 1) r = Some m"
      using "1.prems"(3) by (auto split: option.splits)
    then have "i < 32" and bits: "bit r k \<longleftrightarrow> bit ret k \<or> k = i" for k
      by (auto simp: mask_set_def bit_set_bit_iff possible_bit_def split: if_splits)
    have "a \<notin> set ta" using "1.prems"(1) by auto
    have IH: "\<forall>k. bit m k \<longleftrightarrow> bit r k \<or> (i + 1 \<le> k \<and> k < i + 1 + length ta \<and> ta ! (k - (i + 1)) \<in> set tb)"
      using 3 "1.IH"(3) [OF _ _ r(1)] "1.prems"(1,2) r(2) by simp
    have "ta ! (k - (i + 1)) \<in> set tb \<longleftrightarrow> (a # ta) ! (k - i) \<in> set (b # tb)"
      if "i + 1 \<le> k" "k < i + 1 + length ta" for k
    proof -
      have "(a # ta) ! (k - i) = ta ! (k - (i + 1))" using that by (simp add: nth_Cons')
      moreover have "ta ! (k - (i + 1)) \<in> set ta" using that by (intro nth_mem) auto
      ultimately show ?thesis using 3 \<open>a \<notin> set ta\<close> by auto
    qed
    then show ?thesis using IH bits 3
      by (auto simp: nth_Cons' split: if_splits)
         (metis Suc_leI add.commute le_neq_implies_less less_Suc_eq_le plus_1_eq_Suc not_less_eq_eq)+
  qed
qed auto

lemma get_mask_loop_defined:
  "i + length ta \<le> 32 \<Longrightarrow> \<exists>m. get_mask_loop ta tb i ret = Some m"
  by (induction ta tb i ret rule: get_mask_loop.induct) (auto simp: mask_set_def)

lemma cf_match_loop_iff:
  "ssorted cs \<Longrightarrow> ssorted ts \<Longrightarrow>
   cf_match_loop cs prev ts j st \<longleftrightarrow> (\<exists>k < length ts. ts ! k \<in> set cs \<and> st (j + k) \<ge> prev)"
proof (induction cs prev ts j st rule: cf_match_loop.induct)
  case (1 c cs prev t ts j st)
  consider "t < c" | "c < t" | "c = t" by force
  then show ?case
  proof cases
    case 1
    then have "t \<notin> set (c # cs)" using "1.prems"(1) by auto
    then show ?thesis using 1 "1.IH"(1) "1.prems" by (simp add: Ex_less_Suc2)
  next
    case 2
    then have "\<forall>x \<in> set (t # ts). x \<noteq> c" using "1.prems"(2) by auto
    then have "(t # ts) ! k \<in> set (c # cs) \<longleftrightarrow> (t # ts) ! k \<in> set cs" if "k < length (t # ts)" for k
      using that nth_mem [of k "t # ts"] by auto
    then show ?thesis using 2 "1.IH"(2) "1.prems" by auto
  next
    case 3
    have "\<forall>x \<in> set ts. x \<noteq> c" using "1.prems"(2) 3 by auto
    then have "ts ! k \<in> set (c # cs) \<longleftrightarrow> ts ! k \<in> set cs" if "k < length ts" for k
      using that nth_mem [of k ts] by auto
    then show ?thesis using 3 "1.IH"(3) "1.prems" by (auto simp: Ex_less_Suc2)
  qed
qed auto

definition af_wf :: "archetype_filter \<Rightarrow> bool" where
  "af_wf f \<longleftrightarrow> et_wf (af_all f) \<and> et_wf (af_any f) \<and> et_wf (af_none f)
     \<and> ssorted (af_shared f) \<and> ssorted (af_owned f)"

text \<open>C25. An archetype with types \<open>T\<close>, shared types \<open>S\<close> and metas \<open>M\<close> matches a filter exactly
  when it has every \<open>all\<close> type and meta and one of the \<open>any\<close> ones, owns the \<open>owned\<close> and
  shares the \<open>shared\<close> types, and has none of the \<open>none\<close> metas, where a forbidden type may
  still be shared if it is listed in \<open>owned\<close> and owned if it is listed in \<open>shared\<close>.\<close>

theorem af_match_iff:
  assumes "af_wf f" "et_wf t" "ssorted sharedT"
  shows "af_match f t sharedT \<longleftrightarrow>
     (let T = set (et_types t); S = set sharedT; M = set (et_metas t);
          none = set (et_types (af_none f)) in
       set (et_types (af_all f)) \<subseteq> T \<union> S
     \<and> (et_types (af_any f) = [] \<or> set (et_types (af_any f)) \<inter> (T \<union> S) \<noteq> {})
     \<and> T \<inter> (none - set (af_shared f)) = {} \<and> S \<inter> (none - set (af_owned f)) = {}
     \<and> set (af_owned f) \<subseteq> T \<and> set (af_shared f) \<subseteq> S
     \<and> set (et_metas (af_all f)) \<subseteq> M
     \<and> (et_metas (af_any f) = [] \<or> set (et_metas (af_any f)) \<inter> M \<noteq> {})
     \<and> M \<inter> set (et_metas (af_none f)) = {})"
proof -
  have wf: "ssorted (et_types (af_all f))" "ssorted (et_types (af_any f))" "ssorted (et_types (af_none f))"
    "ssorted (et_metas (af_all f))" "ssorted (et_metas (af_any f))" "ssorted (et_metas (af_none f))"
    "ssorted (af_shared f)" "ssorted (af_owned f)" "ssorted (et_types t)" "ssorted (et_metas t)"
    "ssorted sharedT"
    using assms by (simp_all add: af_wf_def et_wf_def)
  show ?thesis
    by (simp add: af_match_def Let_def ts.all_iff ts.any_iff ts.elems_merge ts.elems_substract
        ts.wf_merge ts.wf_substract wf Int_commute)
qed

theorem af_match_iff_witness:
  "let f = \<lparr>af_all = EmptyType\<lparr>et_types := [4]\<rparr>, af_any = EmptyType, af_none = EmptyType\<lparr>et_types := [7]\<rparr>,
            af_shared = [], af_owned = []\<rparr> in
   af_wf f \<and> et_wf (EmptyType\<lparr>et_types := [3, 5]\<rparr>) \<and> ssorted [4]
   \<and> af_match f (EmptyType\<lparr>et_types := [3, 5]\<rparr>) [4]"
proof -
  let ?f = "\<lparr>af_all = EmptyType\<lparr>et_types := [4]\<rparr>, af_any = EmptyType, af_none = EmptyType\<lparr>et_types := [7]\<rparr>,
            af_shared = [], af_owned = []\<rparr>"
  have "af_wf ?f" "et_wf (EmptyType\<lparr>et_types := [3, 5]\<rparr>)" "ssorted [4::nat]"
    by (simp_all add: af_wf_def et_wf_def EmptyType_def)
  then show ?thesis
    using af_match_iff [of ?f "EmptyType\<lparr>et_types := [3, 5]\<rparr>" "[4]"] by (simp add: Let_def EmptyType_def)
qed

text \<open>The component mask of a subset has exactly the bits of the archetype's types that
  are in the subset; it exists whenever the archetype has at most 32 types.\<close>

lemma types_mask_bits:
  assumes "ssorted ts" "ssorted sub" "length ts \<le> 32"
  shows "\<exists>m. types_mask ts sub = Some m \<and> (\<forall>k. bit m k \<longleftrightarrow> k < length ts \<and> ts ! k \<in> set sub)"
proof -
  obtain m where m: "get_mask_loop ts sub 0 0 = Some m"
    using get_mask_loop_defined [of 0 ts sub 0] assms(3) by auto
  then show ?thesis
    using get_mask_loop_bits [OF assms(1,2) m] by (auto simp: types_mask_def)
qed

lemma types_mask_bits_example:
  "ssorted [2, 5, 9::nat] \<and> ssorted [5, 9::nat] \<and> length [2, 5, 9::nat] \<le> 32
   \<and> (\<exists>m. types_mask [2, 5, 9] [5, 9] = Some m \<and> \<not> bit m 0 \<and> bit m 1)"
proof -
  have "ssorted [2, 5, 9::nat]" "ssorted [5, 9::nat]" "length [2, 5, 9::nat] \<le> 32" by simp_all
  from types_mask_bits [OF this] show ?thesis by fastforce
qed

text \<open>A chunk passes a change filter exactly when the filter names no type or one of the
  named types the archetype has was written at or after \<open>prevTimestamp\<close>.\<close>

lemma cf_match_iff:
  assumes "ssorted (changed f)" "ssorted (et_types t)"
  shows "cf_match f t timestamps \<longleftrightarrow> changed f = []
     \<or> (\<exists>k < length (et_types t). et_types t ! k \<in> set (changed f) \<and> timestamps k \<ge> prevTimestamp f)"
  using cf_match_loop_iff [OF assms, of "prevTimestamp f" 0 timestamps]
  by (auto simp: cf_match_def)

lemma cf_match_iff_example:
  "ssorted [3::nat] \<and> ssorted [1, 3::nat]
   \<and> cf_match \<lparr>changed = [3], prevTimestamp = 7\<rparr> \<lparr>et_types = [1, 3], et_metas = []\<rparr> (\<lambda>k. 6 + k)"
  using cf_match_iff [of "\<lparr>changed = [3], prevTimestamp = 7\<rparr>" "\<lparr>et_types = [1, 3], et_metas = []\<rparr>" "\<lambda>k. 6 + k"]
  by auto

end
