(* ===== verification/Buffer.thy ===== *)
theory Buffer
  imports Dots_Prelude
begin

text \<open>
  The small-vector \<open>buffer\<close> and its typed view \<open>buffer_t\<close> (\<open>Dots/Buffer.h\<close>).  A buffer is a
  16-byte struct inside some memory \<open>m\<close> at an address \<open>a\<close>: an 8-byte pointer \<open>d\<close>, a 16-bit
  \<open>size\<close> and a 16-bit \<open>capacity\<close> (4 bytes of padding), followed by the inline storage.  The
  bytes live in the inline storage while \<open>d\<close> is null and in the malloc'ed block \<open>d\<close> after the
  first growth.  \<open>block_heap\<close> is the C heap these blocks come from: the contents of each
  block, the next fresh address and the addresses that are allocated.
\<close>

record block_heap =
  blocks :: "ptr \<Rightarrow> bmem"
  next_block :: ptr
  live_blocks :: "ptr set"

definition buffer_malloc :: "block_heap \<Rightarrow> ptr \<times> block_heap" where
  "buffer_malloc h = (next_block h,
     h\<lparr>next_block := Suc (next_block h), live_blocks := insert (next_block h) (live_blocks h)\<rparr>)"

definition buffer_free :: "ptr \<Rightarrow> block_heap \<Rightarrow> block_heap" where
  "buffer_free p h = h\<lparr>live_blocks := live_blocks h - {p}\<rparr>"

definition sizeof_buffer :: nat where "sizeof_buffer = 16"

definition buf_d :: "bmem \<Rightarrow> nat \<Rightarrow> ptr" where "buf_d m a = rd 8 m a"
definition buf_size :: "bmem \<Rightarrow> nat \<Rightarrow> nat" where "buf_size m a = rd 2 m (a + 8)"
definition buf_capacity :: "bmem \<Rightarrow> nat \<Rightarrow> nat" where "buf_capacity m a = rd 2 m (a + 10)"
definition set_buf_d :: "nat \<Rightarrow> ptr \<Rightarrow> bmem \<Rightarrow> bmem" where "set_buf_d a v m = wr 8 m a v"
definition set_buf_size :: "nat \<Rightarrow> nat \<Rightarrow> bmem \<Rightarrow> bmem" where "set_buf_size a v m = wr 2 m (a + 8) v"
definition set_buf_capacity :: "nat \<Rightarrow> nat \<Rightarrow> bmem \<Rightarrow> bmem" where
  "set_buf_capacity a v m = wr 2 m (a + 10) v"

definition buffer_ctor :: "nat \<Rightarrow> nat \<Rightarrow> bmem \<Rightarrow> bmem" where
  "buffer_ctor a cap m = set_buf_size a 0 (set_buf_capacity a cap (set_buf_d a 0 m))"

text \<open>Byte \<open>i\<close> of \<open>data()\<close>, and a copy of \<open>n\<close> bytes into \<open>data() + off\<close>.\<close>

definition buf_data :: "bmem \<Rightarrow> block_heap \<Rightarrow> nat \<Rightarrow> bmem" where
  "buf_data m h a = (if buf_d m a = 0 then (\<lambda>i. m (a + sizeof_buffer + i)) else blocks h (buf_d m a))"

definition buf_write :: "nat \<Rightarrow> nat \<Rightarrow> bmem \<Rightarrow> nat \<Rightarrow> bmem \<times> block_heap \<Rightarrow> bmem \<times> block_heap" where
  "buf_write a off src n = (\<lambda>(m, h).
     if buf_d m a = 0 then (memcpy m (a + sizeof_buffer + off) src 0 n, h)
     else (m, h\<lparr>blocks := (blocks h)(buf_d m a := memcpy (blocks h (buf_d m a)) off src 0 n)\<rparr>))"

text \<open>Moving the contents to a new block, shared by \<open>grow\<close> and \<open>shrink\<close>.\<close>

definition buf_relocate :: "nat \<Rightarrow> nat \<Rightarrow> bmem \<times> block_heap \<Rightarrow> bmem \<times> block_heap" where
  "buf_relocate a newCap = (\<lambda>(m, h).
     let (newBuffer, h1) = buffer_malloc h;
         h2 = h1\<lparr>blocks := (blocks h1)(newBuffer :=
                memcpy (blocks h1 newBuffer) 0 (buf_data m h a) 0 (buf_size m a))\<rparr>;
         h3 = (if buf_d m a \<noteq> 0 then buffer_free (buf_d m a) h2 else h2)
     in (set_buf_capacity a newCap (set_buf_d a newBuffer m), h3))"

definition buf_grow :: "nat \<Rightarrow> nat \<Rightarrow> bmem \<times> block_heap \<Rightarrow> bmem \<times> block_heap" where
  "buf_grow a hint = (\<lambda>(m, h). buf_relocate a (u16 (max hint (buf_capacity m a * 2))) (m, h))"

definition buf_push :: "nat \<Rightarrow> bmem \<Rightarrow> nat \<Rightarrow> bmem \<times> block_heap \<Rightarrow> bmem \<times> block_heap" where
  "buf_push a dd len = (\<lambda>(m, h).
     let (m1, h1) = (if buf_size m a + len \<ge> buf_capacity m a then buf_grow a 0 (m, h) else (m, h));
         (m2, h2) = buf_write a (buf_size m1 a) dd len (m1, h1)
     in (set_buf_size a (u16 (buf_size m2 a + len)) m2, h2))"

text \<open>\<open>pop\<close> returns the offset into \<open>data()\<close> of the removed bytes.\<close>

definition buf_pop :: "nat \<Rightarrow> nat \<Rightarrow> bmem \<Rightarrow> nat \<times> bmem" where
  "buf_pop a len m =
     (let size = u16 (buf_size m a + 2 ^ 16 - len) in (size, set_buf_size a size m))"

fun shrink_cap :: "nat \<Rightarrow> nat \<Rightarrow> nat" where
  "shrink_cap newCap sz = (if newCap > sz * 2 then shrink_cap (newCap div 2) sz else newCap)"

declare shrink_cap.simps [simp del]

definition buf_shrink :: "nat \<Rightarrow> nat \<Rightarrow> bmem \<times> block_heap \<Rightarrow> bmem \<times> block_heap" where
  "buf_shrink a inlineSize = (\<lambda>(m, h).
     if buf_size m a < inlineSize then (set_buf_d a 0 m, buffer_free (buf_d m a) h)
     else let newCap = shrink_cap (buf_capacity m a) (buf_size m a) in
       if newCap \<noteq> buf_capacity m a then buf_relocate a newCap (m, h) else (m, h))"

definition buffer_dtor :: "nat \<Rightarrow> bmem \<times> block_heap \<Rightarrow> bmem \<times> block_heap" where
  "buffer_dtor a = (\<lambda>(m, h). if buf_d m a \<noteq> 0 then (m, buffer_free (buf_d m a) h) else (m, h))"

section \<open>The typed view \<open>buffer_t<T>\<close>\<close>

text \<open>\<open>esz\<close> is \<open>sizeof(T)\<close>; an element is the memory of its bytes.\<close>

definition buft_size :: "nat \<Rightarrow> bmem \<Rightarrow> nat \<Rightarrow> nat" where
  "buft_size esz m a = buf_size m a div esz"

definition buft_index :: "nat \<Rightarrow> bmem \<Rightarrow> block_heap \<Rightarrow> nat \<Rightarrow> nat \<Rightarrow> bmem" where
  "buft_index esz m h a i = (\<lambda>k. buf_data m h a (i * esz + k))"

definition buft_push :: "nat \<Rightarrow> nat \<Rightarrow> bmem \<Rightarrow> bmem \<times> block_heap \<Rightarrow> bmem \<times> block_heap" where
  "buft_push esz a p = buf_push a p esz"

definition buft_pop :: "nat \<Rightarrow> nat \<Rightarrow> bmem \<Rightarrow> bmem" where
  "buft_pop esz a m = snd (buf_pop a esz m)"

definition buft_reserve :: "nat \<Rightarrow> nat \<Rightarrow> nat \<Rightarrow> bmem \<times> block_heap \<Rightarrow> bmem \<times> block_heap" where
  "buft_reserve esz a newSize = (\<lambda>(m, h).
     if newSize * esz > buf_capacity m a then buf_grow a (u16 (newSize * esz)) (m, h) else (m, h))"

definition buft_resize :: "nat \<Rightarrow> nat \<Rightarrow> nat \<Rightarrow> bmem \<times> block_heap \<Rightarrow> bmem \<times> block_heap" where
  "buft_resize esz a newSize s =
     (let (m, h) = buft_reserve esz a newSize s in (set_buf_size a (u16 (newSize * esz)) m, h))"

section \<open>Reading a buffer over the writes to its header\<close>

definition buf_bytes :: "bmem \<times> block_heap \<Rightarrow> nat \<Rightarrow> byte list" where
  "buf_bytes s a = map (buf_data (fst s) (snd s) a) [0..<buf_size (fst s) a]"

text \<open>The pointer is null or an allocated block, and the next fresh block is not in use.\<close>

definition buf_wf :: "bmem \<times> block_heap \<Rightarrow> nat \<Rightarrow> bool" where
  "buf_wf s a \<longleftrightarrow> (buf_d (fst s) a = 0 \<or> buf_d (fst s) a \<in> live_blocks (snd s))
     \<and> buf_size (fst s) a \<le> buf_capacity (fst s) a
     \<and> (\<forall>p \<in> live_blocks (snd s). 0 < p \<and> p < next_block (snd s))
     \<and> 0 < next_block (snd s) \<and> next_block (snd s) < 2 ^ 64"

lemmas buf_field_defs = buf_d_def buf_size_def buf_capacity_def
  set_buf_d_def set_buf_size_def set_buf_capacity_def

lemma buf_fields [simp]:
  "v < 2 ^ 64 \<Longrightarrow> buf_d (set_buf_d a v m) a = v"
  "buf_d (set_buf_size a v m) a = buf_d m a"
  "buf_d (set_buf_capacity a v m) a = buf_d m a"
  "buf_size (set_buf_d a v m) a = buf_size m a"
  "v < 65536 \<Longrightarrow> buf_size (set_buf_size a v m) a = v"
  "buf_size (set_buf_capacity a v m) a = buf_size m a"
  "buf_capacity (set_buf_d a v m) a = buf_capacity m a"
  "buf_capacity (set_buf_size a v m) a = buf_capacity m a"
  "v < 65536 \<Longrightarrow> buf_capacity (set_buf_capacity a v m) a = v"
  by (simp_all add: buf_field_defs mem_simps)

lemma buf_size_bound [simp]: "buf_size m a < 65536"
  using rd_bound [of 2 m "a + 8"] by (simp add: buf_size_def)

lemma buf_header_inline [simp]:
  "set_buf_d a v m (a + 16 + i) = m (a + 16 + i)"
  "set_buf_size a v m (a + 16 + i) = m (a + 16 + i)"
  "set_buf_capacity a v m (a + 16 + i) = m (a + 16 + i)"
  by (simp_all add: buf_field_defs wr_out)

lemma buf_inline_fields [simp]:
  "buf_d (memcpy m (a + 16 + off) s 0 n) a = buf_d m a"
  "buf_size (memcpy m (a + 16 + off) s 0 n) a = buf_size m a"
  "buf_capacity (memcpy m (a + 16 + off) s 0 n) a = buf_capacity m a"
  by (simp_all add: buf_field_defs mem_simps)

lemma buf_data_size [simp]: "buf_data (set_buf_size a v m) h a = buf_data m h a"
  by (simp add: buf_data_def sizeof_buffer_def)

lemma buf_write_frame [simp]:
  "buf_size (fst (buf_write a off src n s)) a = buf_size (fst s) a"
  "buf_capacity (fst (buf_write a off src n s)) a = buf_capacity (fst s) a"
  "buf_d (fst (buf_write a off src n s)) a = buf_d (fst s) a"
  "live_blocks (snd (buf_write a off src n s)) = live_blocks (snd s)"
  "next_block (snd (buf_write a off src n s)) = next_block (snd s)"
  by (simp_all add: buf_write_def sizeof_buffer_def split: prod.splits)

lemma buf_write_data:
  "buf_data (fst (buf_write a off src n s)) (snd (buf_write a off src n s)) a
     = memcpy (buf_data (fst s) (snd s) a) off src 0 n"
proof -
  obtain m h where s: "s = (m, h)" by (cases s)
  show ?thesis
  proof (cases "buf_d m a = 0")
    case True
    have "(\<lambda>i. memcpy m (a + 16 + off) src 0 n (a + 16 + i)) = memcpy (\<lambda>i. m (a + 16 + i)) off src 0 n"
      by (auto simp: memcpy_def fun_eq_iff)
    with True show ?thesis
      by (simp add: s buf_write_def buf_data_def sizeof_buffer_def)
  next
    case False
    then show ?thesis by (simp add: s buf_write_def buf_data_def)
  qed
qed

lemma buf_relocate_frame:
  assumes "buf_wf s a" "cap < 2 ^ 16"
  shows "buf_size (fst (buf_relocate a cap s)) a = buf_size (fst s) a"
    "buf_capacity (fst (buf_relocate a cap s)) a = cap"
    "buf_d (fst (buf_relocate a cap s)) a = next_block (snd s)"
    "live_blocks (snd (buf_relocate a cap s))
       = insert (next_block (snd s)) (live_blocks (snd s) - {buf_d (fst s) a})"
    "next_block (snd (buf_relocate a cap s)) = Suc (next_block (snd s))"
    "\<And>i. i < buf_size (fst s) a \<Longrightarrow>
       buf_data (fst (buf_relocate a cap s)) (snd (buf_relocate a cap s)) a i
         = buf_data (fst s) (snd s) a i"
proof -
  obtain m h where s: "s = (m, h)" by (cases s)
  have nb: "0 < next_block h" "next_block h < 2 ^ 64"
    and fresh: "\<forall>p \<in> live_blocks h. 0 < p \<and> p < next_block h"
    and d: "buf_d m a = 0 \<or> buf_d m a \<in> live_blocks h"
    using assms(1) by (auto simp: buf_wf_def s)
  have nl: "next_block h \<notin> live_blocks h" "buf_d m a \<noteq> next_block h" "0 \<notin> live_blocks h"
    using fresh d nb by auto
  show "buf_size (fst (buf_relocate a cap s)) a = buf_size (fst s) a"
    "buf_capacity (fst (buf_relocate a cap s)) a = cap"
    "buf_d (fst (buf_relocate a cap s)) a = next_block (snd s)"
    "next_block (snd (buf_relocate a cap s)) = Suc (next_block (snd s))"
    using nb assms(2)
    by (simp_all add: s buf_relocate_def buffer_malloc_def Let_def buffer_free_def)
  show "\<And>i. i < buf_size (fst s) a \<Longrightarrow>
       buf_data (fst (buf_relocate a cap s)) (snd (buf_relocate a cap s)) a i
         = buf_data (fst s) (snd s) a i"
    using nb nl by (simp add: s buf_relocate_def buffer_malloc_def Let_def buffer_free_def buf_data_def memcpy_def)
  show "live_blocks (snd (buf_relocate a cap s))
       = insert (next_block (snd s)) (live_blocks (snd s) - {buf_d (fst s) a})"
    using nl by (auto simp: s buf_relocate_def buffer_malloc_def Let_def buffer_free_def)
qed

lemma buf_relocate_wf:
  assumes "buf_wf s a" "cap < 2 ^ 16" "buf_size (fst s) a \<le> cap" "Suc (next_block (snd s)) < 2 ^ 64"
  shows "buf_wf (buf_relocate a cap s) a"
  using assms buf_relocate_frame [OF assms(1,2)]
  by (auto simp: buf_wf_def)

lemma buf_relocate_bytes:
  assumes "buf_wf s a" "cap < 2 ^ 16"
  shows "buf_bytes (buf_relocate a cap s) a = buf_bytes s a"
  using buf_relocate_frame [OF assms] by (simp add: buf_bytes_def)

lemma buf_grow_eq: "buf_grow a hint s = buf_relocate a (u16 (max hint (buf_capacity (fst s) a * 2))) s"
  by (cases s) (simp add: buf_grow_def)

lemma buf_push_core:
  assumes "buf_wf s a" "buf_size (fst s) a + len \<le> buf_capacity (fst s) a"
  shows "let w = buf_write a (buf_size (fst s) a) dd len s;
             s' = (set_buf_size a (u16 (buf_size (fst w) a + len)) (fst w), snd w)
         in buf_wf s' a \<and> buf_bytes s' a = buf_bytes s a @ map dd [0..<len]"
proof -
  let ?n = "buf_size (fst s) a"
  let ?w = "buf_write a ?n dd len s"
  have "buf_capacity (fst s) a < 65536"
    using rd_bound [of 2 "fst s" "a + 10"] by (simp add: buf_capacity_def)
  then have small: "?n + len < 65536" "u16 (?n + len) = ?n + len"
    using assms(2) by (auto intro: u16_small)
  have "map (memcpy (buf_data (fst s) (snd s) a) ?n dd 0 len) [0..<?n + len]
      = map (buf_data (fst s) (snd s) a) [0..<?n] @ map dd [0..<len]"
    by (rule nth_equalityI) (auto simp: memcpy_def nth_append)
  then have "buf_bytes (set_buf_size a (?n + len) (fst ?w), snd ?w) a
      = buf_bytes s a @ map dd [0..<len]"
    using small by (simp add: buf_bytes_def buf_write_data)
  then show ?thesis
    using assms small by (simp add: buf_wf_def Let_def)
qed



lemma shrink_cap_bounds: "sz \<le> c \<Longrightarrow> sz \<le> shrink_cap c sz \<and> shrink_cap c sz \<le> c \<and> shrink_cap c sz \<le> 2 * sz"
proof (induction c sz rule: shrink_cap.induct)
  case (1 c sz)
  show ?case
  proof (cases "c > sz * 2")
    case True
    then have "sz \<le> shrink_cap (c div 2) sz \<and> shrink_cap (c div 2) sz \<le> c div 2 \<and> shrink_cap (c div 2) sz \<le> 2 * sz"
      by (intro "1.IH") auto
    moreover have "shrink_cap c sz = shrink_cap (c div 2) sz" using True by (subst shrink_cap.simps) simp
    ultimately show ?thesis by auto
  next
    case False
    moreover from this have "shrink_cap c sz = c" by (subst shrink_cap.simps) simp
    ultimately show ?thesis using "1.prems" by simp
  qed
qed

text \<open>Shrinking to a block keeps the contents and leaves at most twice the size as
  capacity.  Shrinking a buffer that is below the inline size frees the block without copying
  it back: the contents afterwards are whatever the inline storage held.\<close>

lemma buf_shrink_contents:
  assumes wf: "buf_wf s a" and nb: "Suc (next_block (snd s)) < 2 ^ 64"
  shows "(inlineSize \<le> buf_size (fst s) a \<longrightarrow>
       buf_wf (buf_shrink a inlineSize s) a \<and> buf_bytes (buf_shrink a inlineSize s) a = buf_bytes s a
     \<and> buf_capacity (fst (buf_shrink a inlineSize s)) a \<le> 2 * buf_size (fst s) a)
   \<and> (buf_size (fst s) a < inlineSize \<longrightarrow>
       buf_bytes (buf_shrink a inlineSize s) a
         = map (\<lambda>i. fst s (a + sizeof_buffer + i)) [0..<buf_size (fst s) a])"
proof -
  obtain m h where s: "s = (m, h)" by (cases s)
  have "buf_capacity m a < 65536"
    using rd_bound [of 2 m "a + 10"] by (simp add: buf_capacity_def)
  moreover have "buf_size m a \<le> shrink_cap (buf_capacity m a) (buf_size m a)
      \<and> shrink_cap (buf_capacity m a) (buf_size m a) \<le> buf_capacity m a
      \<and> shrink_cap (buf_capacity m a) (buf_size m a) \<le> 2 * buf_size m a"
    using wf by (intro shrink_cap_bounds) (simp add: buf_wf_def s)
  moreover from calculation have "shrink_cap (buf_capacity m a) (buf_size m a) < 2 ^ 16" by simp
  ultimately show ?thesis
    using buf_relocate_wf [OF wf, of "shrink_cap (buf_capacity m a) (buf_size m a)"] nb wf
      buf_relocate_bytes [OF wf, of "shrink_cap (buf_capacity m a) (buf_size m a)"]
      buf_relocate_frame [OF wf, of "shrink_cap (buf_capacity m a) (buf_size m a)"]
    by (auto simp: s buf_shrink_def Let_def buf_bytes_def buf_data_def sizeof_buffer_def)
qed

lemma buf_shrink_contents_example:
  "let s = (buffer_ctor 0 4 (\<lambda>_. 0), \<lparr>blocks = \<lambda>_ _. 0, next_block = 1, live_blocks = {}\<rparr>) in
   buf_wf s 0 \<and> Suc (next_block (snd s)) < 2 ^ 64 \<and> buf_bytes (buf_shrink 0 0 s) 0 = buf_bytes s 0"
proof -
  let ?s = "(buffer_ctor 0 4 (\<lambda>_. 0), \<lparr>blocks = \<lambda>_ _. 0, next_block = 1, live_blocks = {}\<rparr>)"
  have f: "buf_d (fst ?s) 0 = 0" "buf_size (fst ?s) 0 = 0" "buf_capacity (fst ?s) 0 = 4"
    by (simp_all add: buffer_ctor_def)
  then have "buf_wf ?s 0" by (simp add: buf_wf_def)
  then show ?thesis
    using buf_shrink_contents [of ?s 0 0] by (simp add: Let_def)
qed

end
