(* ===== verification/World.thy ===== *)
theory World
  imports Entity_Type Buffer
begin

text \<open>
  The state of a \<open>world\<close> (\<open>Dots/Database.h\<close>): the heap with its chunks and archetypes, the
  entity table, the archetype map, the query caches and the timestamps.

  A chunk is a header and three arrays that lie behind it in the same allocation:
  \<open>c_ents\<close>, the entity array at the start of \<open>data()\<close>; \<open>c_data\<close>, the component bytes,
  addressed by their offset from \<open>data()\<close>; and \<open>c_stamps\<close>, the timestamps at the end of the
  chunk.  Theory \<open>Layout\<close> gives their addresses and says when they do not overlap.  Every
  pointer leads to some record (memory that was never written holds arbitrary values); that
  the pointers the operations follow are allocated is part of the invariants.

  \<open>fresh_data\<close> is the contents of entity-table memory that no one has written, and
  \<open>arch_events\<close> is the sequence of calls of the \<open>on_archetype_update\<close> callback.
\<close>

section \<open>Chunks, archetypes\<close>

datatype alloc_type = smallbin | fastbin | largebin

record chunk =
  c_next :: ptr
  c_prev :: ptr
  c_type :: ptr
  c_count :: nat
  c_ct :: alloc_type
  c_ents :: "nat \<Rightarrow> entity"
  c_data :: bmem
  c_stamps :: "nat \<Rightarrow> nat"

record chunk_slice =
  sl_c :: ptr
  sl_start :: nat
  sl_count :: nat

record archetype =
  firstChunk :: ptr
  lastChunk :: ptr
  firstFree :: ptr
  componentCount :: nat
  firstTag :: nat
  firstManaged :: nat
  metaCount :: nat
  firstBuffer :: nat
  chunkCount :: nat
  chunkCapacity :: "alloc_type \<Rightarrow> nat"
  g_timestamp :: nat
  g_size :: nat
  entitySize :: nat
  g_types :: "type_index list"
  offsets :: "alloc_type \<Rightarrow> nat \<Rightarrow> nat"
  sizes :: "nat list"
  metatypes :: "entity list"
  managedFuncs :: "component_vtable list"
  disabled :: bool
  cleaning :: bool
  copying :: bool
  withMask :: bool
  withTracked :: bool
  zerosize :: bool

record matched_archetype =
  m_type :: ptr
  matched :: mask

record query_cache =
  q_includeDisabled :: bool
  q_includeClean :: bool
  q_filter :: archetype_filter
  q_archetypes :: "matched_archetype list"

text \<open>An entry of the entity table: the union of the chunk pointer and the 32-bit free-list
  link is one 64-bit value, of which \<open>nextFree\<close> is the low half.\<close>

record edata =
  ed_u :: nat
  ed_i :: nat
  ed_v :: nat

definition ed_c :: "edata \<Rightarrow> ptr" where "ed_c d = ed_u d"
definition ed_nextFree :: "edata \<Rightarrow> nat" where "ed_nextFree d = ed_u d mod 2 ^ 32"
definition set_ed_c :: "ptr \<Rightarrow> edata \<Rightarrow> edata" where "set_ed_c c d = d\<lparr>ed_u := c\<rparr>"
definition set_ed_nextFree :: "nat \<Rightarrow> edata \<Rightarrow> edata" where
  "set_ed_nextFree n d = d\<lparr>ed_u := ed_u d div 2 ^ 32 * 2 ^ 32 + u32 n\<rparr>"
definition set_ed_i :: "nat \<Rightarrow> edata \<Rightarrow> edata" where "set_ed_i i d = d\<lparr>ed_i := i mod 2 ^ 24\<rparr>"

record entities =
  datas :: "edata list"
  free_head :: nat

record world =
  chunks :: "ptr \<Rightarrow> chunk"
  archs :: "ptr \<Rightarrow> archetype"
  bheap :: block_heap
  next_ptr :: ptr
  bins :: "alloc_type \<Rightarrow> ptr list"
  bin_room :: "alloc_type \<Rightarrow> nat"
  w_ctx :: dots_context
  archetypes :: "(entity_type \<times> ptr) list"
  queries :: "(archetype_filter \<times> query_cache) list"
  ents :: entities
  fresh_data :: "nat \<Rightarrow> edata"
  typeTimestamps :: "nat \<Rightarrow> nat"
  typeCapacity :: nat
  timestamp :: nat
  arch_events :: "(ptr \<times> bool) list"

definition upd_chunk :: "ptr \<Rightarrow> (chunk \<Rightarrow> chunk) \<Rightarrow> world \<Rightarrow> world" where
  "upd_chunk p f w = w\<lparr>chunks := (chunks w)(p := f (chunks w p))\<rparr>"

definition upd_arch :: "ptr \<Rightarrow> (archetype \<Rightarrow> archetype) \<Rightarrow> world \<Rightarrow> world" where
  "upd_arch p f w = w\<lparr>archs := (archs w)(p := f (archs w p))\<rparr>"

definition arch_type :: "archetype \<Rightarrow> entity_type" where
  "arch_type g = \<lparr>et_types = g_types g, et_metas = metatypes g\<rparr>"

definition arch_index :: "archetype \<Rightarrow> type_index \<Rightarrow> nat" where
  "arch_index g t = types_index (g_types g) t"

definition arch_get_mask :: "archetype \<Rightarrow> type_index list \<Rightarrow> mask option" where
  "arch_get_mask g subtype = types_mask (et_types (arch_type g)) subtype"

definition slice_of_chunk :: "world \<Rightarrow> ptr \<Rightarrow> chunk_slice" where
  "slice_of_chunk w c = \<lparr>sl_c = c, sl_start = 0, sl_count = c_count (chunks w c)\<rparr>"

definition slice_full :: "world \<Rightarrow> chunk_slice \<Rightarrow> bool" where
  "slice_full w s \<longleftrightarrow> sl_c s \<noteq> 0 \<and> sl_start s = 0 \<and> sl_count s = c_count (chunks w (sl_c s))"

definition chunk_capacity :: "world \<Rightarrow> ptr \<Rightarrow> ptr \<Rightarrow> nat" where
  "chunk_capacity w g c = chunkCapacity (archs w g) (c_ct (chunks w c))"

section \<open>Chunk memory\<close>

definition kFastBinSize :: nat where "kFastBinSize = 64 * 1024"
definition kSmallBinThreshold :: nat where "kSmallBinThreshold = 8"
definition kSmallBinSize :: nat where "kSmallBinSize = 1024"
definition kLargeBinSize :: nat where "kLargeBinSize = 1024 * 1024"

primrec bin_size :: "alloc_type \<Rightarrow> nat" where
  "bin_size smallbin = kSmallBinSize"
| "bin_size fastbin = kFastBinSize"
| "bin_size largebin = kLargeBinSize"

definition chunk_get_size :: "chunk \<Rightarrow> nat" where
  "chunk_get_size c = (case c_ct c of fastbin \<Rightarrow> kFastBinSize | smallbin \<Rightarrow> kSmallBinSize
                                    | largebin \<Rightarrow> kLargeBinSize)"

text \<open>
  \<open>context::malloc\<close> and \<open>context::free\<close>: a chunk comes from the queue of its size class, or
  from the C heap when the queue is empty; a freed chunk goes back to the queue unless the
  queue refuses it.  The queues are the vendored \<open>moodycamel::ConcurrentQueue\<close>: here a list,
  which refuses an element when it holds \<open>bin_room\<close> elements.
\<close>

definition context_malloc :: "alloc_type \<Rightarrow> world \<Rightarrow> ptr \<times> world" where
  "context_malloc t w =
     (case bins w t of
        p # ps \<Rightarrow> (p, w\<lparr>bins := (bins w)(t := ps)\<rparr>)
      | [] \<Rightarrow> (next_ptr w, w\<lparr>next_ptr := Suc (next_ptr w)\<rparr>))"

definition context_free :: "alloc_type \<Rightarrow> ptr \<Rightarrow> world \<Rightarrow> world" where
  "context_free t p w =
     (if length (bins w t) < bin_room w t then w\<lparr>bins := (bins w)(t := bins w t @ [p])\<rparr> else w)"

definition malloc_chunk :: "alloc_type \<Rightarrow> world \<Rightarrow> ptr \<times> world" where
  "malloc_chunk t w =
     (let (c, w1) = context_malloc t w in
      (c, upd_chunk c (\<lambda>ch. ch\<lparr>c_ct := t, c_count := 0, c_prev := 0, c_next := 0\<rparr>) w1))"

definition recycle_chunk :: "ptr \<Rightarrow> world \<Rightarrow> world" where
  "recycle_chunk c w = context_free (c_ct (chunks w c)) c w"

section \<open>The intrusive list of an archetype's chunks\<close>

definition chunk_link :: "ptr \<Rightarrow> ptr \<Rightarrow> world \<Rightarrow> world" where
  "chunk_link this c w =
     (let w1 = (if c \<noteq> 0 then upd_chunk c (\<lambda>ch. ch\<lparr>c_next := c_next (chunks w this), c_prev := this\<rparr>) w
                else w);
          nx = c_next (chunks w1 this);
          w2 = (if nx \<noteq> 0 then upd_chunk nx (\<lambda>ch. ch\<lparr>c_prev := c\<rparr>) w1 else w1)
      in upd_chunk this (\<lambda>ch. ch\<lparr>c_next := c\<rparr>) w2)"

definition chunk_unlink :: "ptr \<Rightarrow> world \<Rightarrow> world" where
  "chunk_unlink this w =
     (let pv = c_prev (chunks w this);
          w1 = (if pv \<noteq> 0 then upd_chunk pv (\<lambda>ch. ch\<lparr>c_next := c_next (chunks w this)\<rparr>) w else w);
          nx = c_next (chunks w1 this);
          w2 = (if nx \<noteq> 0 then upd_chunk nx (\<lambda>ch. ch\<lparr>c_prev := c_prev (chunks w1 this)\<rparr>) w1 else w1)
      in upd_chunk this (\<lambda>ch. ch\<lparr>c_next := 0, c_prev := 0\<rparr>) w2)"

text \<open>\<open>world::remove(h, t, c)\<close> on the archetype's first and last chunk.\<close>

definition world_remove :: "ptr \<Rightarrow> ptr \<Rightarrow> world \<Rightarrow> world" where
  "world_remove g c w =
     (let w1 = (if c = lastChunk (archs w g)
                then upd_arch g (\<lambda>a. a\<lparr>lastChunk := c_prev (chunks w (lastChunk a))\<rparr>) w else w);
          w2 = (if firstChunk (archs w1 g) = c
                then upd_arch g (\<lambda>a. a\<lparr>firstChunk := c_next (chunks w1 (firstChunk a))\<rparr>) w1 else w1)
      in chunk_unlink c w2)"

definition mark_free :: "ptr \<Rightarrow> ptr \<Rightarrow> world \<Rightarrow> world" where
  "mark_free g c w =
     (let w1 = world_remove g c w;
          w2 = (if lastChunk (archs w1 g) \<noteq> 0 then chunk_link (lastChunk (archs w1 g)) c w1 else w1);
          w3 = upd_arch g (\<lambda>a. a\<lparr>lastChunk := c\<rparr>) w2;
          w4 = (if firstFree (archs w3 g) = 0 then upd_arch g (\<lambda>a. a\<lparr>firstFree := c\<rparr>) w3 else w3)
      in if firstChunk (archs w4 g) = 0 then upd_arch g (\<lambda>a. a\<lparr>firstChunk := c\<rparr>) w4 else w4)"

definition unmark_free :: "ptr \<Rightarrow> ptr \<Rightarrow> world \<Rightarrow> world" where
  "unmark_free g c w =
     (if firstFree (archs w g) = c
      then upd_arch g (\<lambda>a. a\<lparr>firstFree := c_next (chunks w c)\<rparr>) w
      else
        let w1 = world_remove g c w;
            w2 = (if firstChunk (archs w1 g) \<noteq> 0
                  then chunk_link c (firstChunk (archs w1 g))
                         (upd_chunk c (\<lambda>ch. ch\<lparr>c_next := c_next (chunks w1 (firstChunk (archs w1 g)))\<rparr>) w1)
                  else w1);
            w3 = upd_arch g (\<lambda>a. a\<lparr>firstChunk := c\<rparr>) w2
        in if lastChunk (archs w3 g) = 0 then upd_arch g (\<lambda>a. a\<lparr>lastChunk := c\<rparr>) w3 else w3)"

text \<open>
  \<open>structural_change\<close>: stamps the archetype, its types and the chunk.  The last loop runs
  over all types of the archetype.
\<close>

definition structural_change :: "ptr \<Rightarrow> ptr \<Rightarrow> world \<Rightarrow> world" where
  "structural_change g c w =
     (let t = arch_type (archs w g);
          w1 = (if g_timestamp (archs w g) \<noteq> timestamp w
                then (upd_arch g (\<lambda>a. a\<lparr>g_timestamp := timestamp w\<rparr>) w)
                       \<lparr>typeTimestamps := for_up (\<lambda>i ts. ts(ti_index (et_types t ! i) := timestamp w)) 0
                          (length (et_types t)) (typeTimestamps w)\<rparr>
                else w)
      in upd_chunk c (\<lambda>ch. ch\<lparr>c_stamps := for_up (\<lambda>i ts. ts(i := timestamp w)) 0
                          (length (et_types t)) (c_stamps ch)\<rparr>) w1)"

definition add_chunk :: "ptr \<Rightarrow> ptr \<Rightarrow> world \<Rightarrow> world" where
  "add_chunk g c w =
     (let w0 = structural_change g c w;
          w1 = upd_arch g (\<lambda>a. a\<lparr>g_size := u32 (g_size a + c_count (chunks w0 c))\<rparr>) w0;
          w2 = upd_chunk c (\<lambda>ch. ch\<lparr>c_type := g\<rparr>) w1;
          w3 = upd_arch g (\<lambda>a. a\<lparr>chunkCount := u16 (chunkCount a + 1)\<rparr>) w2;
          a = archs w3 g; cnt = c_count (chunks w3 c); cap = chunk_capacity w3 g c
      in if firstChunk a = 0 then
           (let w4 = upd_arch g (\<lambda>a. a\<lparr>lastChunk := c, firstChunk := c\<rparr>) w3 in
            if cnt < cap then upd_arch g (\<lambda>a. a\<lparr>firstFree := c\<rparr>) w4 else w4)
         else if cnt < cap then
           (let w4 = chunk_link (lastChunk a) c w3;
                w5 = upd_arch g (\<lambda>a. a\<lparr>lastChunk := c\<rparr>) w4 in
            if firstFree (archs w5 g) = 0 then upd_arch g (\<lambda>a. a\<lparr>firstFree := c\<rparr>) w5 else w5)
         else chunk_link (firstChunk a) c w3)"

section \<open>Construction\<close>

text \<open>
  The constructor \<open>world::world(typeCapacity)\<close>.  The memory it finds itself in is the
  argument \<open>w\<close>: chunks, archetypes, blocks, the bins and the context are shared by all
  worlds; \<open>timestamp\<close> has no initialiser.
\<close>

definition world_ctor :: "nat \<Rightarrow> world \<Rightarrow> world" where
  "world_ctor cap w = w\<lparr>archetypes := [], queries := [], ents := \<lparr>datas = [], free_head = 0\<rparr>,
     typeCapacity := cap, typeTimestamps := (\<lambda>_. 0), arch_events := []\<rparr>"

text \<open>A memory in which nothing has been allocated yet and every byte is zero.\<close>

definition zero_chunk :: chunk where
  "zero_chunk = \<lparr>c_next = 0, c_prev = 0, c_type = 0, c_count = 0, c_ct = smallbin, c_ents = (\<lambda>_. 0),
     c_data = (\<lambda>_. 0), c_stamps = (\<lambda>_. 0)\<rparr>"

definition zero_archetype :: archetype where
  "zero_archetype = \<lparr>firstChunk = 0, lastChunk = 0, firstFree = 0, componentCount = 0, firstTag = 0,
     firstManaged = 0, metaCount = 0, firstBuffer = 0, chunkCount = 0, chunkCapacity = (\<lambda>_. 0),
     g_timestamp = 0, g_size = 0, entitySize = 0, g_types = [], offsets = (\<lambda>_ _. 0), sizes = [],
     metatypes = [], managedFuncs = [], disabled = False, cleaning = False, copying = False,
     withMask = False, withTracked = False, zerosize = False\<rparr>"

definition blank_memory :: "dots_context \<Rightarrow> world" where
  "blank_memory ctx = \<lparr>chunks = (\<lambda>_. zero_chunk), archs = (\<lambda>_. zero_archetype),
     bheap = \<lparr>blocks = (\<lambda>_ _. 0), next_block = 1, live_blocks = {}\<rparr>, next_ptr = 1,
     bins = (\<lambda>_. []), bin_room = (\<lambda>_. 800), w_ctx = ctx, archetypes = [], queries = [],
     ents = \<lparr>datas = [], free_head = 0\<rparr>, fresh_data = (\<lambda>_. \<lparr>ed_u = 0, ed_i = 0, ed_v = 0\<rparr>),
     typeTimestamps = (\<lambda>_. 0), typeCapacity = 0, timestamp = 0, arch_events = []\<rparr>"

end
