(* ===== verification/Chunk_List.thy ===== *)
theory Chunk_List
  imports World
begin

text \<open>
  The intrusive doubly linked list of an archetype's chunks, abstracted to the list of its
  chunks.  \<open>dseg C p h xs t n\<close> says that in the chunk heap \<open>C\<close> the chunks \<open>xs\<close> are linked in
  this order from \<open>h\<close> to \<open>t\<close>, entered from \<open>p\<close> and left to \<open>n\<close>.  The lemmas give the effect
  of \<open>link\<close>, \<open>unlink\<close>, \<open>remove\<close>, \<open>mark_free\<close>, \<open>unmark_free\<close> and \<open>add_chunk\<close> as list
  operations; \<open>arch_chunks\<close> is the archetype's invariant (full chunks first, then the free
  ones, which \<open>firstFree\<close> points at).
\<close>

section \<open>Doubly linked segments\<close>

primrec dseg :: "(ptr \<Rightarrow> chunk) \<Rightarrow> ptr \<Rightarrow> ptr \<Rightarrow> ptr list \<Rightarrow> ptr \<Rightarrow> ptr \<Rightarrow> bool" where
  "dseg C p h [] t n \<longleftrightarrow> h = n \<and> t = p"
| "dseg C p h (x # xs) t n \<longleftrightarrow> h = x \<and> x \<noteq> 0 \<and> c_prev (C x) = p \<and> dseg C x (c_next (C x)) xs t n"

lemma dseg_append:
  "dseg C p h (xs @ ys) t n \<longleftrightarrow> (\<exists>m k. dseg C p h xs k m \<and> dseg C k m ys t n)"
  by (induction xs arbitrary: p h) auto

lemma dseg_cong:
  "(\<And>x. x \<in> set xs \<Longrightarrow> c_next (C' x) = c_next (C x) \<and> c_prev (C' x) = c_prev (C x)) \<Longrightarrow>
   dseg C' p h xs t n = dseg C p h xs t n"
  by (induction xs arbitrary: p h) auto

lemma dseg_nonzero: "dseg C p h xs t n \<Longrightarrow> x \<in> set xs \<Longrightarrow> x \<noteq> 0"
  by (induction xs arbitrary: p h) auto

lemma dseg_last: "dseg C p h xs t n \<Longrightarrow> xs \<noteq> [] \<Longrightarrow> t = last xs \<and> c_next (C t) = n \<and> h = hd xs"
  by (induction xs arbitrary: p h) (auto split: if_splits)

lemma dseg_set_next:
  assumes "dseg C p h xs t n" "xs \<noteq> []" "distinct xs"
    and "\<And>x. x \<in> set xs \<Longrightarrow> c_prev (C' x) = c_prev (C x)"
    and "\<And>x. x \<in> set xs \<Longrightarrow> x \<noteq> t \<Longrightarrow> c_next (C' x) = c_next (C x)"
    and "c_next (C' t) = n'"
  shows "dseg C' p h xs t n'"
  using assms
proof (induction xs arbitrary: p h)
  case (Cons x xs)
  show ?case
  proof (cases "xs = []")
    case True
    then show ?thesis using Cons.prems by auto
  next
    case False
    then have "t \<in> set xs" using dseg_last [of C x "c_next (C x)" xs t n] Cons.prems(1) by simp
    then have "x \<noteq> t" using Cons.prems(3) by auto
    then show ?thesis using Cons False by auto
  qed
qed simp

lemma dseg_set_prev:
  assumes "dseg C p h xs t n" "xs \<noteq> []" "distinct xs"
    and "\<And>x. x \<in> set xs \<Longrightarrow> c_next (C' x) = c_next (C x)"
    and "\<And>x. x \<in> set xs \<Longrightarrow> x \<noteq> h \<Longrightarrow> c_prev (C' x) = c_prev (C x)"
    and "c_prev (C' h) = p'"
  shows "dseg C' p' h xs t n"
proof -
  obtain ys where xs: "xs = h # ys" using assms(1,2) by (cases xs) auto
  have "dseg C' h (c_next (C h)) ys t n = dseg C h (c_next (C h)) ys t n"
    by (rule dseg_cong) (use assms xs in auto)
  then show ?thesis using assms xs by auto
qed

lemma dseg_remove:
  assumes seg: "dseg C 0 h (ys @ c # zs) t 0" and dist: "distinct (ys @ c # zs)"
    and pv: "pv = c_prev (C c)" and nx: "nx = c_next (C c)"
    and nexts: "\<And>x. x \<noteq> c \<Longrightarrow> c_next (C' x) = (if x = pv \<and> pv \<noteq> 0 then nx else c_next (C x))"
    and prevs: "\<And>x. x \<noteq> c \<Longrightarrow> c_prev (C' x) = (if x = nx \<and> nx \<noteq> 0 then pv else c_prev (C x))"
  shows "dseg C' 0 (if h = c then nx else h) (ys @ zs) (if t = c then pv else t) 0"
proof -
  obtain m k where ys: "dseg C 0 h ys k m" and czs: "dseg C k m (c # zs) t 0"
    using seg by (auto simp: dseg_append)
  then have c: "m = c" "k = pv" "c \<noteq> 0" and zs: "dseg C c nx zs t 0"
    by (auto simp: pv nx)
  have dj: "c \<notin> set ys" "c \<notin> set zs" "distinct ys" "distinct zs" "set ys \<inter> set zs = {}"
    using dist by auto
  have nz: "\<And>x. x \<in> set ys \<union> set zs \<Longrightarrow> x \<noteq> 0" using seg dseg_nonzero by fastforce
  have pv_in: "ys \<noteq> [] \<Longrightarrow> pv \<in> set ys" and pv0: "ys = [] \<Longrightarrow> pv = 0"
    using ys dseg_last [of C 0 h ys pv c] c by auto
  have nx_in: "zs \<noteq> [] \<Longrightarrow> nx \<in> set zs" and nx0: "zs = [] \<Longrightarrow> nx = 0 \<and> t = c"
    using zs dseg_last [of C c nx zs t 0] by auto
  have nxd: "x \<in> set ys \<Longrightarrow> \<not> (x = nx \<and> nx \<noteq> 0)" for x
    using nx_in nx0 dj(5) by (cases "zs = []") auto
  have pvd: "x \<in> set zs \<Longrightarrow> \<not> (x = pv \<and> pv \<noteq> 0)" for x
    using pv_in pv0 dj(5) by (cases "ys = []") auto
  have yp: "x \<in> set ys \<Longrightarrow> c_prev (C' x) = c_prev (C x)" for x
    using nxd [of x] prevs [of x] dj(1) by (cases "x = c") auto
  have zn: "x \<in> set zs \<Longrightarrow> c_next (C' x) = c_next (C x)" for x
    using pvd [of x] nexts [of x] dj(2) by (cases "x = c") auto
  have yn: "x \<in> set ys \<Longrightarrow> c_next (C' x) = (if x = pv then nx else c_next (C x))" for x
    using nexts [of x] dj(1) nz [of x] by (cases "x = c") auto
  have zp: "x \<in> set zs \<Longrightarrow> c_prev (C' x) = (if x = nx then pv else c_prev (C x))" for x
    using prevs [of x] dj(2) nz [of x] by (cases "x = c") auto
  have A: "dseg C' 0 (if h = c then nx else h) ys pv nx"
  proof (cases "ys = []")
    case True
    then show ?thesis using ys c pv0 by simp
  next
    case False
    then have "h \<noteq> c" using dseg_last [OF ys False] dj(1) by (metis hd_in_set)
    moreover have "dseg C' 0 h ys pv nx"
      by (rule dseg_set_next [OF ys [unfolded c] False dj(3)])
         (use yp yn pv_in [OF False] in auto)
    ultimately show ?thesis by simp
  qed
  have B: "dseg C' pv nx zs (if t = c then pv else t) 0"
  proof (cases "zs = []")
    case True
    then show ?thesis using nx0 by simp
  next
    case False
    then have "t \<noteq> c" using dseg_last [OF zs False] dj(2) by (metis last_in_set)
    moreover have "dseg C' pv nx zs t 0"
      by (rule dseg_set_prev [OF zs False dj(4)])
         (use zn zp nx_in [OF False] in auto)
    ultimately show ?thesis by simp
  qed
  from A B show ?thesis unfolding dseg_append by blast
qed

section \<open>Frames of the primitive steps\<close>

lemma upd_chunk_simps [simp]:
  "chunks (upd_chunk p f w) = (chunks w)(p := f (chunks w p))"
  "archs (upd_chunk p f w) = archs w" "bheap (upd_chunk p f w) = bheap w"
  "next_ptr (upd_chunk p f w) = next_ptr w" "bins (upd_chunk p f w) = bins w"
  "bin_room (upd_chunk p f w) = bin_room w" "w_ctx (upd_chunk p f w) = w_ctx w"
  "archetypes (upd_chunk p f w) = archetypes w" "queries (upd_chunk p f w) = queries w"
  "ents (upd_chunk p f w) = ents w" "fresh_data (upd_chunk p f w) = fresh_data w"
  "typeTimestamps (upd_chunk p f w) = typeTimestamps w" "typeCapacity (upd_chunk p f w) = typeCapacity w"
  "timestamp (upd_chunk p f w) = timestamp w" "arch_events (upd_chunk p f w) = arch_events w"
  by (simp_all add: upd_chunk_def)

lemma upd_arch_simps [simp]:
  "archs (upd_arch p g w) = (archs w)(p := g (archs w p))"
  "chunks (upd_arch p g w) = chunks w" "bheap (upd_arch p g w) = bheap w"
  "next_ptr (upd_arch p g w) = next_ptr w" "bins (upd_arch p g w) = bins w"
  "bin_room (upd_arch p g w) = bin_room w" "w_ctx (upd_arch p g w) = w_ctx w"
  "archetypes (upd_arch p g w) = archetypes w" "queries (upd_arch p g w) = queries w"
  "ents (upd_arch p g w) = ents w" "fresh_data (upd_arch p g w) = fresh_data w"
  "typeTimestamps (upd_arch p g w) = typeTimestamps w" "typeCapacity (upd_arch p g w) = typeCapacity w"
  "timestamp (upd_arch p g w) = timestamp w" "arch_events (upd_arch p g w) = arch_events w"
  by (simp_all add: upd_arch_def)

text \<open>What a list operation leaves alone: everything in a chunk but its two links.\<close>

definition same_payload :: "chunk \<Rightarrow> chunk \<Rightarrow> bool" where
  "same_payload a b \<longleftrightarrow> c_type a = c_type b \<and> c_count a = c_count b \<and> c_ct a = c_ct b
     \<and> c_ents a = c_ents b \<and> c_data a = c_data b \<and> c_stamps a = c_stamps b"

lemma same_payload_refl [simp]: "same_payload a a"
  by (simp add: same_payload_def)

lemma same_payload_trans: "same_payload a b \<Longrightarrow> same_payload b c \<Longrightarrow> same_payload a c"
  by (simp add: same_payload_def)

lemma upd_links_payload:
  "(\<And>ch. same_payload (f ch) ch) \<Longrightarrow> same_payload (chunks w x) (chunks v x) \<Longrightarrow>
   same_payload (chunks (if b then upd_chunk p f w else w) x) (chunks v x)"
  "(\<And>ch. same_payload (f ch) ch) \<Longrightarrow> same_payload (chunks w x) (chunks v x) \<Longrightarrow>
   same_payload (chunks (upd_chunk p f w) x) (chunks v x)"
  by (auto intro: same_payload_trans)

lemma links_payload [simp]:
  "same_payload (ch\<lparr>c_next := n, c_prev := p\<rparr>) ch" "same_payload (ch\<lparr>c_next := n\<rparr>) ch"
  "same_payload (ch\<lparr>c_prev := p\<rparr>) ch"
  by (simp_all add: same_payload_def)

lemma chunk_link_payload: "same_payload (chunks (chunk_link t c w) x) (chunks w x)"
  unfolding chunk_link_def Let_def
  by (intro upd_links_payload) simp_all

lemma chunk_unlink_payload: "same_payload (chunks (chunk_unlink c w) x) (chunks w x)"
  unfolding chunk_unlink_def Let_def
  by (intro upd_links_payload) simp_all

lemma chunk_link_archs [simp]: "archs (chunk_link t c w) = archs w"
  by (simp add: chunk_link_def Let_def)

lemma chunk_unlink_archs [simp]: "archs (chunk_unlink c w) = archs w"
  by (simp add: chunk_unlink_def Let_def)

lemma chunk_unlink_links:
  assumes "pv = c_prev (chunks w c)" "nx = c_next (chunks w c)" "pv \<noteq> c" "nx \<noteq> c"
  shows "x \<noteq> c \<Longrightarrow> c_next (chunks (chunk_unlink c w) x)
           = (if x = pv \<and> pv \<noteq> 0 then nx else c_next (chunks w x))"
    and "x \<noteq> c \<Longrightarrow> c_prev (chunks (chunk_unlink c w) x)
           = (if x = nx \<and> nx \<noteq> 0 then pv else c_prev (chunks w x))"
    and "c_next (chunks (chunk_unlink c w) c) = 0" "c_prev (chunks (chunk_unlink c w) c) = 0"
  using assms by (auto simp: chunk_unlink_def Let_def)

text \<open>The links only read and write chunks, so they do not see archetype updates.\<close>

lemma chunk_unlink_cong: "chunks v = chunks w \<Longrightarrow> chunks (chunk_unlink c v) = chunks (chunk_unlink c w)"
  by (simp add: chunk_unlink_def Let_def upd_chunk_def)

lemma chunk_link_cong: "chunks v = chunks w \<Longrightarrow> chunks (chunk_link t c v) = chunks (chunk_link t c w)"
  by (simp add: chunk_link_def Let_def upd_chunk_def)

section \<open>The list of an archetype\<close>

definition arch_list :: "world \<Rightarrow> ptr \<Rightarrow> ptr list \<Rightarrow> bool" where
  "arch_list w g xs \<longleftrightarrow> dseg (chunks w) 0 (firstChunk (archs w g)) xs (lastChunk (archs w g)) 0 \<and> distinct xs"

lemma arch_list_links:
  assumes "arch_list w g (ys @ c # zs)"
  shows "c_prev (chunks w c) = (if ys = [] then 0 else last ys)"
    "c_next (chunks w c) = (if zs = [] then 0 else hd zs)" "c \<noteq> 0"
    "firstChunk (archs w g) = hd (ys @ [c])" "lastChunk (archs w g) = last (c # zs)"
proof -
  from assms obtain m k where ys: "dseg (chunks w) 0 (firstChunk (archs w g)) ys k m"
    and czs: "dseg (chunks w) k m (c # zs) (lastChunk (archs w g)) 0"
    by (auto simp: arch_list_def dseg_append)
  then have zs: "m = c" "k = c_prev (chunks w c)" "dseg (chunks w) c (c_next (chunks w c)) zs (lastChunk (archs w g)) 0"
    by auto
  show "c_prev (chunks w c) = (if ys = [] then 0 else last ys)"
    using ys zs dseg_last [OF ys] by auto
  show "c_next (chunks w c) = (if zs = [] then 0 else hd zs)"
    using zs dseg_last [OF zs(3)] by auto
  show "c \<noteq> 0" using czs by simp
  show "firstChunk (archs w g) = hd (ys @ [c])"
    using ys zs dseg_last [OF ys] by (cases ys) auto
  show "lastChunk (archs w g) = last (c # zs)"
    using dseg_last [OF czs] by simp
qed

lemma world_remove_list:
  assumes "arch_list w g (ys @ c # zs)"
  shows "arch_list (world_remove g c w) g (ys @ zs)"
    and "c_next (chunks (world_remove g c w) c) = 0" "c_prev (chunks (world_remove g c w) c) = 0"
proof -
  let ?pv = "c_prev (chunks w c)" and ?nx = "c_next (chunks w c)"
  note lk = arch_list_links [OF assms]
  have d: "distinct (ys @ c # zs)" using assms by (simp add: arch_list_def)
  have ne: "?pv \<noteq> c" "?nx \<noteq> c"
    using lk(1,2,3) d by (auto split: if_splits dest: last_in_set hd_in_set)
  have rm: "chunks (world_remove g c w) = chunks (chunk_unlink c w)"
    unfolding world_remove_def Let_def by (rule chunk_unlink_cong) simp
  have rf: "firstChunk (archs (world_remove g c w) g) = (if firstChunk (archs w g) = c then ?nx else firstChunk (archs w g))"
    "lastChunk (archs (world_remove g c w) g) = (if lastChunk (archs w g) = c then ?pv else lastChunk (archs w g))"
    unfolding world_remove_def Let_def by simp_all
  show "c_next (chunks (world_remove g c w) c) = 0" "c_prev (chunks (world_remove g c w) c) = 0"
    using chunk_unlink_links(3,4) [OF refl refl ne] by (simp_all add: rm)
  have "dseg (chunks w) 0 (firstChunk (archs w g)) (ys @ c # zs) (lastChunk (archs w g)) 0"
    using assms by (simp add: arch_list_def)
  from dseg_remove [OF this d refl refl chunk_unlink_links(1,2) [OF refl refl ne]]
  show "arch_list (world_remove g c w) g (ys @ zs)"
    using d by (simp add: arch_list_def rm rf)
qed

section \<open>Appending, prepending, inserting\<close>

lemma link_tail:
  assumes seg: "dseg (chunks w) 0 h xs t 0" and "xs \<noteq> []" "distinct (xs @ [c])" "c \<noteq> 0"
  shows "dseg (chunks (chunk_link t c w)) 0 h (xs @ [c]) c 0"
proof -
  have t: "t \<in> set xs" "c_next (chunks w t) = 0" "t \<noteq> c"
    using dseg_last [OF seg assms(2)] assms(2,3) by auto
  have C': "chunks (chunk_link t c w) = (chunks w)(c := (chunks w c)\<lparr>c_next := 0, c_prev := t\<rparr>,
      t := (chunks w t)\<lparr>c_next := c\<rparr>)"
    using t assms(4) by (simp add: chunk_link_def Let_def)
  have "dseg (chunks (chunk_link t c w)) 0 h xs t c"
    by (rule dseg_set_next [OF seg assms(2)]) (use assms(3) t in \<open>auto simp: C'\<close>)
  moreover have "dseg (chunks (chunk_link t c w)) t c [c] c 0"
    using t assms(4) by (simp add: C')
  ultimately show ?thesis unfolding dseg_append by blast
qed

lemma link_front:
  assumes seg: "dseg (chunks w) 0 h xs t 0" and "xs \<noteq> []" "distinct (c # xs)" "c \<noteq> 0"
    and "c_prev (chunks w c) = 0" "c_next (chunks w c) = c_next (chunks w h)"
  shows "dseg (chunks (chunk_link c h w)) 0 c (c # xs) t 0"
proof -
  obtain ys where xs: "xs = h # ys" using seg assms(2) by (cases xs) auto
  let ?nx = "c_next (chunks w h)"
  have h: "h \<noteq> 0" "h \<noteq> c" "c_prev (chunks w h) = 0" "dseg (chunks w) h ?nx ys t 0"
    using seg assms(3) by (auto simp: xs)
  have nx: "?nx \<noteq> 0 \<Longrightarrow> ?nx \<in> set ys \<and> c_prev (chunks w ?nx) = h \<and> ?nx \<noteq> h \<and> ?nx \<noteq> c"
    using h assms(3) xs by (cases ys) auto
  have links: "c_next (chunks (chunk_link c h w) x) = (if x = c then h else c_next (chunks w x))"
    "c_prev (chunks (chunk_link c h w) x) = (if x = h then c else c_prev (chunks w x))" for x
    using h nx assms(4,6) by (auto simp: chunk_link_def Let_def)
  have "dseg (chunks (chunk_link c h w)) c h xs t 0"
    by (rule dseg_set_prev [OF seg assms(2)]) (use assms(3) in \<open>auto simp: links\<close>)
  then show ?thesis using assms(4,5) h by (simp add: links)
qed

lemma link_second:
  assumes seg: "dseg (chunks w) 0 h (h # xs) t 0" and "distinct (c # h # xs)" "c \<noteq> 0"
  shows "dseg (chunks (chunk_link h c w)) 0 h (h # c # xs) (if xs = [] then c else t) 0"
proof -
  let ?nx = "c_next (chunks w h)"
  have h: "h \<noteq> 0" "h \<noteq> c" "c_prev (chunks w h) = 0" and rest: "dseg (chunks w) h ?nx xs t 0"
    using assms by auto
  have nx: "?nx \<noteq> 0 \<Longrightarrow> ?nx \<in> set xs \<and> ?nx \<noteq> h \<and> ?nx \<noteq> c" and nx0: "xs = [] \<longleftrightarrow> ?nx = 0"
    using rest assms(2) by (cases xs; auto)+
  have links: "c_next (chunks (chunk_link h c w) x)
        = (if x = h then c else if x = c then ?nx else c_next (chunks w x))"
    "c_prev (chunks (chunk_link h c w) x)
        = (if x = c then h else if x = ?nx \<and> ?nx \<noteq> 0 then c else c_prev (chunks w x))" for x
    using h nx assms(3) by (auto simp: chunk_link_def Let_def)
  have "dseg (chunks (chunk_link h c w)) c ?nx xs (if xs = [] then c else t) 0"
  proof (cases "xs = []")
    case True
    then show ?thesis using nx0 by simp
  next
    case False
    have "dseg (chunks (chunk_link h c w)) c ?nx xs t 0"
      by (rule dseg_set_prev [OF rest False]) (use assms(2) nx nx0 False in \<open>auto simp: links\<close>)
    then show ?thesis using False by simp
  qed
  moreover have "h \<noteq> ?nx" using nx h(1) by auto
  ultimately show ?thesis using h assms(3) by (simp add: links)
qed

section \<open>Frames of the list operations\<close>

definition arch_core :: "archetype \<Rightarrow> archetype" where
  "arch_core a = a\<lparr>firstChunk := 0, lastChunk := 0, firstFree := 0\<rparr>"

definition world_rest :: "world \<Rightarrow> world" where
  "world_rest w = w\<lparr>chunks := \<lambda>_. undefined, archs := \<lambda>_. undefined\<rparr>"

lemma world_rest_fields:
  assumes "world_rest w' = world_rest w"
  shows "bheap w' = bheap w" "next_ptr w' = next_ptr w" "bins w' = bins w" "bin_room w' = bin_room w"
    "w_ctx w' = w_ctx w" "archetypes w' = archetypes w" "queries w' = queries w" "ents w' = ents w"
    "fresh_data w' = fresh_data w" "typeTimestamps w' = typeTimestamps w"
    "typeCapacity w' = typeCapacity w" "timestamp w' = timestamp w" "arch_events w' = arch_events w"
  using arg_cong [OF assms, of bheap]
    arg_cong [OF assms, of next_ptr]
    arg_cong [OF assms, of bins]
    arg_cong [OF assms, of bin_room]
    arg_cong [OF assms, of w_ctx]
    arg_cong [OF assms, of archetypes]
    arg_cong [OF assms, of queries]
    arg_cong [OF assms, of ents]
    arg_cong [OF assms, of fresh_data]
    arg_cong [OF assms, of typeTimestamps]
    arg_cong [OF assms, of typeCapacity]
    arg_cong [OF assms, of timestamp]
    arg_cong [OF assms, of arch_events]
  by (simp_all add: world_rest_def)

lemma world_rest_upd [simp]:
  "world_rest (upd_chunk p f w) = world_rest w" "world_rest (upd_arch p g w) = world_rest w"
  by (simp_all add: world_rest_def upd_chunk_def upd_arch_def)

definition list_frame :: "world \<Rightarrow> world \<Rightarrow> bool" where
  "list_frame w w' \<longleftrightarrow> world_rest w' = world_rest w
     \<and> (\<forall>x. same_payload (chunks w' x) (chunks w x))
     \<and> (\<forall>x. arch_core (archs w' x) = arch_core (archs w x))"

lemma list_frame_refl [simp]: "list_frame w w"
  by (simp add: list_frame_def)

lemma list_frame_trans: "list_frame u v \<Longrightarrow> list_frame v w \<Longrightarrow> list_frame u w"
  unfolding list_frame_def by (metis same_payload_trans)

lemma list_frame_steps [intro]:
  "list_frame u w \<Longrightarrow> (\<And>ch. same_payload (f ch) ch) \<Longrightarrow> list_frame u (upd_chunk p f w)"
  "list_frame u w \<Longrightarrow> (\<And>a. arch_core (g a) = arch_core a) \<Longrightarrow> list_frame u (upd_arch p g w)"
  "list_frame u w \<Longrightarrow> list_frame u v \<Longrightarrow> list_frame u (if b then v else w)"
  by (auto simp: list_frame_def intro: same_payload_trans)

lemma arch_core_links [simp]:
  "arch_core (a\<lparr>lastChunk := x\<rparr>) = arch_core a" "arch_core (a\<lparr>firstChunk := x\<rparr>) = arch_core a"
  "arch_core (a\<lparr>firstFree := x\<rparr>) = arch_core a"
  by (simp_all add: arch_core_def)

lemma list_frame_link: "list_frame u w \<Longrightarrow> list_frame u (chunk_link t c w)"
  unfolding chunk_link_def Let_def by (intro list_frame_steps links_payload) auto

lemma list_frame_unlink: "list_frame u w \<Longrightarrow> list_frame u (chunk_unlink c w)"
  unfolding chunk_unlink_def Let_def by (intro list_frame_steps links_payload) auto

lemma list_frame_remove: "list_frame u w \<Longrightarrow> list_frame u (world_remove g c w)"
  unfolding world_remove_def Let_def by (intro list_frame_unlink list_frame_steps arch_core_links) auto

lemma list_frame_mark_free: "list_frame u w \<Longrightarrow> list_frame u (mark_free g c w)"
  unfolding mark_free_def Let_def
  by (intro list_frame_steps list_frame_link list_frame_remove arch_core_links) auto

lemma list_frame_unmark_free: "list_frame u w \<Longrightarrow> list_frame u (unmark_free g c w)"
  unfolding unmark_free_def Let_def
  by (intro list_frame_steps list_frame_link list_frame_remove arch_core_links links_payload) auto

lemma list_frame_arch:
  assumes "list_frame w w'"
  shows "chunkCapacity (archs w' x) = chunkCapacity (archs w x)" "g_types (archs w' x) = g_types (archs w x)"
    "g_size (archs w' x) = g_size (archs w x)" "metatypes (archs w' x) = metatypes (archs w x)"
    "chunkCount (archs w' x) = chunkCount (archs w x)"
proof -
  have "arch_core (archs w' x) = arch_core (archs w x)" using assms by (simp add: list_frame_def)
  from arg_cong [OF this, of chunkCapacity] arg_cong [OF this, of g_types] arg_cong [OF this, of g_size]
    arg_cong [OF this, of metatypes] arg_cong [OF this, of chunkCount]
  show "chunkCapacity (archs w' x) = chunkCapacity (archs w x)" "g_types (archs w' x) = g_types (archs w x)"
    "g_size (archs w' x) = g_size (archs w x)" "metatypes (archs w' x) = metatypes (archs w x)"
    "chunkCount (archs w' x) = chunkCount (archs w x)"
    by (simp_all add: arch_core_def)
qed

section \<open>mark\_free and unmark\_free as list operations\<close>

definition arch_chunks :: "world \<Rightarrow> ptr \<Rightarrow> ptr list \<Rightarrow> ptr list \<Rightarrow> bool" where
  "arch_chunks w g full free \<longleftrightarrow> arch_list w g (full @ free)
     \<and> firstFree (archs w g) = (case free of [] \<Rightarrow> 0 | f # _ \<Rightarrow> f)"

lemma world_remove_arch:
  "firstFree (archs (world_remove g c w) g) = firstFree (archs w g)"
  by (simp add: world_remove_def Let_def)

lemma mark_free_chunks:
  assumes "arch_chunks w g (ys @ c # zs) free"
  shows "arch_chunks (mark_free g c w) g (ys @ zs) (free @ [c])"
proof -
  have al: "arch_list w g (ys @ c # (zs @ free))" and ff: "firstFree (archs w g) = (case free of [] \<Rightarrow> 0 | f # _ \<Rightarrow> f)"
    using assms by (simp_all add: arch_chunks_def)
  let ?w1 = "world_remove g c w" and ?xs = "ys @ zs @ free"
  have c: "c \<noteq> 0" "distinct (?xs @ [c])" using arch_list_links(3) [OF al] al by (auto simp: arch_list_def)
  have l1: "dseg (chunks ?w1) 0 (firstChunk (archs ?w1 g)) ?xs (lastChunk (archs ?w1 g)) 0"
    and cl: "c_next (chunks ?w1 c) = 0" "c_prev (chunks ?w1 c) = 0"
    using world_remove_list [OF al] by (simp_all add: arch_list_def)
  have f1: "firstFree (archs ?w1 g) = (case free of [] \<Rightarrow> 0 | f # _ \<Rightarrow> f)" using ff by (simp add: world_remove_arch)
  have fnz: "free \<noteq> [] \<Longrightarrow> hd free \<noteq> 0"
    using dseg_nonzero [OF l1, of "hd free"] by simp
  show ?thesis
  proof (cases "?xs = []")
    case True
    then have z: "firstChunk (archs ?w1 g) = 0" "lastChunk (archs ?w1 g) = 0" using l1 by auto
    show ?thesis
      using True c cl f1 z by (simp add: mark_free_def Let_def arch_chunks_def arch_list_def)
  next
    case False
    have nz: "lastChunk (archs ?w1 g) \<noteq> 0" "firstChunk (archs ?w1 g) \<noteq> 0"
      using dseg_last [OF l1 False] dseg_nonzero [OF l1] False by (metis last_in_set, metis hd_in_set)
    have "dseg (chunks (chunk_link (lastChunk (archs ?w1 g)) c ?w1)) 0 (firstChunk (archs ?w1 g)) (?xs @ [c]) c 0"
      by (rule link_tail [OF l1 False c(2,1)])
    then show ?thesis
      using nz c f1 fnz by (cases free) (auto simp: mark_free_def Let_def arch_chunks_def arch_list_def)
  qed
qed

lemma unmark_free_chunks_head:
  assumes "arch_chunks w g full (c # free)"
  shows "arch_chunks (unmark_free g c w) g (full @ [c]) free"
proof -
  have "arch_list w g (full @ c # free)" using assms by (simp add: arch_chunks_def)
  from arch_list_links(2) [OF this] assms show ?thesis
    by (cases free) (auto simp: unmark_free_def arch_chunks_def arch_list_def)
qed

lemma unmark_free_chunks_other:
  assumes "arch_list w g (ys @ c # zs)" "firstFree (archs w g) \<noteq> c"
  shows "arch_list (unmark_free g c w) g (c # ys @ zs)"
    "firstFree (archs (unmark_free g c w) g) = firstFree (archs w g)"
proof -
  let ?w1 = "world_remove g c w" and ?xs = "ys @ zs"
  have c: "c \<noteq> 0" "distinct (c # ?xs)"
    using arch_list_links(3) [OF assms(1)] assms(1) by (auto simp: arch_list_def)
  have l1: "dseg (chunks ?w1) 0 (firstChunk (archs ?w1 g)) ?xs (lastChunk (archs ?w1 g)) 0"
    and cl: "c_next (chunks ?w1 c) = 0" "c_prev (chunks ?w1 c) = 0"
    using world_remove_list [OF assms(1)] by (simp_all add: arch_list_def)
  show "firstFree (archs (unmark_free g c w) g) = firstFree (archs w g)"
    using assms(2) by (simp add: unmark_free_def Let_def world_remove_arch)
  show "arch_list (unmark_free g c w) g (c # ys @ zs)"
  proof (cases "?xs = []")
    case True
    then have z: "firstChunk (archs ?w1 g) = 0" "lastChunk (archs ?w1 g) = 0" using l1 by auto
    show ?thesis
      using True c cl z assms(2) by (simp add: unmark_free_def Let_def arch_list_def)
  next
    case False
    let ?h = "firstChunk (archs ?w1 g)"
    have nz: "lastChunk (archs ?w1 g) \<noteq> 0" "?h \<noteq> 0" "?h \<in> set ?xs"
      using dseg_last [OF l1 False] dseg_nonzero [OF l1] False by (metis last_in_set, metis hd_in_set, metis hd_in_set)
    let ?w2 = "upd_chunk c (\<lambda>ch. ch\<lparr>c_next := c_next (chunks ?w1 ?h)\<rparr>) ?w1"
    have "dseg (chunks ?w2) 0 ?h ?xs (lastChunk (archs ?w1 g)) 0"
      using l1 c(2) by (subst dseg_cong [where C = "chunks ?w1"]) auto
    then have "dseg (chunks (chunk_link c ?h ?w2)) 0 c (c # ?xs) (lastChunk (archs ?w1 g)) 0"
      by (rule link_front [OF _ False c(2,1)]) (use cl nz c in auto)
    then show ?thesis
      using nz c assms(2) by (simp add: unmark_free_def Let_def arch_list_def)
  qed
qed

lemma unmark_free_chunks:
  assumes "arch_chunks w g full (ys @ c # zs)"
  shows "arch_chunks (unmark_free g c w) g (if ys = [] then full @ [c] else c # full) (ys @ zs)"
proof (cases ys)
  case Nil
  then show ?thesis using unmark_free_chunks_head assms by simp
next
  case (Cons f fs)
  have al: "arch_list w g ((full @ ys) @ c # zs)" and ff: "firstFree (archs w g) = f"
    using assms Cons by (simp_all add: arch_chunks_def)
  have "f \<noteq> c" using al Cons by (auto simp: arch_list_def)
  then show ?thesis
    using unmark_free_chunks_other [OF al] ff Cons by (simp add: arch_chunks_def)
qed

section \<open>add\_chunk\<close>

lemma structural_change_arch:
  "firstChunk (archs (structural_change g c w) x) = firstChunk (archs w x)"
  "lastChunk (archs (structural_change g c w) x) = lastChunk (archs w x)"
  "firstFree (archs (structural_change g c w) x) = firstFree (archs w x)"
  "chunkCapacity (archs (structural_change g c w) x) = chunkCapacity (archs w x)"
  "g_size (archs (structural_change g c w) x) = g_size (archs w x)"
  "g_types (archs (structural_change g c w) x) = g_types (archs w x)"
  "chunkCount (archs (structural_change g c w) x) = chunkCount (archs w x)"
  by (simp_all add: structural_change_def Let_def)

lemma structural_change_chunk:
  "c_next (chunks (structural_change g c w) x) = c_next (chunks w x)"
  "c_prev (chunks (structural_change g c w) x) = c_prev (chunks w x)"
  "c_count (chunks (structural_change g c w) x) = c_count (chunks w x)"
  "c_ct (chunks (structural_change g c w) x) = c_ct (chunks w x)"
  "c_type (chunks (structural_change g c w) x) = c_type (chunks w x)"
  "c_ents (chunks (structural_change g c w) x) = c_ents (chunks w x)"
  "c_data (chunks (structural_change g c w) x) = c_data (chunks w x)"
  by (simp_all add: structural_change_def Let_def)

lemmas structural_change_simps = structural_change_arch structural_change_chunk

text \<open>The first half of \<open>add_chunk\<close>: everything before the list is touched.\<close>

definition add_chunk_prep :: "ptr \<Rightarrow> ptr \<Rightarrow> world \<Rightarrow> world" where
  "add_chunk_prep g c w =
     (let w0 = structural_change g c w in
      upd_arch g (\<lambda>a. a\<lparr>chunkCount := u16 (chunkCount a + 1)\<rparr>)
        (upd_chunk c (\<lambda>ch. ch\<lparr>c_type := g\<rparr>)
          (upd_arch g (\<lambda>a. a\<lparr>g_size := u32 (g_size a + c_count (chunks w0 c))\<rparr>) w0)))"

lemma add_chunk_prep_simps:
  "firstChunk (archs (add_chunk_prep g c w) x) = firstChunk (archs w x)"
  "lastChunk (archs (add_chunk_prep g c w) x) = lastChunk (archs w x)"
  "firstFree (archs (add_chunk_prep g c w) x) = firstFree (archs w x)"
  "chunkCapacity (archs (add_chunk_prep g c w) x) = chunkCapacity (archs w x)"
  "c_next (chunks (add_chunk_prep g c w) x) = c_next (chunks w x)"
  "c_prev (chunks (add_chunk_prep g c w) x) = c_prev (chunks w x)"
  "c_count (chunks (add_chunk_prep g c w) x) = c_count (chunks w x)"
  "c_ct (chunks (add_chunk_prep g c w) x) = c_ct (chunks w x)"
  by (simp_all add: add_chunk_prep_def Let_def structural_change_simps)

lemma add_chunk_alt:
  "add_chunk g c w =
     (let w3 = add_chunk_prep g c w; a = archs w3 g in
      if firstChunk a = 0 then
        (let w4 = upd_arch g (\<lambda>a. a\<lparr>lastChunk := c, firstChunk := c\<rparr>) w3 in
         if c_count (chunks w3 c) < chunk_capacity w3 g c then upd_arch g (\<lambda>a. a\<lparr>firstFree := c\<rparr>) w4 else w4)
      else if c_count (chunks w3 c) < chunk_capacity w3 g c then
        (let w5 = upd_arch g (\<lambda>a. a\<lparr>lastChunk := c\<rparr>) (chunk_link (lastChunk a) c w3) in
         if firstFree (archs w5 g) = 0 then upd_arch g (\<lambda>a. a\<lparr>firstFree := c\<rparr>) w5 else w5)
      else chunk_link (firstChunk a) c w3)"
  unfolding add_chunk_def add_chunk_prep_def Let_def by simp

lemma add_chunk_prep_seg:
  "dseg (chunks (add_chunk_prep g c w)) p h xs t n = dseg (chunks w) p h xs t n"
  by (rule dseg_cong) (simp add: add_chunk_prep_simps)

lemma chunk_capacity_prep: "chunk_capacity (add_chunk_prep g c w) g c = chunk_capacity w g c"
  by (simp add: chunk_capacity_def add_chunk_prep_simps)

lemmas prep_facts = add_chunk_prep_simps add_chunk_prep_seg chunk_capacity_prep

lemma add_chunk_free:
  assumes inv: "arch_chunks w g full free" and c: "c \<noteq> 0" "c \<notin> set (full @ free)"
    and links: "c_next (chunks w c) = 0" "c_prev (chunks w c) = 0"
    and room: "c_count (chunks w c) < chunk_capacity w g c"
  shows "arch_chunks (add_chunk g c w) g full (free @ [c])"
proof -
  let ?w3 = "add_chunk_prep g c w" and ?xs = "full @ free"
  have l: "dseg (chunks ?w3) 0 (firstChunk (archs w g)) ?xs (lastChunk (archs w g)) 0" "distinct ?xs"
    and ff: "firstFree (archs w g) = (case free of [] \<Rightarrow> 0 | f # _ \<Rightarrow> f)"
    using inv by (simp_all add: arch_chunks_def arch_list_def prep_facts)
  show ?thesis
  proof (cases "?xs = []")
    case True
    then have "firstChunk (archs w g) = 0" using l by auto
    then show ?thesis
      using True c links room by (simp add: add_chunk_alt Let_def arch_chunks_def arch_list_def prep_facts)
  next
    case False
    let ?t = "lastChunk (archs w g)"
    have nz: "firstChunk (archs w g) \<noteq> 0"
      using dseg_last [OF l(1) False] dseg_nonzero [OF l(1)] False by (metis hd_in_set)
    have fnz: "free \<noteq> [] \<Longrightarrow> hd free \<noteq> 0" using dseg_nonzero [OF l(1), of "hd free"] by simp
    have "dseg (chunks (chunk_link ?t c ?w3)) 0 (firstChunk (archs w g)) (?xs @ [c]) c 0"
      by (rule link_tail [OF l(1) False]) (use l c in auto)
    then show ?thesis
      using nz c room ff fnz l(2)
      by (cases free) (auto simp: add_chunk_alt Let_def arch_chunks_def arch_list_def prep_facts)
  qed
qed

lemma add_chunk_full:
  assumes inv: "arch_chunks w g (h # full) free" and c: "c \<noteq> 0" "c \<notin> set (h # full @ free)"
    and many: "full @ free \<noteq> []"
    and room: "\<not> c_count (chunks w c) < chunk_capacity w g c"
  shows "arch_chunks (add_chunk g c w) g (h # c # full) free"
proof -
  let ?w3 = "add_chunk_prep g c w"
  have l: "dseg (chunks ?w3) 0 h (h # (full @ free)) (lastChunk (archs w g)) 0" "distinct (h # full @ free)"
    and h: "firstChunk (archs w g) = h" "h \<noteq> 0" and ff: "firstFree (archs w g) = (case free of [] \<Rightarrow> 0 | f # _ \<Rightarrow> f)"
    using inv by (auto simp: arch_chunks_def arch_list_def prep_facts)
  have "dseg (chunks (chunk_link h c ?w3)) 0 h (h # c # (full @ free)) (lastChunk (archs w g)) 0"
    using link_second [OF l(1) _ c(1)] l(2) c many by auto
  then show ?thesis
    using c room ff h l(2) by (simp add: add_chunk_alt Let_def arch_chunks_def arch_list_def prep_facts)
qed

lemma add_chunk_first_full:
  assumes inv: "arch_chunks w g [] []" and c: "c \<noteq> 0"
    and links: "c_next (chunks w c) = 0" "c_prev (chunks w c) = 0"
    and room: "\<not> c_count (chunks w c) < chunk_capacity w g c"
  shows "arch_chunks (add_chunk g c w) g [c] []"
  using assms by (auto simp: add_chunk_alt Let_def arch_chunks_def arch_list_def prep_facts)

text \<open>A full chunk added to an archetype with one chunk: \<open>lastChunk\<close> stays at the old chunk.\<close>

lemma add_chunk_stale_last:
  assumes "arch_list w g [h]" "c \<noteq> 0" "c \<noteq> h" "\<not> c_count (chunks w c) < chunk_capacity w g c"
  shows "lastChunk (archs (add_chunk g c w) g) = h"
    "c_next (chunks (add_chunk g c w) h) = c" "c_prev (chunks (add_chunk g c w) c) = h"
  using assms by (auto simp: add_chunk_alt Let_def arch_list_def prep_facts chunk_link_def)

section \<open>Properties\<close>

text \<open>C14. An archetype's chunk list through \<open>mark_free\<close> and \<open>unmark_free\<close>.  A full chunk that
  is marked free moves to the end of the list and becomes the last free chunk; a free chunk
  that is unmarked becomes a full one, at the end of the full chunks if it is the first free
  chunk and at the front of the list otherwise.  In both cases the list stays doubly linked
  without loops, full chunks before free ones, and nothing but links changes.\<close>

theorem free_list_moves:
  assumes "arch_chunks w g full free"
  shows "(\<forall>ys c zs. full = ys @ c # zs \<longrightarrow> arch_chunks (mark_free g c w) g (ys @ zs) (free @ [c]))
    \<and> (\<forall>ys c zs. free = ys @ c # zs \<longrightarrow>
         arch_chunks (unmark_free g c w) g (if ys = [] then full @ [c] else c # full) (ys @ zs))
    \<and> (\<forall>c. list_frame w (mark_free g c w) \<and> list_frame w (unmark_free g c w))"
  using assms mark_free_chunks unmark_free_chunks list_frame_mark_free [OF list_frame_refl]
    list_frame_unmark_free [OF list_frame_refl]
  by blast


text \<open>A memory with an archetype of capacity 4 at address 9 and two empty chunks.\<close>

definition two_chunks :: world where
  "two_chunks = upd_arch 9 (\<lambda>a. a\<lparr>chunkCapacity := (\<lambda>_. 4)\<rparr>)
     (upd_chunk 2 (\<lambda>c. c\<lparr>c_count := 4\<rparr>) (blank_memory context_init))"

lemma two_chunks_simps:
  "arch_chunks two_chunks 9 [] []" "chunk_capacity two_chunks 9 c = 4"
  "c_count (chunks two_chunks c) = (if c = 2 then 4 else 0)"
  "c_next (chunks two_chunks c) = 0" "c_prev (chunks two_chunks c) = 0"
  by (simp_all add: two_chunks_def blank_memory_def arch_chunks_def arch_list_def zero_chunk_def
      zero_archetype_def chunk_capacity_def)


theorem free_list_moves_witness:
  "arch_chunks (mark_free 9 2 (add_chunk 9 2 two_chunks)) 9 [] [2]"
proof -
  have "arch_chunks (add_chunk 9 2 two_chunks) 9 [2] []"
    using add_chunk_first_full [OF two_chunks_simps(1), of 2] by (simp add: two_chunks_simps)
  from free_list_moves [OF this] show ?thesis by force
qed

end
