(* ===== verification/Layout.thy ===== *)
theory Layout
  imports Chunk_List "HOL-Library.List_Lexorder"
begin

text \<open>
  \<open>world::construct_archetype\<close>: how an archetype's type list is split into pods, buffers,
  managed components and tags, its flags and sizes, and the layout of its chunks.  For each
  of the three chunk sizes the columns of the components are placed one after the other in
  the order of the components' GUIDs, each aligned, behind the array of entities.  The
  lemmas show that the columns are aligned, pairwise disjoint and behind the entities, and
  when they end before the timestamps at the end of the chunk.
\<close>

section \<open>Definitions\<close>

text \<open>\<open>sizeof(chunk)\<close>: three pointers, the 32-bit count and the bin.\<close>

definition sizeof_chunk :: nat where "sizeof_chunk = 32"
definition sizeof_entity :: nat where "sizeof_entity = 4"

definition first_tag :: "type_index list \<Rightarrow> nat" where
  "first_tag ts = length (takeWhile (\<lambda>t. \<not> is_tag t) ts)"
definition first_managed :: "type_index list \<Rightarrow> nat" where
  "first_managed ts = length (takeWhile (\<lambda>t. \<not> is_managed t) (take (first_tag ts) ts))"
definition first_buffer :: "type_index list \<Rightarrow> nat" where
  "first_buffer ts = length (takeWhile (\<lambda>t. \<not> is_buffer t) (take (first_managed ts) ts))"

definition entity_size :: "dots_context \<Rightarrow> type_index list \<Rightarrow> nat" where
  "entity_size ctx ts =
     fold (\<lambda>t e. u16 (e + r_size (infos ctx ! ti_index t))) (take (first_tag ts) ts) sizeof_entity"

text \<open>The order of the columns: \<open>std::sort\<close> of the component numbers by GUID bytes.\<close>

definition stable_order :: "dots_context \<Rightarrow> type_index list \<Rightarrow> nat list" where
  "stable_order ctx ts =
     sort_key (\<lambda>i. guid_bytes (r_GUID (infos ctx ! ti_index (ts ! i)))) [0..<first_tag ts]"

definition bin_capacity :: "alloc_type \<Rightarrow> nat \<Rightarrow> nat \<Rightarrow> nat" where
  "bin_capacity ct ft esz =
     sub32 (sub32 (bin_size ct) sizeof_chunk) (4 * ft) div esz"

text \<open>One turn of the placement loop; the state is the running offset and the offsets.\<close>

definition place_column :: "(nat \<Rightarrow> nat) \<Rightarrow> (nat \<Rightarrow> nat) \<Rightarrow> nat \<Rightarrow> nat \<Rightarrow> nat \<times> (nat \<Rightarrow> nat) \<Rightarrow> nat \<times> (nat \<Rightarrow> nat)" where
  "place_column algn szs cap k = (\<lambda>(offset, offs).
     let o1 = u32 (algn k * ((offset + algn k - 1) div algn k))
     in (u32 (o1 + u32 (szs k * cap)), offs(k := o1)))"

definition column_offsets ::
  "(nat \<Rightarrow> nat) \<Rightarrow> (nat \<Rightarrow> nat) \<Rightarrow> nat list \<Rightarrow> nat \<Rightarrow> (nat \<Rightarrow> nat) \<Rightarrow> nat \<times> (nat \<Rightarrow> nat)" where
  "column_offsets algn szs order cap offs0 =
     fold (place_column algn szs cap) order (u32 (sizeof_entity * cap), offs0)"

definition construct_archetype :: "entity_type \<Rightarrow> world \<Rightarrow> ptr \<times> world" where
  "construct_archetype key w =
     (let g = next_ptr w; ctx = w_ctx w; ts = et_types key; ft = first_tag ts;
          info = (\<lambda>i. infos ctx ! ti_index (ts ! i));
          esz = entity_size ctx ts; order = stable_order ctx ts;
          cap = (\<lambda>ct. bin_capacity ct ft esz);
          proto = \<lparr>firstChunk = 0, lastChunk = 0, firstFree = 0, componentCount = length ts,
            firstTag = ft, firstManaged = first_managed ts, metaCount = length (et_metas key),
            firstBuffer = first_buffer ts, chunkCount = 0, chunkCapacity = cap,
            g_timestamp = timestamp w, g_size = 0, entitySize = esz, g_types = ts,
            offsets = (\<lambda>ct. if cap ct = 0 then offsets (archs w g) ct
               else snd (column_offsets (\<lambda>i. r_alignment (info i)) (\<lambda>i. u16 (r_size (info i))) order (cap ct)
                           (offsets (archs w g) ct))),
            sizes = map (\<lambda>i. u16 (r_size (info i))) [0..<ft], metatypes = et_metas key,
            managedFuncs = map (\<lambda>i. r_vtable (info i)) [first_managed ts..<ft],
            disabled = list_ex (\<lambda>t. t = disable_id ctx) ts,
            cleaning = list_ex (\<lambda>t. t \<noteq> disable_id ctx \<and> t = cleanup_id ctx) ts,
            copying = list_ex (\<lambda>t. has_flag (tracks ctx ! ti_index t) Copying) ts,
            withMask = list_ex (\<lambda>t. t \<noteq> disable_id ctx \<and> t \<noteq> cleanup_id ctx \<and> t = mask_id ctx) ts,
            withTracked = list_ex (\<lambda>t. has_flag (tracks ctx ! ti_index t) NeedCC) ts,
            zerosize = (esz = sizeof_entity)\<rparr>
      in (g, (upd_arch g (\<lambda>_. proto) w)\<lparr>next_ptr := Suc g\<rparr>))"

text \<open>\<open>archetype::get_size\<close>: the bytes behind the struct; a function table entry has three
  pointers.\<close>

definition arch_get_size :: "archetype \<Rightarrow> nat" where
  "arch_get_size g = 4 * componentCount g + 4 * firstTag g * 3 + 4 * firstTag g
     + sizeof_entity * metaCount g + 24 * (firstTag g - firstManaged g)"

text \<open>\<open>archetype::timestamps(c)\<close>, as an offset from \<open>data()\<close>, and the address of entity \<open>i\<close>'s
  value of column \<open>k\<close>.\<close>

definition timestamps_offset :: "archetype \<Rightarrow> alloc_type \<Rightarrow> nat" where
  "timestamps_offset g ct = bin_size ct - sizeof_chunk - 4 * firstTag g"

definition col_addr :: "archetype \<Rightarrow> alloc_type \<Rightarrow> nat \<Rightarrow> nat \<Rightarrow> nat" where
  "col_addr g ct k i = offsets g ct k + sizes g ! k * i"

section \<open>The split of a sorted type list\<close>

text \<open>The kind is the two high bits, and the kinds are numbered pod, buffer, managed, tag:
  in a sorted list the tests of the loops are monotone, so the prefixes are the kinds.\<close>

lemma is_kind_iff:
  "is_pod t \<longleftrightarrow> ti_type t = 0" "is_buffer t \<longleftrightarrow> ti_type t = 1"
  "is_managed t \<longleftrightarrow> ti_type t = 2" "is_tag t \<longleftrightarrow> ti_type t = 3"
  by (simp_all add: is_pod_def is_buffer_def is_managed_def is_tag_def)

lemma ti_type_less: "ti_type t < 4"
  by (simp add: ti_type_def)

lemma takeWhile_kind:
  fixes f :: "'a \<Rightarrow> nat"
  assumes "sorted (map f xs)" "\<forall>x \<in> set xs. f x \<le> k" "i < length xs"
  shows "i < length (takeWhile (\<lambda>x. f x \<noteq> k) xs) \<longleftrightarrow> f (xs ! i) < k"
  using assms
proof (induction xs arbitrary: i)
  case (Cons x xs)
  show ?case
  proof (cases i)
    case 0
    then show ?thesis using Cons.prems by auto
  next
    case (Suc j)
    then have le: "f x \<le> f (xs ! j)" and j: "j < length xs" using Cons.prems by simp_all
    show ?thesis
    proof (cases "f x = k")
      case True
      then show ?thesis using Suc le by (simp add: leD)
    next
      case False
      then show ?thesis using Cons Suc j by simp
    qed
  qed
qed simp

lemma sorted_take_map: "sorted (map f xs) \<Longrightarrow> sorted (map f (take n xs))"
  by (metis sorted_wrt_take take_map)

lemma takeWhile_kind_prefix:
  fixes f :: "'a \<Rightarrow> nat"
  assumes "sorted (map f xs)" "n \<le> length xs" "\<And>j. j < n \<Longrightarrow> f (xs ! j) < Suc k" "j < n"
  shows "j < length (takeWhile (\<lambda>x. f x \<noteq> k) (take n xs)) \<longleftrightarrow> f (xs ! j) < k"
proof -
  have "\<forall>x \<in> set (take n xs). f x \<le> k"
    using assms(2,3) by (auto simp: in_set_conv_nth less_Suc_eq_le)
  from takeWhile_kind [OF sorted_take_map [OF assms(1)] this, of j] assms(2,4) show ?thesis by simp
qed

lemma split_le: "first_buffer ts \<le> first_managed ts" "first_managed ts \<le> first_tag ts" "first_tag ts \<le> length ts"
proof -
  show "first_tag ts \<le> length ts" by (simp add: first_tag_def length_takeWhile_le)
  then show m: "first_managed ts \<le> first_tag ts"
    using length_takeWhile_le [of "\<lambda>t. \<not> is_managed t" "take (first_tag ts) ts"]
    by (simp add: first_managed_def min_def split: if_splits)
  show "first_buffer ts \<le> first_managed ts"
    using length_takeWhile_le [of "\<lambda>t. \<not> is_buffer t" "take (first_managed ts) ts"]
    by (simp add: first_buffer_def min_def split: if_splits)
qed

lemma sorted_kinds:
  assumes "sorted ts" "\<forall>t \<in> set ts. t < 2 ^ 32"
  shows "sorted (map ti_type ts)"
  using assms by (auto simp: sorted_iff_nth_mono intro!: ti_type_mono)

lemma kind_split:
  assumes s: "sorted ts" and b: "\<forall>t \<in> set ts. t < 2 ^ 32" and i: "i < length ts"
  shows "ti_type (ts ! i) =
    (if i < first_buffer ts then 0 else if i < first_managed ts then 1 else if i < first_tag ts then 2 else 3)"
proof -
  note ks = sorted_kinds [OF s b]
  have t: "j < first_tag ts \<longleftrightarrow> ti_type (ts ! j) < 3" if "j < length ts" for j
    using takeWhile_kind_prefix [OF ks order.refl, of 3 j] ti_type_less that
    by (simp add: first_tag_def is_kind_iff)
  have t3: "ti_type (ts ! j) < Suc 2" if "j < first_tag ts" for j
    using t [of j] that split_le(3) [of ts] by simp
  have m: "j < first_managed ts \<longleftrightarrow> ti_type (ts ! j) < 2" if "j < first_tag ts" for j
    using takeWhile_kind_prefix [OF ks split_le(3) t3 that] by (simp add: first_managed_def is_kind_iff)
  have m2: "ti_type (ts ! j) < Suc 1" if "j < first_managed ts" for j
    using m [of j] that split_le(2) [of ts] by simp
  have u: "j < first_buffer ts \<longleftrightarrow> ti_type (ts ! j) < 1" if "j < first_managed ts" for j
    using takeWhile_kind_prefix [OF ks order.trans [OF split_le(2,3)] m2 that]
    by (simp add: first_buffer_def is_kind_iff)
  show ?thesis
    using t [OF i] m [of i] u [of i] i split_le [of ts] ti_type_less [of "ts ! i"]
    by (auto split: if_splits)
qed

section \<open>The columns\<close>

definition col_end :: "(nat \<Rightarrow> nat) \<Rightarrow> nat \<Rightarrow> (nat \<Rightarrow> nat) \<Rightarrow> nat \<Rightarrow> nat" where
  "col_end szs cap offs k = offs k + szs k * cap"

definition columns_ok :: "(nat \<Rightarrow> nat) \<Rightarrow> (nat \<Rightarrow> nat) \<Rightarrow> nat \<Rightarrow> nat \<Rightarrow> nat \<Rightarrow> nat set \<Rightarrow> (nat \<Rightarrow> nat) \<Rightarrow> bool" where
  "columns_ok algn szs cap lo hi K offs \<longleftrightarrow>
     (\<forall>k \<in> K. algn k dvd offs k \<and> lo \<le> offs k \<and> col_end szs cap offs k \<le> hi)
   \<and> (\<forall>k \<in> K. \<forall>l \<in> K. k \<noteq> l \<longrightarrow> col_end szs cap offs k \<le> offs l \<or> col_end szs cap offs l \<le> offs k)"

lemma round_up:
  fixes a x :: nat
  assumes "0 < a"
  shows "x \<le> a * ((x + a - 1) div a)" "a * ((x + a - 1) div a) \<le> x + (a - 1)"
proof -
  have "a * ((x + a - 1) div a) + (x + a - 1) mod a = x + a - 1"
    by simp
  moreover have "(x + a - 1) mod a < a" using assms by simp
  ultimately show "x \<le> a * ((x + a - 1) div a)" "a * ((x + a - 1) div a) \<le> x + (a - 1)"
    using assms by linarith+
qed

lemma place_columns:
  assumes "distinct order" "\<forall>k \<in> set order. 0 < algn k"
    and "start + (\<Sum>k\<leftarrow>order. szs k * cap + (algn k - 1)) < 2 ^ 32"
    and "fold (place_column algn szs cap) order (start, offs0) = (fin, offs)"
  shows "columns_ok algn szs cap start fin (set order) offs \<and> start \<le> fin
    \<and> fin \<le> start + (\<Sum>k\<leftarrow>order. szs k * cap + (algn k - 1)) \<and> (\<forall>k. k \<notin> set order \<longrightarrow> offs k = offs0 k)"
  using assms
proof (induction order arbitrary: start offs0)
  case Nil
  then show ?case by (simp add: columns_ok_def)
next
  case (Cons k ks)
  let ?o = "algn k * ((start + algn k - 1) div algn k)"
  have o: "start \<le> ?o" "?o \<le> start + (algn k - 1)"
    using round_up [of "algn k" start] Cons.prems(2) by simp_all
  have w: "u32 ?o = ?o" "u32 (szs k * cap) = szs k * cap" "u32 (?o + szs k * cap) = ?o + szs k * cap"
    using Cons.prems(3) o by (simp_all add: u32_def)
  have rest: "?o + szs k * cap + (\<Sum>k\<leftarrow>ks. szs k * cap + (algn k - 1)) < 2 ^ 32"
    using Cons.prems(3) o(2) unfolding list.map sum_list.Cons by linarith
  have "place_column algn szs cap k (start, offs0) = (?o + szs k * cap, offs0(k := ?o))"
    by (simp only: place_column_def Let_def split w)
  then have step: "fold (place_column algn szs cap) ks (?o + szs k * cap, offs0(k := ?o)) = (fin, offs)"
    using Cons.prems(4) by simp
  have IH: "columns_ok algn szs cap (?o + szs k * cap) fin (set ks) offs \<and> ?o + szs k * cap \<le> fin
    \<and> fin \<le> ?o + szs k * cap + (\<Sum>k\<leftarrow>ks. szs k * cap + (algn k - 1))
    \<and> (\<forall>l. l \<notin> set ks \<longrightarrow> offs l = (offs0(k := ?o)) l)"
    by (rule Cons.IH [OF _ _ rest step]) (use Cons.prems in auto)
  then have k: "offs k = ?o" using Cons.prems(1) by auto
  show ?case
    using IH k o Cons.prems(1) by (auto simp: columns_ok_def col_end_def)
qed

lemma stable_order_set: "set (stable_order ctx ts) = {..<first_tag ts}" "distinct (stable_order ctx ts)"
  by (auto simp: stable_order_def)

lemma sum_stable_order: "(\<Sum>k\<leftarrow>stable_order ctx ts. f k) = (\<Sum>k<first_tag ts. f k :: nat)"
  using sum_list_distinct_conv_sum_set [OF stable_order_set(2), of f]
  by (simp add: stable_order_set)

lemma entity_size_fold:
  "c + (\<Sum>t\<leftarrow>xs. f t) < 2 ^ 16 \<Longrightarrow> fold (\<lambda>t e. u16 (e + f t)) xs c = c + (\<Sum>t\<leftarrow>xs. f t)"
  by (induction xs arbitrary: c) (simp_all add: u16_def add.assoc)

text \<open>The bytes of one entity over all columns, and the padding the alignment can ask for.\<close>

definition row_bytes :: "dots_context \<Rightarrow> type_index list \<Rightarrow> nat" where
  "row_bytes ctx ts = (\<Sum>k<first_tag ts. r_size (infos ctx ! ti_index (ts ! k)))"

definition max_padding :: "dots_context \<Rightarrow> type_index list \<Rightarrow> nat" where
  "max_padding ctx ts = (\<Sum>k<first_tag ts. r_alignment (infos ctx ! ti_index (ts ! k)) - 1)"

lemma entity_size_eq:
  assumes "4 + row_bytes ctx ts < 2 ^ 16"
  shows "entity_size ctx ts = 4 + row_bytes ctx ts"
proof -
  have "(\<Sum>t\<leftarrow>take (first_tag ts) ts. r_size (infos ctx ! ti_index t)) = row_bytes ctx ts"
    using split_le(3) [of ts] by (simp add: row_bytes_def sum_list_sum_nth atLeast0LessThan)
  then show ?thesis
    using entity_size_fold [of sizeof_entity "\<lambda>t. r_size (infos ctx ! ti_index t)" "take (first_tag ts) ts"] assms
    by (simp add: entity_size_def sizeof_entity_def)
qed

lemma bin_size_cases: "bin_size ct = 1024 \<or> bin_size ct = 65536 \<or> bin_size ct = 1048576"
  by (cases ct) (simp_all add: kSmallBinSize_def kFastBinSize_def kLargeBinSize_def)

lemma bin_capacity_eq:
  assumes "sizeof_chunk + 4 * ft \<le> bin_size ct"
  shows "bin_capacity ct ft esz = (bin_size ct - sizeof_chunk - 4 * ft) div esz"
proof -
  have b: "bin_size ct \<le> 1048576" using bin_size_cases [of ct] by auto
  have "sub32 (bin_size ct) sizeof_chunk = bin_size ct - sizeof_chunk"
    by (rule sub32_small) (use b assms in auto)
  moreover have "sub32 (bin_size ct - sizeof_chunk) (4 * ft) = bin_size ct - sizeof_chunk - 4 * ft"
    by (rule sub32_small) (use b assms in auto)
  ultimately show ?thesis by (simp add: bin_capacity_def)
qed

text \<open>What one call of \<open>construct_archetype\<close> computes for one chunk size.\<close>

lemma construct_archetype_layout:
  fixes key w ct
  defines "ctx \<equiv> w_ctx w" and "ts \<equiv> et_types key" and "a \<equiv> archs (snd (construct_archetype key w)) (fst (construct_archetype key w))"
  assumes row: "4 + row_bytes ctx ts < 2 ^ 16"
    and algn: "\<forall>k < first_tag ts. 0 < r_alignment (infos ctx ! ti_index (ts ! k))"
    and head: "sizeof_chunk + 4 * first_tag ts \<le> bin_size ct"
    and pad: "max_padding ctx ts \<le> 2 ^ 20"
    and nonempty: "chunkCapacity a ct \<noteq> 0"
  shows "\<exists>fin. columns_ok (\<lambda>k. r_alignment (infos ctx ! ti_index (ts ! k))) (\<lambda>k. sizes a ! k)
           (chunkCapacity a ct) (4 * chunkCapacity a ct) fin {..<firstTag a} (offsets a ct)
         \<and> fin \<le> chunkCapacity a ct * entitySize a + max_padding ctx ts
         \<and> chunkCapacity a ct * entitySize a \<le> timestamps_offset a ct"
proof -
  let ?al = "\<lambda>k. r_alignment (infos ctx ! ti_index (ts ! k))"
  let ?sz = "\<lambda>k. r_size (infos ctx ! ti_index (ts ! k))"
  let ?cap = "bin_capacity ct (first_tag ts) (entity_size ctx ts)"
  let ?offs0 = "offsets (archs w (next_ptr w)) ct"
  have size_small: "?sz k < 2 ^ 16" if "k < first_tag ts" for k
  proof -
    have "?sz k \<le> row_bytes ctx ts"
      unfolding row_bytes_def using that by (intro member_le_sum) auto
    then show ?thesis using row by simp
  qed
  have esz: "entity_size ctx ts = 4 + row_bytes ctx ts" by (rule entity_size_eq [OF row])
  have A: "chunkCapacity a ct = ?cap" "firstTag a = first_tag ts" "entitySize a = entity_size ctx ts"
    "k < first_tag ts \<Longrightarrow> sizes a ! k = ?sz k" for k
    using size_small [of k]
    by (simp_all add: a_def construct_archetype_def Let_def ctx_def ts_def u16_small)
  have offs: "offsets a ct = snd (column_offsets ?al (\<lambda>k. u16 (?sz k)) (stable_order ctx ts) ?cap ?offs0)"
    using nonempty unfolding A
    by (simp add: a_def construct_archetype_def Let_def ctx_def ts_def)
  have b: "bin_size ct \<le> 1048576" using bin_size_cases [of ct] by auto
  have cap: "?cap * entity_size ctx ts \<le> bin_size ct - sizeof_chunk - 4 * first_tag ts"
    by (simp add: bin_capacity_eq [OF head])
  have sum: "(\<Sum>k\<leftarrow>stable_order ctx ts. u16 (?sz k) * ?cap + (?al k - 1)) = ?cap * row_bytes ctx ts + max_padding ctx ts"
    unfolding sum_stable_order row_bytes_def max_padding_def
    using size_small by (simp add: sum.distrib u16_small sum_distrib_left mult.commute)
  have small: "4 * ?cap + (?cap * row_bytes ctx ts + max_padding ctx ts) < 2 ^ 32"
    using cap pad b unfolding esz by (simp add: algebra_simps)
  obtain fin offs' where fo: "fold (place_column ?al (\<lambda>k. u16 (?sz k)) ?cap) (stable_order ctx ts) (4 * ?cap, ?offs0) = (fin, offs')"
    by fastforce
  have u: "u32 (sizeof_entity * ?cap) = 4 * ?cap" using small by (simp add: u32_def sizeof_entity_def)
  from place_columns [OF stable_order_set(2) _ _ fo, unfolded sum, unfolded stable_order_set] algn small
  have ok: "columns_ok ?al (\<lambda>k. u16 (?sz k)) ?cap (4 * ?cap) fin {..<first_tag ts} offs'"
    and fin: "fin \<le> 4 * ?cap + (?cap * row_bytes ctx ts + max_padding ctx ts)"
    by simp_all
  have "offsets a ct = offs'" using offs by (simp add: column_offsets_def u fo)
  moreover have "columns_ok ?al (\<lambda>k. sizes a ! k) ?cap (4 * ?cap) fin {..<first_tag ts} offs'"
    using ok size_small A(4) by (simp add: columns_ok_def col_end_def u16_small)
  ultimately show ?thesis
    using fin cap unfolding A esz timestamps_offset_def by (auto simp: algebra_simps)
qed

section \<open>Properties\<close>


text \<open>C35. The split of the component list: in a sorted key the components before
  \<open>firstBuffer\<close> are pods, then come the buffers up to \<open>firstManaged\<close>, the managed components up
  to \<open>firstTag\<close>, and the tags.\<close>

theorem archetype_kinds:
  assumes "sorted (et_types key)" "\<forall>t \<in> set (et_types key). t < 2 ^ 32" "i < length (et_types key)"
    and "construct_archetype key w = (g, w')" "a = archs w' g" "t = et_types key ! i"
  shows "(is_pod t \<longleftrightarrow> i < firstBuffer a) \<and> (is_buffer t \<longleftrightarrow> firstBuffer a \<le> i \<and> i < firstManaged a)
    \<and> (is_managed t \<longleftrightarrow> firstManaged a \<le> i \<and> i < firstTag a) \<and> (is_tag t \<longleftrightarrow> firstTag a \<le> i)
    \<and> componentCount a = length (et_types key) \<and> length (sizes a) = firstTag a"
proof -
  have a: "firstBuffer a = first_buffer (et_types key)" "firstManaged a = first_managed (et_types key)"
    "firstTag a = first_tag (et_types key)" "componentCount a = length (et_types key)"
    "length (sizes a) = firstTag a"
    using assms(4,5) by (auto simp: construct_archetype_def Let_def)
  note k = kind_split [OF assms(1-3)] split_le [of "et_types key"]
  then show ?thesis by (auto simp: is_kind_iff a assms(6))
qed

text \<open>A context with an 8-byte component of alignment 8 and a 12-byte one of alignment 4: in the
  small chunks the padding pushes the last column four bytes into the timestamps.\<close>

definition padded_reg :: "nat \<Rightarrow> nat \<Rightarrow> nat \<Rightarrow> type_registry" where
  "padded_reg n sz al = \<lparr>r_GUID = builtin_guid n, r_size = sz, r_elementSize = 0, r_alignment = al,
     r_entityRefs = 0, r_entityRefCount = 0, r_name = [], r_vtable = no_vtable\<rparr>"

definition padded_ctx :: dots_context where
  "padded_ctx = context_init\<lparr>infos := infos context_init @ [padded_reg 8 8 8, padded_reg 9 12 4],
     tracks := tracks context_init @ [0, 0]\<rparr>"

definition padded_key :: entity_type where
  "padded_key = \<lparr>et_types = [5, 6], et_metas = []\<rparr>"

lemma length_context_init: "length (infos context_init) = 5"
  by (simp add: registry_eval)

lemma padded_ctx_infos:
  "infos padded_ctx ! 5 = padded_reg 8 8 8" "infos padded_ctx ! 6 = padded_reg 9 12 4"
  by (simp_all add: padded_ctx_def nth_append length_context_init)

lemma builtin_bytes: "guid_bytes (builtin_guid n) = [0, 0, 0, 0, 0, 0, 0, 0, 0, 0, 0, 0, 0, 0, 0, n]"
proof -
  have "le_bytes k 0 = replicate k 0" for k by (induction k) simp_all
  then show ?thesis by (simp add: guid_bytes_def builtin_guid_def numeral_eq_Suc)
qed

lemma padded_first_tag: "first_tag [5, 6] = 2"
  by (simp add: first_tag_def is_kind_iff ti_type_def)

lemma padded_layout:
  assumes "construct_archetype padded_key (blank_memory padded_ctx) = (g, w')" "a = archs w' g"
  shows "chunkCapacity a smallbin = 41" "firstTag a = 2" "entitySize a = 24" "sizes a = [8, 12]"
    "offsets a smallbin 0 = 168" "offsets a smallbin 1 = 496" "timestamps_offset a smallbin = 984"
proof -
  have o: "stable_order padded_ctx [5, 6] = [0, 1]"
    by (simp add: stable_order_def padded_first_tag upt_rec ti_index_def padded_ctx_infos padded_reg_def builtin_bytes)
  have e: "entity_size padded_ctx [5, 6] = 24"
    by (simp add: entity_size_def padded_first_tag ti_index_def padded_ctx_infos padded_reg_def u16_def sizeof_entity_def)
  have c: "bin_capacity smallbin 2 24 = 41"
    by (simp add: bin_capacity_eq sizeof_chunk_def kSmallBinSize_def)
  have ctx: "w_ctx (blank_memory padded_ctx) = padded_ctx" by (simp add: blank_memory_def)
  show "chunkCapacity a smallbin = 41" "firstTag a = 2" "entitySize a = 24" "sizes a = [8, 12]"
    "offsets a smallbin 0 = 168" "offsets a smallbin 1 = 496" "timestamps_offset a smallbin = 984"
    using assms
    by (auto simp: construct_archetype_def Let_def ctx padded_key_def padded_first_tag e o c upt_rec ti_index_def
        padded_ctx_infos padded_reg_def column_offsets_def place_column_def u16_def u32_def sizeof_entity_def
        timestamps_offset_def sizeof_chunk_def kSmallBinSize_def)
qed

lemma padded_fields [simp]:
  "w_ctx (blank_memory ctx) = ctx" "et_types padded_key = [5, 6]" "ti_index 5 = 5" "ti_index 6 = 6"
  by (simp_all add: blank_memory_def padded_key_def ti_index_def)

lemma lessThan_2: "{..<2::nat} = {0, 1}"
  by auto

lemma padded_numbers:
  "row_bytes padded_ctx [5, 6] = 20" "max_padding padded_ctx [5, 6] = 10"
  "\<forall>k < first_tag [5, 6]. 0 < r_alignment (infos padded_ctx ! ti_index ([5, 6] ! k))"
  by (auto simp: row_bytes_def max_padding_def padded_first_tag lessThan_2 padded_ctx_infos padded_reg_def
      less_2_cases_iff)


text \<open>The capacity does not count the padding: the last column of the small chunks ends four
  bytes inside the timestamps.\<close>

theorem padding_overruns_timestamps:
  assumes "construct_archetype padded_key (blank_memory padded_ctx) = (g, w')"
  shows "col_addr (archs w' g) smallbin 1 (chunkCapacity (archs w' g) smallbin)
    = timestamps_offset (archs w' g) smallbin + 4"
  using padded_layout [OF assms refl] by (simp add: col_addr_def)

theorem archetype_kinds_witness:
  "\<exists>g w'. construct_archetype padded_key (blank_memory padded_ctx) = (g, w')
     \<and> is_pod 6 \<and> firstBuffer (archs w' g) > 1 \<and> componentCount (archs w' g) = 2"
proof -
  obtain g w' where c: "construct_archetype padded_key (blank_memory padded_ctx) = (g, w')" by fastforce
  from archetype_kinds [OF _ _ _ c refl refl, of 1]
  show ?thesis using c by (force simp: is_kind_iff ti_type_def)
qed

end
