(* ===== verification/Chunk_Data.thy ===== *)
theory Chunk_Data
  imports Layout
begin

text \<open>
  The operations of \<open>chunk\<close> on the component bytes (\<open>Dots/Database.cpp\<close>): \<open>construct\<close>,
  \<open>destruct\<close>, the two \<open>move\<close>s, \<open>duplicate\<close> with \<open>memdup\<close>, \<open>patch\<close>, \<open>cast\<close> and \<open>clone\<close>.

  They act on the bytes of one or two chunks and on the blocks of the buffers.  Functions of
  user components come from the archetype's \<open>managedFuncs\<close>; the \<open>patch\<close> functions and
  the patcher are arguments.  An entity index is cut to 16 bits where the source passes it
  as \<open>tsize_t\<close>.  \<open>cast\<close> returns an option: its last phase need not end.
\<close>

section \<open>Bytes of a slice\<close>

text \<open>The bytes of a chunk and the blocks, as one state for the operations on buffers.\<close>

definition on_bytes :: "ptr \<Rightarrow> (bmem \<times> block_heap \<Rightarrow> bmem \<times> block_heap) \<Rightarrow> world \<Rightarrow> world" where
  "on_bytes c f w =
     (let (m, h) = f (c_data (chunks w c), bheap w)
      in upd_chunk c (\<lambda>ch. ch\<lparr>c_data := m\<rparr>) (w\<lparr>bheap := h\<rparr>))"

definition on_mem :: "ptr \<Rightarrow> (bmem \<Rightarrow> bmem) \<Rightarrow> world \<Rightarrow> world" where
  "on_mem c f w = upd_chunk c (\<lambda>ch. ch\<lparr>c_data := f (c_data ch)\<rparr>) w"

definition chunk_arch :: "world \<Rightarrow> ptr \<Rightarrow> archetype" where
  "chunk_arch w c = archs w (c_type (chunks w c))"

definition bytes_of :: "world \<Rightarrow> ptr \<Rightarrow> bmem" where
  "bytes_of w c = c_data (chunks w c)"

text \<open>\<open>c->data() + offsets[k] + sizes[k] * i\<close>.\<close>

definition cell_addr :: "world \<Rightarrow> ptr \<Rightarrow> nat \<Rightarrow> nat \<Rightarrow> nat" where
  "cell_addr w c k i = col_addr (chunk_arch w c) (c_ct (chunks w c)) k i"

text \<open>The functions of a managed component; a missing function does nothing.\<close>

definition vt_of :: "archetype \<Rightarrow> nat \<Rightarrow> component_vtable" where
  "vt_of a t = managedFuncs a ! (t - firstManaged a)"

definition vt_destruct :: "archetype \<Rightarrow> nat \<Rightarrow> nat \<Rightarrow> nat \<Rightarrow> bmem \<Rightarrow> bmem" where
  "vt_destruct a t data count m = (case vt_destructor (vt_of a t) of None \<Rightarrow> m | Some f \<Rightarrow> f m data count)"

definition vt_construct :: "archetype \<Rightarrow> nat \<Rightarrow> nat \<Rightarrow> nat \<Rightarrow> bmem \<Rightarrow> bmem" where
  "vt_construct a t data count m = (case vt_constructor (vt_of a t) of None \<Rightarrow> m | Some f \<Rightarrow> f m data count)"

definition vt_do_copy :: "archetype \<Rightarrow> nat \<Rightarrow> nat \<Rightarrow> bmem \<Rightarrow> nat \<Rightarrow> nat \<Rightarrow> bmem \<Rightarrow> bmem" where
  "vt_do_copy a t d sm s count m = (case vt_copy (vt_of a t) of None \<Rightarrow> m | Some f \<Rightarrow> f m d sm s count)"

text \<open>Placement-new of the buffers of one column: the inline capacity is the rest of the cell.\<close>

definition construct_buffers :: "nat \<Rightarrow> nat \<Rightarrow> nat \<Rightarrow> bmem \<Rightarrow> bmem" where
  "construct_buffers sz data count =
     for_up (\<lambda>j. buffer_ctor (j * sz + data) (u16 (sz + 2 ^ 16 - sizeof_buffer))) 0 count"

definition destruct_buffers :: "nat \<Rightarrow> nat \<Rightarrow> nat \<Rightarrow> bmem \<times> block_heap \<Rightarrow> bmem \<times> block_heap" where
  "destruct_buffers sz data count = for_up (\<lambda>j. buffer_dtor (j * sz + data)) 0 count"

section \<open>construct, destruct, move\<close>

definition chunk_construct :: "chunk_slice \<Rightarrow> world \<Rightarrow> world" where
  "chunk_construct s w =
     (let c = sl_c s; a = chunk_arch w c; n = sl_count s; sz = (\<lambda>i. sizes a ! i);
          at = (\<lambda>i. cell_addr w c i (sl_start s));
          w1 = for_up (\<lambda>i. on_mem c (\<lambda>m. memset m (at i) 0 (sz i * n))) 0 (firstBuffer a) w;
          w2 = for_up (\<lambda>i. on_mem c (construct_buffers (sz i) (at i) n)) (firstBuffer a) (firstManaged a) w1;
          w3 = for_up (\<lambda>i. on_mem c (vt_construct a i (at i) n)) (firstManaged a) (firstTag a) w2;
          maskId = arch_index a (mask_id (w_ctx w))
      in if maskId \<noteq> InvalidIndex then on_mem c (\<lambda>m. memset m (at maskId) (-1) (sz maskId * n)) w3 else w3)"

definition chunk_destruct :: "chunk_slice \<Rightarrow> world \<Rightarrow> world" where
  "chunk_destruct s w =
     (let c = sl_c s; a = chunk_arch w c; n = sl_count s; sz = (\<lambda>i. sizes a ! i);
          at = (\<lambda>i. cell_addr w c i (sl_start s));
          w1 = for_up (\<lambda>i. on_mem c (vt_destruct a i (at i) n)) (firstManaged a) (firstTag a) w
      in for_up (\<lambda>i. on_bytes c (destruct_buffers (sz i) (at i) n)) (firstBuffer a) (firstManaged a) w1)"

definition chunk_move_within :: "chunk_slice \<Rightarrow> nat \<Rightarrow> world \<Rightarrow> world" where
  "chunk_move_within dst srcIndex w =
     (let c = sl_c dst; a = chunk_arch w c in
      for_up (\<lambda>i. on_mem c (\<lambda>m. memcpy m (cell_addr w c i (sl_start dst)) m (cell_addr w c i (u16 srcIndex))
                                  (sl_count dst * sizes a ! i))) 0 (firstTag a) w)"

text \<open>The second \<open>move\<close> takes the offsets of the destination for both chunks.\<close>

definition chunk_move :: "chunk_slice \<Rightarrow> ptr \<Rightarrow> nat \<Rightarrow> world \<Rightarrow> world" where
  "chunk_move dst src srcIndex w =
     (let c = sl_c dst; a = chunk_arch w c in
      for_up (\<lambda>i w'. on_mem c (\<lambda>m. memcpy m (cell_addr w c i (sl_start dst)) (bytes_of w' src)
                                  (cell_addr w c i srcIndex) (sl_count dst * sizes a ! i)) w') 0 (firstTag a) w)"

section \<open>duplicate\<close>

text \<open>\<open>memdup\<close>: one copy, then doubling copies.  Here \<open>n\<close> is the element size.\<close>

function memdup_loop :: "nat \<Rightarrow> nat \<Rightarrow> nat \<Rightarrow> nat \<Rightarrow> bmem \<Rightarrow> bmem" where
  "memdup_loop d n copied count m =
     (if 0 < copied \<and> copied < count then
        (let toCopy = min copied (count - copied)
         in memdup_loop d n (copied + toCopy) count (memcpy m (d + copied * n) m d (toCopy * n)))
      else m)"
  by auto
termination
  by (relation "measure (\<lambda>(d, n, copied, count, m). count - copied)") auto

declare memdup_loop.simps [simp del]

definition memdup :: "nat \<Rightarrow> bmem \<Rightarrow> nat \<Rightarrow> nat \<Rightarrow> nat \<Rightarrow> bmem \<Rightarrow> bmem" where
  "memdup d sm s n count m = memdup_loop d n 1 count (memcpy m d sm s n)"

definition wr_guid :: "nat \<Rightarrow> GUID \<Rightarrow> bmem \<Rightarrow> bmem" where
  "wr_guid a g m = (\<lambda>x. if a \<le> x \<and> x < a + 16 then of_nat (guid_bytes g ! (x - a)) else m x)"

text \<open>Copies the block of every buffer of a freshly duplicated column.\<close>

definition clone_block :: "nat \<Rightarrow> bmem \<times> block_heap \<Rightarrow> bmem \<times> block_heap" where
  "clone_block a = (\<lambda>(m, h).
     if buf_d m a \<noteq> 0 then
       (let (p, h1) = buffer_malloc h
        in (set_buf_d a p m,
            h1\<lparr>blocks := (blocks h1)(p := memcpy (blocks h1 p) 0 (blocks h (buf_d m a)) 0 (buf_size m a))\<rparr>))
     else (m, h))"

text \<open>
  \<open>duplicate\<close>: source and destination cells are both addressed with the source's offsets and
  sizes.  \<open>dstI\<close> is the column of the destination that a source column is compared with;
  \<open>gen j\<close> is the GUID that the generator returns for row \<open>j\<close>.
\<close>

definition chunk_duplicate :: "(nat \<Rightarrow> GUID) \<Rightarrow> chunk_slice \<Rightarrow> ptr \<Rightarrow> nat \<Rightarrow> world \<Rightarrow> world" where
  "chunk_duplicate gen dst src srcIndex w =
     (let c = sl_c dst; n = sl_count dst; a = chunk_arch w src; da = chunk_arch w c;
          ct = c_ct (chunks w src); ctx = w_ctx w;
          d = (\<lambda>i. col_addr a ct i (sl_start dst)); s = (\<lambda>i. col_addr a ct i (u16 srcIndex));
          same = (\<lambda>i dstI. to_valid_type ctx (g_types a ! i) = to_valid_type ctx (g_types da ! dstI));
          (dstI, w1) = for_up (\<lambda>i (dstI, w').
              if \<not> same i dstI then (dstI, w')
              else (dstI + 1,
                    if g_types a ! i = guid_id ctx
                    then on_mem c (for_up (\<lambda>j. wr_guid (d i + 16 * j) (gen j)) 0 n) w'
                    else on_mem c (memdup (d i) (bytes_of w' src) (s i) (sizes a ! i) n) w'))
            0 (firstBuffer a) (0, w);
          w2 = for_up (\<lambda>i. for_up (\<lambda>j w'.
                  on_mem c (vt_do_copy a i (d i + sizes a ! i * j) (bytes_of w' src) (s i) 1) w') 0 n)
                (firstManaged a) (firstTag a) w1;
          (dstI', w3) = for_up (\<lambda>i (dstI, w').
              if \<not> same i dstI then (dstI, w')
              else (dstI + 1,
                    for_up (\<lambda>j. on_bytes c (clone_block (j * sizes a ! i + d i))) 0 n
                      (on_mem c (memdup (d i) (bytes_of w' src) (s i) (sizes a ! i) n) w')))
            (firstBuffer a) (firstManaged a) (dstI, w2)
      in w3)"

section \<open>patch\<close>

record 's patcher =
  p_patch :: "entity \<Rightarrow> 's \<Rightarrow> entity \<times> 's"
  p_move :: "'s \<Rightarrow> 's"
  p_reset :: "'s \<Rightarrow> 's"

type_synonym 's patch_funs = "type_index \<Rightarrow> (bmem \<Rightarrow> nat \<Rightarrow> 's \<Rightarrow> bmem \<times> 's) option"

text \<open>The entity references of one value at \<open>data\<close>, then the component's own patch function.\<close>

definition patch_refs :: "dots_context \<Rightarrow> 's patcher \<Rightarrow> type_registry \<Rightarrow> nat \<Rightarrow> bmem \<times> 's \<Rightarrow> bmem \<times> 's" where
  "patch_refs ctx p t data =
     for_up (\<lambda>k (m, s). let at = data + entityRefs ctx ! (r_entityRefs t + k);
                            (e, s') = p_patch p (rd 4 m at) s
                        in (wr 4 m at e, s')) 0 (r_entityRefCount t)"

definition patch_value :: "dots_context \<Rightarrow> 's patch_funs \<Rightarrow> 's patcher \<Rightarrow> type_index \<Rightarrow> nat \<Rightarrow> bmem \<times> 's \<Rightarrow> bmem \<times> 's" where
  "patch_value ctx pf p ty data ms =
     (let ms1 = patch_refs ctx p (infos ctx ! ti_index ty) data ms
      in (case pf ty of None \<Rightarrow> ms1 | Some f \<Rightarrow> f (fst ms1) data (snd ms1)))"

definition patch_column :: "'s patch_funs \<Rightarrow> 's patcher \<Rightarrow> chunk_slice \<Rightarrow> nat \<Rightarrow> world \<times> 's \<Rightarrow> world \<times> 's" where
  "patch_column pf p s i ws =
     (let (w, st) = ws; c = sl_c s; a = chunk_arch w c; at = cell_addr w c i (sl_start s);
          (m, st1) = for_up (\<lambda>j ms. let (m', s') = patch_value (w_ctx w) pf p (g_types a ! i) (at + sizes a ! i * j) ms
                                    in (m', p_move p s')) 0 (sl_count s) (bytes_of w c, st)
      in (on_mem c (\<lambda>_. m) w, p_reset p st1))"

text \<open>The elements of a buffer are inline or in its block.\<close>

definition patch_buffer :: "'s patch_funs \<Rightarrow> 's patcher \<Rightarrow> type_index \<Rightarrow> ptr \<Rightarrow> nat \<Rightarrow> world \<times> 's \<Rightarrow> world \<times> 's" where
  "patch_buffer pf p ty c b ws =
     (let (w, st) = ws; ctx = w_ctx w; t = infos ctx ! ti_index ty; m = bytes_of w c; d = buf_d m b;
          n = u16 (buf_size m b div r_elementSize t);
          base = (if d = 0 then b + sizeof_buffer else 0);
          mem = (if d = 0 then m else blocks (bheap w) d);
          (mem', st1) = for_up (\<lambda>l. patch_value ctx pf p ty (base + r_elementSize t * l)) 0 n (mem, st)
      in (if d = 0 then on_mem c (\<lambda>_. mem') w
          else w\<lparr>bheap := (bheap w)\<lparr>blocks := (blocks (bheap w))(d := mem')\<rparr>\<rparr>, st1))"

definition patch_buffer_column :: "'s patch_funs \<Rightarrow> 's patcher \<Rightarrow> chunk_slice \<Rightarrow> nat \<Rightarrow> world \<times> 's \<Rightarrow> world \<times> 's" where
  "patch_buffer_column pf p s i ws =
     (let w0 = fst ws; c = sl_c s; a = chunk_arch w0 c; at = cell_addr w0 c i (sl_start s);
          (w, st) = for_up (\<lambda>j ws'. let (w', s') = patch_buffer pf p (g_types a ! i) c (at + sizes a ! i * j) ws'
                                    in (w', p_move p s')) 0 (sl_count s) ws
      in (w, p_reset p st))"

definition chunk_patch :: "'s patch_funs \<Rightarrow> 's patcher \<Rightarrow> chunk_slice \<Rightarrow> world \<times> 's \<Rightarrow> world \<times> 's" where
  "chunk_patch pf p s ws =
     (let g = chunk_arch (fst ws) (sl_c s) in
      for_up (patch_buffer_column pf p s) (firstBuffer g) (firstManaged g)
        (for_up (patch_column pf p s) (firstManaged g) (firstTag g)
          (for_up (patch_column pf p s) 0 (firstBuffer g) ws)))"

section \<open>cast\<close>

text \<open>
  The loop of the first three phases of \<open>cast\<close>: two indices run over the components of one
  kind in the source (up to \<open>sn\<close>) and in the destination (up to \<open>dn\<close>); a component only
  the source has is destructed, one only the destination has is constructed, one both have
  is moved; what is left of either side is destructed or constructed.
\<close>

function cast_range :: "(nat \<Rightarrow> type_index) \<Rightarrow> (nat \<Rightarrow> type_index) \<Rightarrow> nat \<Rightarrow> nat \<Rightarrow>
    (nat \<Rightarrow> 's \<Rightarrow> 's) \<Rightarrow> (nat \<Rightarrow> 's \<Rightarrow> 's) \<Rightarrow> (nat \<Rightarrow> nat \<Rightarrow> 's \<Rightarrow> 's) \<Rightarrow> nat \<Rightarrow> nat \<Rightarrow> 's \<Rightarrow> 's" where
  "cast_range st dt sn dn destr constr mov srcI dstI s =
     (if srcI < sn \<and> dstI < dn then
        if st srcI < dt dstI then cast_range st dt sn dn destr constr mov (srcI + 1) dstI (destr srcI s)
        else if st srcI > dt dstI then cast_range st dt sn dn destr constr mov srcI (dstI + 1) (constr dstI s)
        else cast_range st dt sn dn destr constr mov (srcI + 1) (dstI + 1) (mov srcI dstI s)
      else for_up constr dstI dn (for_up destr srcI sn s))"
  by pat_completeness auto
termination
  by (relation "measure (\<lambda>(st, dt, sn, dn, destr, constr, mov, srcI, dstI, s). (sn - srcI) + (dn - dstI))") auto

declare cast_range.simps [simp del]

text \<open>The last phase, the enabled-mask of one entity: its loops do not advance their indices.\<close>

partial_function (option) mask_fill :: "nat \<Rightarrow> nat \<Rightarrow> mask \<Rightarrow> mask option" where
  "mask_fill dn dstI d =
     (if dstI < dn then Option.bind (mask_set dstI d) (\<lambda>d'. mask_fill dn dstI d') else Some d)"

partial_function (option) mask_merge :: "(nat \<Rightarrow> type_index) \<Rightarrow> (nat \<Rightarrow> type_index) \<Rightarrow> nat \<Rightarrow> nat \<Rightarrow> mask \<Rightarrow>
    nat \<Rightarrow> nat \<Rightarrow> mask \<Rightarrow> mask option" where
  "mask_merge st dt sn dn s srcI dstI d =
     (if srcI < sn \<and> dstI < dn then
        Option.bind (if st srcI < dt dstI then Some d
                     else if st srcI > dt dstI then mask_set dstI d
                     else if bit s srcI then mask_set dstI d else Some d)
          (\<lambda>d'. mask_merge st dt sn dn s srcI dstI d')
      else mask_fill dn dstI d)"

definition for_up_opt :: "(nat \<Rightarrow> 's \<Rightarrow> 's option) \<Rightarrow> nat \<Rightarrow> nat \<Rightarrow> 's \<Rightarrow> 's option" where
  "for_up_opt f i n s = fold (\<lambda>k r. Option.bind r (f k)) [i..<n] (Some s)"

definition cast_pods :: "chunk_slice \<Rightarrow> ptr \<Rightarrow> nat \<Rightarrow> world \<Rightarrow> world" where
  "cast_pods dst src srcIndex w =
     (let c = sl_c dst; sa = chunk_arch w src; da = chunk_arch w c; n = sl_count dst; ctx = w_ctx w;
          s = (\<lambda>i. cell_addr w src i srcIndex); d = (\<lambda>i. cell_addr w c i (sl_start dst))
      in cast_range (\<lambda>i. to_valid_type ctx (g_types sa ! i)) (\<lambda>i. to_valid_type ctx (g_types da ! i))
           (firstBuffer sa) (firstBuffer da)
           (\<lambda>i w'. w')
           (\<lambda>j. on_mem c (\<lambda>m. memset m (d j) 0 (sizes da ! j * n)))
           (\<lambda>i j w'. on_mem c (\<lambda>m. memcpy m (d j) (bytes_of w' src) (s i) (sizes da ! j * n)) w')
           0 0 w)"

definition cast_buffers :: "chunk_slice \<Rightarrow> ptr \<Rightarrow> nat \<Rightarrow> bool \<Rightarrow> world \<Rightarrow> world" where
  "cast_buffers dst src srcIndex destruct w =
     (let c = sl_c dst; sa = chunk_arch w src; da = chunk_arch w c; n = sl_count dst; ctx = w_ctx w;
          s = (\<lambda>i. cell_addr w src i srcIndex); d = (\<lambda>i. cell_addr w c i (sl_start dst))
      in cast_range (\<lambda>i. to_valid_type ctx (g_types sa ! i)) (\<lambda>i. to_valid_type ctx (g_types da ! i))
           (firstManaged sa) (firstManaged da)
           (\<lambda>i w'. if destruct then on_bytes src (destruct_buffers (sizes sa ! i) (s i) n) w' else w')
           (\<lambda>j. on_mem c (construct_buffers (sizes da ! j) (d j) n))
           (\<lambda>i j w'. on_mem c (\<lambda>m. memcpy m (d j) (bytes_of w' src) (s i) (sizes da ! j * n)) w')
           (firstBuffer sa) (firstBuffer da) w)"

definition cast_managed :: "chunk_slice \<Rightarrow> ptr \<Rightarrow> nat \<Rightarrow> world \<Rightarrow> world" where
  "cast_managed dst src srcIndex w =
     (let c = sl_c dst; sa = chunk_arch w src; da = chunk_arch w c; n = sl_count dst; ctx = w_ctx w;
          s = (\<lambda>i. cell_addr w src i srcIndex); d = (\<lambda>i. cell_addr w c i (sl_start dst))
      in cast_range (\<lambda>i. to_valid_type ctx (g_types sa ! i)) (\<lambda>i. to_valid_type ctx (g_types da ! i))
           (firstTag sa) (firstTag da)
           (\<lambda>i. on_mem src (vt_destruct sa i (s i) n))
           (\<lambda>j. on_mem c (vt_construct da j (d j) n))
           (\<lambda>i j w'. on_mem c (\<lambda>m. memcpy m (d j) (bytes_of w' src) (s i) (sizes da ! j * n)) w')
           (firstManaged sa) (firstManaged da) w)"

definition cast_masks :: "chunk_slice \<Rightarrow> ptr \<Rightarrow> nat \<Rightarrow> world \<Rightarrow> world option" where
  "cast_masks dst src srcIndex w =
     (let c = sl_c dst; sa = chunk_arch w src; da = chunk_arch w c; n = sl_count dst; ctx = w_ctx w;
          sm = arch_index sa (mask_id ctx); dm = arch_index da (mask_id ctx);
          s = cell_addr w src sm srcIndex; d = cell_addr w c dm (sl_start dst)
      in if sm \<noteq> InvalidIndex \<and> dm \<noteq> InvalidIndex then
           for_up_opt (\<lambda>i w'.
             map_option (\<lambda>m'. on_mem c (\<lambda>m. wr 4 m (d + 4 * i) (unat m')) w')
               (mask_merge (\<lambda>i. to_valid_type ctx (g_types sa ! i)) (\<lambda>i. to_valid_type ctx (g_types da ! i))
                  (componentCount sa) (componentCount da) (of_nat (rd 4 (bytes_of w' src) (s + 4 * i))) 0 0 0))
             0 n w
         else if dm \<noteq> InvalidIndex then Some (on_mem c (\<lambda>m. memset m d (-1) (sizes da ! dm * n)) w)
         else Some w)"

definition chunk_cast :: "chunk_slice \<Rightarrow> ptr \<Rightarrow> nat \<Rightarrow> bool \<Rightarrow> world \<Rightarrow> world option" where
  "chunk_cast dst src srcIndex0 destruct w =
     (let srcIndex = u16 srcIndex0
      in cast_masks dst src srcIndex
           (cast_managed dst src srcIndex
             (cast_buffers dst src srcIndex destruct
               (cast_pods dst src srcIndex w))))"

section \<open>clone\<close>

text \<open>\<open>chunk::clone\<close> copies the whole allocation, then runs over managed components and buffers
  one cell behind their first; the blocks of the buffers are cloned in this chunk.\<close>

definition chunk_clone :: "ptr \<Rightarrow> ptr \<Rightarrow> world \<Rightarrow> world" where
  "chunk_clone this dst w =
     (let a = chunk_arch w this; n = c_count (chunks w this);
          at = (\<lambda>i. offsets a (c_ct (chunks w this)) i + sizes a ! i);
          w1 = upd_chunk dst (\<lambda>_. chunks w this) w;
          w2 = for_up (\<lambda>i w'. on_mem dst (vt_do_copy a i (at i) (bytes_of w' this) (at i) n) w')
                 (firstManaged a) (firstTag a) w1
      in for_up (\<lambda>i. for_up (\<lambda>j. on_bytes this (clone_block (j * sizes a ! i + at i))) 0 n)
           (firstBuffer a) (firstManaged a) w2)"

end
