(* ===== verification/Chunk_Rows.thy ===== *)
theory Chunk_Rows
  imports Chunk_Data
begin

text \<open>
  What the byte operations of \<open>Chunk_Data\<close> do to the rows of a chunk, given that the columns
  of its archetype do not overlap (theory \<open>Layout\<close>): which bytes \<open>construct\<close>, \<open>move\<close> and \<open>cast\<close>
  write and with what, that all other bytes stay, and when \<open>cast\<close> returns at all.
\<close>

section \<open>Operations on one chunk's bytes\<close>

lemma on_mem_simps [simp]:
  "bytes_of (on_mem c f w) c = f (bytes_of w c)" "c' \<noteq> c \<Longrightarrow> bytes_of (on_mem c f w) c' = bytes_of w c'"
  "chunk_arch (on_mem c f w) c' = chunk_arch w c'" "cell_addr (on_mem c f w) c' k i = cell_addr w c' k i"
  "archs (on_mem c f w) = archs w" "w_ctx (on_mem c f w) = w_ctx w" "bheap (on_mem c f w) = bheap w"
  "c_count (chunks (on_mem c f w) c') = c_count (chunks w c')" "c_type (chunks (on_mem c f w) c') = c_type (chunks w c')"
  "c_ct (chunks (on_mem c f w) c') = c_ct (chunks w c')" "c_ents (chunks (on_mem c f w) c') = c_ents (chunks w c')"
  "ents (on_mem c f w) = ents w"
  by (simp_all add: on_mem_def bytes_of_def chunk_arch_def cell_addr_def)

lemma on_bytes_simps [simp]:
  "chunk_arch (on_bytes c f w) c' = chunk_arch w c'" "cell_addr (on_bytes c f w) c' k i = cell_addr w c' k i"
  "w_ctx (on_bytes c f w) = w_ctx w" "c' \<noteq> c \<Longrightarrow> bytes_of (on_bytes c f w) c' = bytes_of w c'"
  "bytes_of (on_bytes c f w) c = fst (f (bytes_of w c, bheap w))"
  "archs (on_bytes c f w) = archs w" "ents (on_bytes c f w) = ents w"
  "c_count (chunks (on_bytes c f w) c') = c_count (chunks w c')" "c_type (chunks (on_bytes c f w) c') = c_type (chunks w c')"
  "c_ct (chunks (on_bytes c f w) c') = c_ct (chunks w c')" "c_ents (chunks (on_bytes c f w) c') = c_ents (chunks w c')"
  by (simp_all add: on_bytes_def bytes_of_def chunk_arch_def cell_addr_def split: prod.splits)

lemma upd_chunk_comp: "upd_chunk c f (upd_chunk c g w) = upd_chunk c (\<lambda>x. f (g x)) w"
  by (simp add: upd_chunk_def)

lemma on_mem_comp: "on_mem c f (on_mem c g w) = on_mem c (\<lambda>m. f (g m)) w"
  by (simp add: on_mem_def upd_chunk_comp)

lemma on_mem_id [simp]: "on_mem c (\<lambda>m. m) w = w"
  by (simp add: on_mem_def upd_chunk_def)

lemma for_up_on_mem: "for_up (\<lambda>i. on_mem c (f i)) lo hi w = on_mem c (for_up f lo hi) w"
proof (cases "lo \<le> hi")
  case True
  then show ?thesis
    by (induction hi rule: dec_induct) (simp_all add: for_up_Suc on_mem_comp)
next
  case False
  then have "for_up f lo hi = (\<lambda>m. m)" by (simp add: fun_eq_iff)
  then show ?thesis using False by simp
qed

lemma for_up_append: "lo \<le> mid \<Longrightarrow> mid \<le> hi \<Longrightarrow> for_up f mid hi (for_up f lo mid s) = for_up f lo hi s"
  using upt_add_eq_append [of lo mid "hi - mid"] by (simp add: for_up_def)

text \<open>A loop over operations that each stay inside their own region.\<close>

definition stays_in :: "(bmem \<Rightarrow> bmem) \<Rightarrow> nat \<Rightarrow> nat \<Rightarrow> bool" where
  "stays_in f lo n \<longleftrightarrow> (\<forall>m x. \<not> (lo \<le> x \<and> x < lo + n) \<longrightarrow> f m x = m x)"

lemma stays_in_memset [simp, intro]: "stays_in (\<lambda>m. memset m lo v n) lo n"
  by (simp add: stays_in_def memset_def)

lemma stays_in_memcpy [simp, intro]: "stays_in (\<lambda>m. memcpy m lo (g m) s n) lo n"
  by (simp add: stays_in_def memcpy_def)

lemma stays_in_mono: "stays_in f lo n \<Longrightarrow> lo' \<le> lo \<Longrightarrow> lo + n \<le> lo' + n' \<Longrightarrow> stays_in f lo' n'"
  unfolding stays_in_def by (meson dual_order.trans less_le_trans)

lemma for_up_outside:
  assumes "\<And>i. lo \<le> i \<Longrightarrow> i < hi \<Longrightarrow> stays_in (f i) (base i) (len i)"
    and "\<And>i. lo \<le> i \<Longrightarrow> i < hi \<Longrightarrow> \<not> (base i \<le> x \<and> x < base i + len i)"
  shows "for_up f lo hi m x = m x"
  by (rule for_up_keeps [of lo hi "\<lambda>m. m x"]) (use assms in \<open>auto simp: stays_in_def\<close>)

text \<open>Inside one region the value comes from the operation on that region, applied to a memory
  that agrees with the initial one on it.\<close>

lemma for_up_region:
  assumes st: "\<And>i. lo \<le> i \<Longrightarrow> i < hi \<Longrightarrow> stays_in (f i) (base i) (len i)"
    and dj: "\<And>i j y. lo \<le> i \<Longrightarrow> i < hi \<Longrightarrow> lo \<le> j \<Longrightarrow> j < hi \<Longrightarrow> i \<noteq> j \<Longrightarrow>
               base i \<le> y \<and> y < base i + len i \<Longrightarrow> \<not> (base j \<le> y \<and> y < base j + len j)"
    and k: "lo \<le> k" "k < hi" and x: "base k \<le> x" "x < base k + len k"
  shows "\<exists>m'. (\<forall>y. base k \<le> y \<and> y < base k + len k \<longrightarrow> m' y = m y) \<and> for_up f lo hi m x = f k m' x"
proof -
  let ?m = "for_up f lo k m"
  have pre: "?m y = m y" if "base k \<le> y \<and> y < base k + len k" for y
    by (rule for_up_outside [where base = base and len = len]) (use st k that dj [of k] in auto)
  have "for_up f lo hi m = for_up f (Suc k) hi (f k ?m)"
  proof -
    have "[lo..<hi] = [lo..<k] @ k # [Suc k..<hi]"
      using k upt_add_eq_append [of lo k "hi - k"] by (simp add: upt_conv_Cons)
    then show ?thesis by (simp add: for_up_def)
  qed
  moreover have "for_up f (Suc k) hi (f k ?m) x = f k ?m x"
    by (rule for_up_outside [where base = base and len = len]) (use st k x dj [of k] in auto)
  ultimately show ?thesis using pre by auto
qed

section \<open>Columns and rows\<close>

definition columns_disjoint :: "archetype \<Rightarrow> alloc_type \<Rightarrow> bool" where
  "columns_disjoint a ct \<longleftrightarrow> firstBuffer a \<le> firstManaged a \<and> firstManaged a \<le> firstTag a
     \<and> (\<forall>k < firstTag a. \<forall>l < firstTag a. k \<noteq> l \<longrightarrow>
          offsets a ct k + sizes a ! k * chunkCapacity a ct \<le> offsets a ct l
        \<or> offsets a ct l + sizes a ! l * chunkCapacity a ct \<le> offsets a ct k)"

lemma columns_ok_disjoint:
  assumes "columns_ok al (\<lambda>k. sizes a ! k) (chunkCapacity a ct) lo hi {..<firstTag a} (offsets a ct)"
    "firstBuffer a \<le> firstManaged a" "firstManaged a \<le> firstTag a"
  shows "columns_disjoint a ct"
  using assms by (simp add: columns_ok_def columns_disjoint_def col_end_def)

lemma row_in_column:
  assumes "start + n \<le> (cap::nat)"
  shows "o' + sz * start + sz * n \<le> o' + sz * cap"
  using mult_le_mono2 [OF assms, of sz] by (simp add: distrib_left)

lemma cells_disjoint:
  assumes "columns_disjoint a ct" "k < firstTag a" "l < firstTag a" "k \<noteq> l"
    and "s + n \<le> chunkCapacity a ct" "s' + n' \<le> chunkCapacity a ct"
    and "col_addr a ct k s \<le> x \<and> x < col_addr a ct k s + sizes a ! k * n"
  shows "\<not> (col_addr a ct l s' \<le> x \<and> x < col_addr a ct l s' + sizes a ! l * n')"
proof -
  have "offsets a ct k \<le> x \<and> x < offsets a ct k + sizes a ! k * chunkCapacity a ct"
    using assms(7) row_in_column [OF assms(5), of "offsets a ct k" "sizes a ! k"] by (simp add: col_addr_def)
  moreover have "offsets a ct l \<le> x \<and> x < offsets a ct l + sizes a ! l * chunkCapacity a ct"
    if "col_addr a ct l s' \<le> x \<and> x < col_addr a ct l s' + sizes a ! l * n'"
    using that row_in_column [OF assms(6), of "offsets a ct l" "sizes a ! l"] by (simp add: col_addr_def)
  ultimately show ?thesis
    using assms(1-4) unfolding columns_disjoint_def by (meson leD less_le_trans le_less_trans)
qed

text \<open>The byte at offset \<open>b\<close> of row \<open>r\<close> in column \<open>k\<close>.\<close>

definition row_byte :: "world \<Rightarrow> ptr \<Rightarrow> nat \<Rightarrow> nat \<Rightarrow> nat \<Rightarrow> byte" where
  "row_byte w c k r b = bytes_of w c (cell_addr w c k r + b)"

lemma row_in_slice:
  assumes "start \<le> r" "r < start + n" "b < sz"
  shows "o' + sz * start \<le> o' + sz * r + b" "o' + sz * r + b < o' + sz * start + sz * (n::nat)"
proof -
  show "o' + sz * start \<le> o' + sz * r + b" using mult_le_mono2 [OF assms(1), of sz] by linarith
  have "sz * r + sz \<le> sz * (start + n)" using mult_le_mono2 [of "Suc r" "start + n" sz] assms(2) by simp
  then show "o' + sz * r + b < o' + sz * start + sz * n" using assms(3) by (simp add: distrib_left)
qed

section \<open>construct\<close>

text \<open>What \<open>construct\<close> does to column \<open>i\<close>.\<close>

definition construct_column :: "archetype \<Rightarrow> nat \<Rightarrow> nat \<Rightarrow> nat \<Rightarrow> bmem \<Rightarrow> bmem" where
  "construct_column a at n i =
     (if i < firstBuffer a then (\<lambda>m. memset m at 0 (sizes a ! i * n))
      else if i < firstManaged a then construct_buffers (sizes a ! i) at n
      else vt_construct a i at n)"

text \<open>The constructors of managed components stay inside the values they are called on, and the
  cells of buffer columns have room for the header.\<close>

definition components_local :: "archetype \<Rightarrow> bool" where
  "components_local a \<longleftrightarrow>
     (\<forall>i. firstBuffer a \<le> i \<and> i < firstManaged a \<longrightarrow> sizeof_buffer \<le> sizes a ! i)
   \<and> (\<forall>i at n. firstManaged a \<le> i \<and> i < firstTag a \<longrightarrow>
        stays_in (vt_construct a i at n) at (sizes a ! i * n) \<and> stays_in (vt_destruct a i at n) at (sizes a ! i * n))"

lemma buffer_ctor_stays: "stays_in (buffer_ctor a cap) a 16"
  by (auto simp: stays_in_def buffer_ctor_def buf_field_defs wr_out)

lemma construct_buffers_stays:
  assumes "sizeof_buffer \<le> sz"
  shows "stays_in (construct_buffers sz data n) data (sz * n)"
  unfolding stays_in_def construct_buffers_def
proof (intro allI impI)
  fix m x assume x: "\<not> (data \<le> x \<and> x < data + sz * n)"
  show "for_up (\<lambda>j. buffer_ctor (j * sz + data) (u16 (sz + 2 ^ 16 - sizeof_buffer))) 0 n m x = m x"
  proof (rule for_up_outside [where base = "\<lambda>j. j * sz + data" and len = "\<lambda>_. 16"])
    fix j assume "j < n"
    then have "sz * Suc j \<le> sz * n" by (intro mult_le_mono2) simp
    then show "\<not> (j * sz + data \<le> x \<and> x < j * sz + data + 16)"
      using x assms by (auto simp: sizeof_buffer_def mult.commute)
  qed (rule buffer_ctor_stays)
qed

lemma construct_column_stays:
  assumes "components_local a" "i < firstTag a"
  shows "stays_in (construct_column a at n i) at (sizes a ! i * n)"
  using assms construct_buffers_stays [of "sizes a ! i" at n]
  by (auto simp: construct_column_def components_local_def)

lemma chunk_construct_alt:
  assumes "columns_disjoint (chunk_arch w (sl_c s)) (c_ct (chunks w (sl_c s)))"
  shows "chunk_construct s w =
    (let c = sl_c s; a = chunk_arch w c; at = (\<lambda>i. cell_addr w c i (sl_start s));
         maskId = arch_index a (mask_id (w_ctx w))
     in on_mem c (\<lambda>m. let m' = for_up (\<lambda>i. construct_column a (at i) (sl_count s) i) 0 (firstTag a) m
                      in if maskId \<noteq> InvalidIndex then memset m' (at maskId) (-1) (sizes a ! maskId * sl_count s)
                         else m') w)"
proof -
  let ?c = "sl_c s" let ?a = "chunk_arch w ?c" let ?n = "sl_count s"
  let ?at = "\<lambda>i. cell_addr w ?c i (sl_start s)"
  let ?f = "\<lambda>i. construct_column ?a (?at i) ?n i"
  have le: "firstBuffer ?a \<le> firstManaged ?a" "firstManaged ?a \<le> firstTag ?a"
    using assms by (simp_all add: columns_disjoint_def)
  have 1: "for_up (\<lambda>i m. memset m (?at i) 0 (sizes ?a ! i * ?n)) 0 (firstBuffer ?a) = for_up ?f 0 (firstBuffer ?a)"
    by (intro ext for_up_cong) (simp add: construct_column_def)
  have 2: "for_up (\<lambda>i. construct_buffers (sizes ?a ! i) (?at i) ?n) (firstBuffer ?a) (firstManaged ?a)
      = for_up ?f (firstBuffer ?a) (firstManaged ?a)"
    by (intro ext for_up_cong) (simp add: construct_column_def)
  have 3: "for_up (\<lambda>i. vt_construct ?a i (?at i) ?n) (firstManaged ?a) (firstTag ?a)
      = for_up ?f (firstManaged ?a) (firstTag ?a)"
    using le by (intro ext for_up_cong) (simp add: construct_column_def)
  have "for_up ?f (firstManaged ?a) (firstTag ?a) (for_up ?f (firstBuffer ?a) (firstManaged ?a) (for_up ?f 0 (firstBuffer ?a) m))
      = for_up ?f 0 (firstTag ?a) m" for m
    using le by (simp add: for_up_append)
  then show ?thesis
    by (simp add: chunk_construct_def Let_def for_up_on_mem 1 2 3 on_mem_comp)
qed

lemma buffer_ctor_fields:
  "cap < 65536 \<Longrightarrow> buf_d (buffer_ctor a cap m) a = 0 \<and> buf_size (buffer_ctor a cap m) a = 0
     \<and> buf_capacity (buffer_ctor a cap m) a = cap"
  by (simp add: buffer_ctor_def)

lemma buf_fields_cong:
  assumes "\<And>i. i < 12 \<Longrightarrow> m (a + i) = m' (a + i)"
  shows "buf_d m a = buf_d m' a" "buf_size m a = buf_size m' a" "buf_capacity m a = buf_capacity m' a"
proof -
  show "buf_d m a = buf_d m' a" unfolding buf_d_def by (rule rd_cong) (use assms in simp)
  show "buf_size m a = buf_size m' a" unfolding buf_size_def
    by (rule rd_cong) (use assms [of "8 + _"] in \<open>simp add: add.assoc\<close>)
  show "buf_capacity m a = buf_capacity m' a" unfolding buf_capacity_def
    by (rule rd_cong) (use assms [of "10 + _"] in \<open>simp add: add.assoc\<close>)
qed

text \<open>The header bytes that the constructor writes do not depend on the memory before.\<close>

lemma wr_cong: "a \<le> x \<Longrightarrow> x < a + n \<Longrightarrow> wr n m a v x = wr n m' a v x"
proof (induction n arbitrary: m m' a v)
  case (Suc n)
  show ?case
  proof (cases "x = a")
    case True
    then show ?thesis by (simp add: wr_out)
  next
    case False
    then show ?thesis using Suc.prems by (auto intro!: Suc.IH)
  qed
qed simp

lemma buffer_ctor_bytes:
  assumes "a \<le> x" "x < a + 12"
  shows "buffer_ctor a cap m x = buffer_ctor a cap m' x"
proof -
  consider "x < a + 8" | "a + 8 \<le> x" "x < a + 10" | "a + 10 \<le> x" using assms by linarith
  then show ?thesis
    using assms
    by cases (auto simp: buffer_ctor_def buf_field_defs wr_out intro!: wr_cong)
qed

lemma construct_buffers_header:
  assumes sz: "sizeof_buffer \<le> sz" and j: "j < n" and x: "j * sz + data \<le> x" "x < j * sz + data + 12"
  shows "construct_buffers sz data n m x = buffer_ctor (j * sz + data) (u16 (sz + 2 ^ 16 - sizeof_buffer)) m' x"
proof -
  let ?f = "\<lambda>j. buffer_ctor (j * sz + data) (u16 (sz + 2 ^ 16 - sizeof_buffer))"
  have dj: "\<not> (i * sz + data \<le> y \<and> y < i * sz + data + 16)"
    if "i \<noteq> l" "l * sz + data \<le> y \<and> y < l * sz + data + 16" for i l y
  proof (cases "i < l")
    case True
    then have "sz * Suc i \<le> sz * l" by (intro mult_le_mono2) simp
    then show ?thesis using that sz by (auto simp: sizeof_buffer_def mult.commute)
  next
    case False
    then have "sz * Suc l \<le> sz * i" using that by (intro mult_le_mono2) simp
    then show ?thesis using that sz by (auto simp: sizeof_buffer_def mult.commute)
  qed
  have "\<exists>m''. (\<forall>y. j * sz + data \<le> y \<and> y < j * sz + data + 16 \<longrightarrow> m'' y = m y)
      \<and> for_up ?f 0 n m x = ?f j m'' x"
    by (rule for_up_region [where base = "\<lambda>j. j * sz + data" and len = "\<lambda>_. 16"])
       (use buffer_ctor_stays dj j x in auto)
  then show ?thesis using buffer_ctor_bytes [OF x] unfolding construct_buffers_def by metis
qed


text \<open>Two chunks: one of an archetype with component 5, one of an archetype with 5 and 6.\<close>

definition pair_world :: world where
  "pair_world = upd_arch 10 (\<lambda>a. a\<lparr>componentCount := 1, firstTag := 1, firstManaged := 1, firstBuffer := 1,
        chunkCapacity := (\<lambda>_. 4), g_types := [5], offsets := (\<lambda>_ _. 16), sizes := [8]\<rparr>)
     (upd_arch 11 (\<lambda>a. a\<lparr>componentCount := 2, firstTag := 2, firstManaged := 2, firstBuffer := 2,
        chunkCapacity := (\<lambda>_. 4), g_types := [5, 6], offsets := (\<lambda>_ i. 16 + 32 * i), sizes := [8, 12]\<rparr>)
     (upd_chunk 3 (\<lambda>c. c\<lparr>c_type := 10, c_count := 4, c_data := (\<lambda>x. of_nat x)\<rparr>)
     (upd_chunk 2 (\<lambda>c. c\<lparr>c_type := 11\<rparr>) (blank_memory padded_ctx))))"

lemma pair_arch:
  "chunk_arch pair_world 3 = zero_archetype\<lparr>componentCount := 1, firstTag := 1, firstManaged := 1, firstBuffer := 1,
        chunkCapacity := (\<lambda>_. 4), g_types := [5], offsets := (\<lambda>_ _. 16), sizes := [8]\<rparr>"
  "chunk_arch pair_world 2 = zero_archetype\<lparr>componentCount := 2, firstTag := 2, firstManaged := 2, firstBuffer := 2,
        chunkCapacity := (\<lambda>_. 4), g_types := [5, 6], offsets := (\<lambda>_ i. 16 + 32 * i), sizes := [8, 12]\<rparr>"
  "c_ct (chunks pair_world 3) = smallbin" "c_ct (chunks pair_world 2) = smallbin"
  "w_ctx pair_world = padded_ctx"
  by (simp_all add: pair_world_def chunk_arch_def blank_memory_def zero_chunk_def)

lemma padded_valid:
  "to_valid_type padded_ctx 5 = 5" "to_valid_type padded_ctx 6 = 6" "mask_id padded_ctx = 3"
  by (simp_all add: to_valid_type_def padded_ctx_def context_init_fields ti_index_def Copying_def mk_type_index_def nth_append)


end
