(* ===== verification/Chunk_Cast.thy ===== *)
theory Chunk_Cast
  imports Chunk_Rows
begin

text \<open>
  What \<open>chunk::cast\<close> does to the rows it casts.  The merge loop \<open>cast_range\<close> is analysed once,
  for any actions that obey \<open>cast_laws\<close>; the three phases (pods, buffers, managed) are its
  instances.  \<open>cast\<close> returns exactly when source and destination do not both have a mask.
\<close>

section \<open>The merge loop\<close>

definition cast_laws :: "('s \<Rightarrow> bmem) \<Rightarrow> ('s \<Rightarrow> bmem) \<Rightarrow> (nat \<Rightarrow> nat) \<Rightarrow> (nat \<Rightarrow> nat) \<Rightarrow> (nat \<Rightarrow> nat) \<Rightarrow> (nat \<Rightarrow> nat set) \<Rightarrow>
    nat set \<Rightarrow> nat set \<Rightarrow> (nat \<Rightarrow> 's \<Rightarrow> 's) \<Rightarrow> (nat \<Rightarrow> 's \<Rightarrow> 's) \<Rightarrow> (nat \<Rightarrow> nat \<Rightarrow> 's \<Rightarrow> 's) \<Rightarrow> bool" where
  "cast_laws dbytes sbytes da dlen sa S I J destr constr mov \<longleftrightarrow>
     (\<forall>i \<in> I. \<forall>s. dbytes (destr i s) = dbytes s \<and> (\<forall>x. x \<notin> S i \<longrightarrow> sbytes (destr i s) x = sbytes s x))
   \<and> (\<forall>j \<in> J. \<forall>s. sbytes (constr j s) = sbytes s
         \<and> (\<forall>x. x \<notin> {da j..<da j + dlen j} \<longrightarrow> dbytes (constr j s) x = dbytes s x))
   \<and> (\<forall>i \<in> I. \<forall>j \<in> J. \<forall>s. sbytes (mov i j s) = sbytes s
         \<and> (\<forall>x. dbytes (mov i j s) x
              = (if x \<in> {da j..<da j + dlen j} then sbytes s (sa i + (x - da j)) else dbytes s x)))"

definition increasing_on :: "(nat \<Rightarrow> 'a::linorder) \<Rightarrow> nat set \<Rightarrow> bool" where
  "increasing_on f I \<longleftrightarrow> (\<forall>i \<in> I. \<forall>j \<in> I. i < j \<longrightarrow> f i < f j)"

lemma cast_laws_constr:
  assumes "cast_laws dbytes sbytes da dlen sa S I J destr constr mov" "j \<in> J" "x \<notin> {da j..<da j + dlen j}"
  shows "dbytes (constr j s) x = dbytes s x"
  using assms by (simp add: cast_laws_def)

lemma cast_laws_destr:
  assumes "cast_laws dbytes sbytes da dlen sa S I J destr constr mov" "i \<in> I"
  shows "dbytes (destr i s) = dbytes s"
  using assms by (simp add: cast_laws_def)

lemma for_up_dbytes_other:
  assumes "cast_laws dbytes sbytes da dlen sa S I J destr constr mov"
    and "{srcI..<sn} \<subseteq> I" "{dstI..<dn} \<subseteq> J" "\<forall>j \<in> {dstI..<dn}. x \<notin> {da j..<da j + dlen j}"
  shows "dbytes (for_up constr dstI dn (for_up destr srcI sn s)) x = dbytes s x"
proof -
  have "dbytes (for_up constr dstI dn t) x = dbytes t x" for t
    by (rule for_up_keeps [where g = "\<lambda>s. dbytes s x"], rule cast_laws_constr [OF assms(1)]) (use assms(3,4) in auto)
  moreover have "dbytes (for_up destr srcI sn s) = dbytes s"
    by (rule for_up_keeps, rule cast_laws_destr [OF assms(1)]) (use assms(2) in auto)
  ultimately show ?thesis by simp
qed

lemma cast_range_other:
  assumes "cast_laws dbytes sbytes da dlen sa S I J destr constr mov"
    and "{srcI..<sn} \<subseteq> I" "{dstI..<dn} \<subseteq> J" "\<forall>j \<in> {dstI..<dn}. x \<notin> {da j..<da j + dlen j}"
  shows "dbytes (cast_range st dt sn dn destr constr mov srcI dstI s) x = dbytes s x"
  using assms
proof (induction st dt sn dn destr constr mov srcI dstI s rule: cast_range.induct)
  case (1 st dt sn dn destr constr mov srcI dstI s)
  show ?case
  proof (cases "srcI < sn \<and> dstI < dn")
    case True
    then have m: "srcI \<in> I" "dstI \<in> J" "x \<notin> {da dstI..<da dstI + dlen dstI}" using 1(5-7) by auto
    have l: "dbytes (destr srcI s) x = dbytes s x" "dbytes (constr dstI s) x = dbytes s x"
      "dbytes (mov srcI dstI s) x = dbytes s x"
      using 1(4) m by (auto simp: cast_laws_def)
    have r: "{srcI + 1..<sn} \<subseteq> I" "{dstI + 1..<dn} \<subseteq> J"
      "\<forall>j \<in> {dstI + 1..<dn}. x \<notin> {da j..<da j + dlen j}"
      using 1(5-7) by auto
    show ?thesis
      unfolding cast_range.simps [of st dt sn dn destr constr mov srcI dstI s]
      using True l 1(1) [OF True _ 1(4) r(1) 1(6,7)] 1(2) [OF True _ _ 1(4,5) r(2,3)]
        1(3) [OF True _ _ 1(4) r]
      by simp
  next
    case False
    then show ?thesis
      using for_up_dbytes_other [OF 1(4-7)]
      unfolding cast_range.simps [of st dt sn dn destr constr mov srcI dstI s] by (simp only: if_False)
  qed
qed

text \<open>A component both sides have is moved.\<close>

lemma cast_range_moved:
  assumes "cast_laws dbytes sbytes da dlen sa S I J destr constr mov"
    and "{srcI..<sn} \<subseteq> I" "{dstI..<dn} \<subseteq> J" "increasing_on st I" "increasing_on dt J"
    and "\<And>j j'. j \<in> J \<Longrightarrow> j' \<in> J \<Longrightarrow> j \<noteq> j' \<Longrightarrow> {da j..<da j + dlen j} \<inter> {da j'..<da j' + dlen j'} = {}"
    and "i \<in> {srcI..<sn}" "j \<in> {dstI..<dn}" "st i = dt j" "x \<in> {da j..<da j + dlen j}"
    and "\<And>i'. i' \<in> I \<Longrightarrow> i' \<noteq> i \<Longrightarrow> sa i + (x - da j) \<notin> S i'"
  shows "dbytes (cast_range st dt sn dn destr constr mov srcI dstI s) x = sbytes s (sa i + (x - da j))"
  using assms
proof (induction st dt sn dn destr constr mov srcI dstI s rule: cast_range.induct)
  case (1 st dt sn dn destr constr mov srcI dstI s)
  note laws = 1(4) and ranges = 1(5,6) and inc = 1(7,8) and dj = 1(9) and mem = 1(10-14)
  let ?y = "sa i + (x - da j)"
  have True': "srcI < sn \<and> dstI < dn" using mem by auto
  have m: "srcI \<in> I" "dstI \<in> J" "i \<in> I" "j \<in> J" using True' ranges mem by auto
  have r: "{srcI + 1..<sn} \<subseteq> I" "{dstI + 1..<dn} \<subseteq> J" using ranges by auto
  have st_le: "st srcI \<le> st i" and dt_le: "dt dstI \<le> dt j"
    using inc m mem unfolding increasing_on_def by (metis atLeastLessThan_iff le_neq_implies_less less_imp_le order.refl)+
  have ieq: "st srcI = st i \<Longrightarrow> srcI = i" and jeq: "dt dstI = dt j \<Longrightarrow> dstI = j"
    using inc m unfolding increasing_on_def by (metis less_irrefl linorder_neqE_nat)+
  consider (d) "st srcI < dt dstI" | (c) "st srcI > dt dstI" | (m) "st srcI = dt dstI" by linarith
  then show ?case
  proof cases
    case d
    then have ne: "srcI \<noteq> i" using dt_le mem(3) by auto
    then have "i \<in> {srcI + 1..<sn}" using mem by auto
    moreover have "sbytes (destr srcI s) ?y = sbytes s ?y"
      using laws m(1) mem(5) [OF m(1)] ne by (auto simp: cast_laws_def)
    ultimately show ?thesis
      unfolding cast_range.simps [of st dt sn dn destr constr mov srcI dstI s]
      using 1(1) [OF True' d laws r(1) ranges(2) inc dj _ mem(2-5)] True' d by simp
  next
    case c
    then have "dstI \<noteq> j" using st_le mem(3) by auto
    then have "j \<in> {dstI + 1..<dn}" using mem by auto
    moreover have "sbytes (constr dstI s) = sbytes s" using laws m(2) by (auto simp: cast_laws_def)
    ultimately show ?thesis
      unfolding cast_range.simps [of st dt sn dn destr constr mov srcI dstI s]
      using 1(2) [OF True' _ c laws ranges(1) r(2) inc dj mem(1) _ mem(3-5)] True' c by simp
  next
    case m': m
    have step: "cast_range st dt sn dn destr constr mov srcI dstI s
        = cast_range st dt sn dn destr constr mov (srcI + 1) (dstI + 1) (mov srcI dstI s)"
      unfolding cast_range.simps [of st dt sn dn destr constr mov srcI dstI s] using True' m' by simp
    show ?thesis
    proof (cases "dstI = j")
      case True
      then have i: "srcI = i" using m' mem(3) ieq by simp
      have "\<forall>j' \<in> {dstI + 1..<dn}. x \<notin> {da j'..<da j' + dlen j'}"
        using dj [OF m(4)] r(2) mem(4) True by fastforce
      from cast_range_other [OF laws r this, of st dt "mov srcI dstI s"]
      have "dbytes (cast_range st dt sn dn destr constr mov srcI dstI s) x = dbytes (mov i j s) x"
        unfolding step by (simp add: True i)
      also have "\<dots> = sbytes s ?y"
        using laws m(3,4) mem(4) unfolding cast_laws_def by meson
      finally show ?thesis .
    next
      case False
      have "srcI \<noteq> i" using False m' mem(3) jeq by auto
      then have "i \<in> {srcI + 1..<sn}" "j \<in> {dstI + 1..<dn}" using mem False by auto
      moreover have "sbytes (mov srcI dstI s) = sbytes s" using laws m(1,2) by (auto simp: cast_laws_def)
      ultimately show ?thesis
        unfolding step
        using 1(3) [OF True' _ _ laws r inc dj _ _ mem(3-5)] m' by simp
    qed
  qed
qed

text \<open>A component only the destination has is constructed.\<close>

lemma cast_range_constructed:
  assumes "cast_laws dbytes sbytes da dlen sa S I J destr constr mov"
    and "{srcI..<sn} \<subseteq> I" "{dstI..<dn} \<subseteq> J" 
    and "\<And>j j'. j \<in> J \<Longrightarrow> j' \<in> J \<Longrightarrow> j \<noteq> j' \<Longrightarrow> {da j..<da j + dlen j} \<inter> {da j'..<da j' + dlen j'} = {}"
    and "j \<in> {dstI..<dn}" "\<And>i. i \<in> I \<Longrightarrow> st i \<noteq> dt j" "x \<in> {da j..<da j + dlen j}"
    and "\<And>s. dbytes (constr j s) x = v"
  shows "dbytes (cast_range st dt sn dn destr constr mov srcI dstI s) x = v"
  using assms
proof (induction st dt sn dn destr constr mov srcI dstI s rule: cast_range.induct)
  case (1 st dt sn dn destr constr mov srcI dstI s)
  note laws = 1(4) and ranges = 1(5,6) and dj = 1(7) and mem = 1(8-11)
  have r: "{srcI + 1..<sn} \<subseteq> I" "{dstI + 1..<dn} \<subseteq> J" using ranges by auto
  have jJ: "j \<in> J" using mem(1) ranges by auto
  have other: "\<forall>j' \<in> {j + 1..<dn}. x \<notin> {da j'..<da j' + dlen j'}"
  proof
    fix j' assume j': "j' \<in> {j + 1..<dn}"
    then have "j' \<in> {dstI..<dn}" using mem(1) by auto
    then show "x \<notin> {da j'..<da j' + dlen j'}"
      using dj [OF jJ, of j'] ranges(2) mem(3) j' by auto
  qed
  show ?case
  proof (cases "srcI < sn \<and> dstI < dn")
    case False
    let ?t = "for_up destr srcI sn s"
    have "for_up constr dstI dn ?t = for_up constr j dn (for_up constr dstI j ?t)"
      by (rule for_up_append [symmetric]) (use mem(1) in auto)
    also have "\<dots> = for_up constr (j + 1) dn (constr j (for_up constr dstI j ?t))"
      unfolding Suc_eq_plus1 [symmetric] by (rule for_up_step) (use mem(1) in auto)
    finally have "for_up constr dstI dn ?t = for_up constr (j + 1) dn (constr j (for_up constr dstI j ?t))" .
    moreover have "dbytes (for_up constr (j + 1) dn t) x = dbytes t x" for t
      by (rule for_up_keeps [where g = "\<lambda>s. dbytes s x"], rule cast_laws_constr [OF laws])
         (use other ranges mem(1) in auto)
    ultimately show ?thesis
      unfolding cast_range.simps [of st dt sn dn destr constr mov srcI dstI s]
      using False mem(4) by (simp only: if_False)
  next
    case True
    then have ne: "st srcI \<noteq> dt j" using mem(2) ranges by auto
    consider (d) "st srcI < dt dstI" | (c) "st srcI > dt dstI" | (m) "st srcI = dt dstI" by linarith
    then show ?thesis
    proof cases
      case d
      then show ?thesis
        unfolding cast_range.simps [of st dt sn dn destr constr mov srcI dstI s]
        using 1(1) [OF True d laws r(1) ranges(2) dj mem] True by simp
    next
      case c
      have step: "cast_range st dt sn dn destr constr mov srcI dstI s
          = cast_range st dt sn dn destr constr mov srcI (dstI + 1) (constr dstI s)"
        unfolding cast_range.simps [of st dt sn dn destr constr mov srcI dstI s] using True c by simp
      show ?thesis
      proof (cases "dstI = j")
        case True
        then show ?thesis
          unfolding step using cast_range_other [OF laws ranges(1) r(2)] other mem(4) by simp
      next
        case False
        then show ?thesis
          unfolding step using 1(2) [OF True _ c laws ranges(1) r(2) dj _ mem(2-4)] mem(1) c by simp
      qed
    next
      case m
      then have "dstI \<noteq> j" using ne by auto
      then show ?thesis
        unfolding cast_range.simps [of st dt sn dn destr constr mov srcI dstI s]
        using 1(3) [OF True _ _ laws r dj _ mem(2-4)] mem(1) m True by simp
    qed
  qed
qed

lemma cast_range_keeps:
  assumes "\<And>i s. srcI \<le> i \<Longrightarrow> i < sn \<Longrightarrow> g (destr i s) = g s" "\<And>j s. g (constr j s) = g s" "\<And>i j s. g (mov i j s) = g s"
  shows "g (cast_range st dt sn dn destr constr mov srcI dstI s) = g s"
  using assms
proof (induction st dt sn dn destr constr mov srcI dstI s rule: cast_range.induct)
  case (1 st dt sn dn destr constr mov srcI dstI s)
  have "g (for_up constr dstI dn t) = g t" "g (for_up destr srcI sn t) = g t" for t
    using 1(4,5) by (auto intro: for_up_keeps)
  then show ?case
    using 1 by (simp add: cast_range.simps [of st dt sn dn destr constr mov srcI dstI s])
qed

section \<open>The phases\<close>

lemma destruct_buffers_bytes [simp]: "fst (destruct_buffers sz data n s) = fst s"
  unfolding destruct_buffers_def by (rule for_up_keeps) (simp add: buffer_dtor_def split: prod.splits)

definition same_places :: "world \<Rightarrow> world \<Rightarrow> bool" where
  "same_places w' w \<longleftrightarrow> chunk_arch w' = chunk_arch w \<and> cell_addr w' = cell_addr w \<and> w_ctx w' = w_ctx w
     \<and> archs w' = archs w \<and> (\<forall>c. c_count (chunks w' c) = c_count (chunks w c) \<and> c_type (chunks w' c) = c_type (chunks w c)
          \<and> c_ct (chunks w' c) = c_ct (chunks w c) \<and> c_ents (chunks w' c) = c_ents (chunks w c)) \<and> ents w' = ents w"

lemma same_places_ops: "same_places (on_mem c f w) w" "same_places (on_bytes c f2 w) w" "same_places w w"
  by (simp_all add: same_places_def fun_eq_iff)

lemma same_places_trans: "same_places u v \<Longrightarrow> same_places v w \<Longrightarrow> same_places u w"
  by (simp add: same_places_def)

text \<open>Every phase works with the addresses and archetypes it started from.\<close>

lemma cast_range_places:
  assumes "\<And>i s. same_places (destr i s) s" "\<And>j s. same_places (constr j s) s" "\<And>i j s. same_places (mov i j s) s"
  shows "same_places (cast_range st dt sn dn destr constr mov srcI dstI w) w"
proof -
  let ?g = "\<lambda>w :: world. (chunk_arch w, cell_addr w, w_ctx w, archs w, (\<lambda>c. c_count (chunks w c)),
    (\<lambda>c. c_type (chunks w c)), (\<lambda>c. c_ct (chunks w c)), (\<lambda>c. c_ents (chunks w c)), ents w)"
  have "same_places u v \<longleftrightarrow> ?g u = ?g v" for u v
    by (auto simp: same_places_def fun_eq_iff)
  then show ?thesis using cast_range_keeps [where g = ?g and destr = destr and constr = constr and mov = mov] assms by simp
qed

lemma cast_phase_places:
  "same_places (cast_pods dst src i w) w" "same_places (cast_buffers dst src i d w) w"
  "same_places (cast_managed dst src i w) w"
  unfolding cast_pods_def cast_buffers_def cast_managed_def Let_def
  by (rule cast_range_places; simp add: same_places_ops)+

text \<open>The source bytes, unchanged by the first two phases.\<close>

lemma cast_phase_source:
  assumes "src \<noteq> sl_c dst"
  shows "bytes_of (cast_pods dst src i w) src = bytes_of w src"
    "bytes_of (cast_buffers dst src i d w) src = bytes_of w src"
  unfolding cast_pods_def cast_buffers_def Let_def
  by (rule cast_range_keeps [where g = "\<lambda>w. bytes_of w src"]; use assms in simp)+

section \<open>The hypotheses of a cast\<close>

definition valid_at :: "world \<Rightarrow> ptr \<Rightarrow> nat \<Rightarrow> type_index" where
  "valid_at w c i = to_valid_type (w_ctx w) (g_types (chunk_arch w c) ! i)"

definition rows_ok :: "world \<Rightarrow> ptr \<Rightarrow> nat \<Rightarrow> nat \<Rightarrow> bool" where
  "rows_ok w c start n \<longleftrightarrow>
     columns_disjoint (chunk_arch w c) (c_ct (chunks w c)) \<and> components_local (chunk_arch w c)
   \<and> increasing_on (valid_at w c) {0..<firstTag (chunk_arch w c)}
   \<and> start + n \<le> chunkCapacity (chunk_arch w c) (c_ct (chunks w c))"

lemma rows_ok_disjoint:
  assumes "rows_ok w c start n" "j < firstTag (chunk_arch w c)" "j' < firstTag (chunk_arch w c)" "j \<noteq> j'"
  shows "{cell_addr w c j start..<cell_addr w c j start + sizes (chunk_arch w c) ! j * n}
       \<inter> {cell_addr w c j' start..<cell_addr w c j' start + sizes (chunk_arch w c) ! j' * n} = {}"
proof -
  have "x \<notin> {cell_addr w c j' start..<cell_addr w c j' start + sizes (chunk_arch w c) ! j' * n}"
    if "x \<in> {cell_addr w c j start..<cell_addr w c j start + sizes (chunk_arch w c) ! j * n}" for x
    using cells_disjoint [of "chunk_arch w c" "c_ct (chunks w c)" j j' start n start n x] assms that
    by (auto simp: rows_ok_def cell_addr_def)
  then show ?thesis by blast
qed

lemma cast_pods_laws:
  assumes "src \<noteq> c"
  shows "cast_laws (\<lambda>w. bytes_of w c) (\<lambda>w. bytes_of w src) d (\<lambda>j. sizes da ! j * n) s S I J
           (\<lambda>i w'. w') (\<lambda>j. on_mem c (\<lambda>m. memset m (d j) 0 (sizes da ! j * n)))
           (\<lambda>i j w'. on_mem c (\<lambda>m. memcpy m (d j) (bytes_of w' src) (s i) (sizes da ! j * n)) w')"
  using assms by (auto simp: cast_laws_def memset_def memcpy_def)

lemma cast_buffers_laws:
  assumes "src \<noteq> c" "components_local da" "J \<subseteq> {firstBuffer da..<firstManaged da}"
  shows "cast_laws (\<lambda>w. bytes_of w c) (\<lambda>w. bytes_of w src) d (\<lambda>j. sizes da ! j * n) s S I J
           (\<lambda>i w'. if destruct then on_bytes src (destruct_buffers (sizes sa ! i) (s i) n) w' else w')
           (\<lambda>j. on_mem c (construct_buffers (sizes da ! j) (d j) n))
           (\<lambda>i j w'. on_mem c (\<lambda>m. memcpy m (d j) (bytes_of w' src) (s i) (sizes da ! j * n)) w')"
  using assms construct_buffers_stays unfolding cast_laws_def stays_in_def components_local_def
  by (auto simp: memcpy_def)

lemma cast_managed_laws:
  assumes "src \<noteq> c" "components_local da" "J \<subseteq> {firstManaged da..<firstTag da}"
    "components_local sa" "I \<subseteq> {firstManaged sa..<firstTag sa}"
  shows "cast_laws (\<lambda>w. bytes_of w c) (\<lambda>w. bytes_of w src) d (\<lambda>j. sizes da ! j * n) s
           (\<lambda>i. {s i..<s i + sizes sa ! i * n}) I J
           (\<lambda>i. on_mem src (vt_destruct sa i (s i) n))
           (\<lambda>j. on_mem c (vt_construct da j (d j) n))
           (\<lambda>i j w'. on_mem c (\<lambda>m. memcpy m (d j) (bytes_of w' src) (s i) (sizes da ! j * n)) w')"
proof -
  have "stays_in (vt_construct da j (d j) n) (d j) (sizes da ! j * n)" if "j \<in> J" for j
    using assms(2,3) that by (auto simp: components_local_def)
  moreover have "stays_in (vt_destruct sa i (s i) n) (s i) (sizes sa ! i * n)" if "i \<in> I" for i
    using assms(4,5) that by (auto simp: components_local_def)
  ultimately show ?thesis
    using assms(1) unfolding cast_laws_def stays_in_def by (auto simp: memcpy_def)
qed

definition same_kind :: "archetype \<Rightarrow> nat \<Rightarrow> archetype \<Rightarrow> nat \<Rightarrow> bool" where
  "same_kind sa i da j \<longleftrightarrow> (i < firstBuffer sa \<and> j < firstBuffer da)
     \<or> (firstBuffer sa \<le> i \<and> i < firstManaged sa \<and> firstBuffer da \<le> j \<and> j < firstManaged da)
     \<or> (firstManaged sa \<le> i \<and> i < firstTag sa \<and> firstManaged da \<le> j \<and> j < firstTag da)"

definition cast_setup :: "world \<Rightarrow> chunk_slice \<Rightarrow> ptr \<Rightarrow> nat \<Rightarrow> bool" where
  "cast_setup w dst src srcIndex \<longleftrightarrow> src \<noteq> sl_c dst \<and> rows_ok w (sl_c dst) (sl_start dst) (sl_count dst)
     \<and> rows_ok w src srcIndex (sl_count dst) \<and> srcIndex < 2 ^ 16"

lemma increasing_on_mono: "increasing_on f I \<Longrightarrow> I' \<subseteq> I \<Longrightarrow> increasing_on f I'"
  by (auto simp: increasing_on_def)

lemma same_places_setup: "same_places w' w \<Longrightarrow> cast_setup w' dst src i = cast_setup w dst src i"
  by (simp add: cast_setup_def rows_ok_def same_places_def valid_at_def [abs_def])

text \<open>The cells of the slice in column \<open>j\<close>.\<close>

abbreviation cells :: "world \<Rightarrow> ptr \<Rightarrow> nat \<Rightarrow> nat \<Rightarrow> nat \<Rightarrow> nat set" where
  "cells w c start n j \<equiv> {cell_addr w c j start..<cell_addr w c j start + sizes (chunk_arch w c) ! j * n}"

lemma setup_facts:
  assumes "cast_setup w dst src i"
  shows "src \<noteq> sl_c dst" "components_local (chunk_arch w (sl_c dst))" "components_local (chunk_arch w src)"
    "firstBuffer (chunk_arch w (sl_c dst)) \<le> firstManaged (chunk_arch w (sl_c dst))"
    "firstManaged (chunk_arch w (sl_c dst)) \<le> firstTag (chunk_arch w (sl_c dst))"
    "firstBuffer (chunk_arch w src) \<le> firstManaged (chunk_arch w src)"
    "firstManaged (chunk_arch w src) \<le> firstTag (chunk_arch w src)"
    "increasing_on (valid_at w (sl_c dst)) {0..<firstTag (chunk_arch w (sl_c dst))}"
    "increasing_on (valid_at w src) {0..<firstTag (chunk_arch w src)}"
  using assms by (simp_all add: cast_setup_def rows_ok_def columns_disjoint_def)

lemma phase_other:
  assumes "cast_setup w dst src i" "da = chunk_arch w (sl_c dst)"
  shows "\<forall>j < firstBuffer da. x \<notin> cells w (sl_c dst) (sl_start dst) (sl_count dst) j \<Longrightarrow>
      bytes_of (cast_pods dst src i w) (sl_c dst) x = bytes_of w (sl_c dst) x"
    and "\<forall>j. firstBuffer da \<le> j \<and> j < firstManaged da \<longrightarrow> x \<notin> cells w (sl_c dst) (sl_start dst) (sl_count dst) j \<Longrightarrow>
      bytes_of (cast_buffers dst src i dd w) (sl_c dst) x = bytes_of w (sl_c dst) x"
    and "\<forall>j. firstManaged da \<le> j \<and> j < firstTag da \<longrightarrow> x \<notin> cells w (sl_c dst) (sl_start dst) (sl_count dst) j \<Longrightarrow>
      bytes_of (cast_managed dst src i w) (sl_c dst) x = bytes_of w (sl_c dst) x"
proof -
  note f = setup_facts [OF assms(1)]
  show "bytes_of (cast_pods dst src i w) (sl_c dst) x = bytes_of w (sl_c dst) x"
    if "\<forall>j < firstBuffer da. x \<notin> cells w (sl_c dst) (sl_start dst) (sl_count dst) j"
    unfolding cast_pods_def Let_def
    by (rule cast_range_other [OF cast_pods_laws [OF f(1)] subset_refl subset_refl]) (use that assms(2) in auto)
  show "bytes_of (cast_buffers dst src i dd w) (sl_c dst) x = bytes_of w (sl_c dst) x"
    if "\<forall>j. firstBuffer da \<le> j \<and> j < firstManaged da \<longrightarrow> x \<notin> cells w (sl_c dst) (sl_start dst) (sl_count dst) j"
    unfolding cast_buffers_def Let_def
    by (rule cast_range_other [OF cast_buffers_laws [OF f(1,2) subset_refl] subset_refl subset_refl]) (use that assms(2) in auto)
  show "bytes_of (cast_managed dst src i w) (sl_c dst) x = bytes_of w (sl_c dst) x"
    if "\<forall>j. firstManaged da \<le> j \<and> j < firstTag da \<longrightarrow> x \<notin> cells w (sl_c dst) (sl_start dst) (sl_count dst) j"
    unfolding cast_managed_def Let_def
    by (rule cast_range_other [OF cast_managed_laws [OF f(1,2) subset_refl f(3) subset_refl] subset_refl subset_refl])
       (use that assms(2) in auto)
qed

lemma valid_at_range:
  "increasing_on (valid_at w c) {0..<ft} \<Longrightarrow> hi \<le> ft \<Longrightarrow>
   increasing_on (\<lambda>i. to_valid_type (w_ctx w) (g_types (chunk_arch w c) ! i)) {lo..<hi}"
  using increasing_on_mono [of "valid_at w c" "{0..<ft}" "{lo..<hi}"] by (simp add: valid_at_def [abs_def])

lemma phase_moved:
  assumes "cast_setup w dst src i0" "da = chunk_arch w (sl_c dst)" "sa = chunk_arch w src"
    and eq: "valid_at w src i = valid_at w (sl_c dst) j"
    and x: "x \<in> cells w (sl_c dst) (sl_start dst) (sl_count dst) j"
    and sz: "sizes sa ! i = sizes da ! j"
  defines "y \<equiv> cell_addr w src i i0 + (x - cell_addr w (sl_c dst) j (sl_start dst))"
  shows "i < firstBuffer sa \<Longrightarrow> j < firstBuffer da \<Longrightarrow>
      bytes_of (cast_pods dst src i0 w) (sl_c dst) x = bytes_of w src y"
    and "firstBuffer sa \<le> i \<Longrightarrow> i < firstManaged sa \<Longrightarrow> firstBuffer da \<le> j \<Longrightarrow> j < firstManaged da \<Longrightarrow>
      bytes_of (cast_buffers dst src i0 dd w) (sl_c dst) x = bytes_of w src y"
    and "firstManaged sa \<le> i \<Longrightarrow> i < firstTag sa \<Longrightarrow> firstManaged da \<le> j \<Longrightarrow> j < firstTag da \<Longrightarrow>
      bytes_of (cast_managed dst src i0 w) (sl_c dst) x = bytes_of w src y"
proof -
  note f = setup_facts [OF assms(1)]
  have dj: "cells w (sl_c dst) (sl_start dst) (sl_count dst) j \<inter> cells w (sl_c dst) (sl_start dst) (sl_count dst) j' = {}"
    if "j < firstTag da" "j' < firstTag da" "j \<noteq> j'" for j j'
    using rows_ok_disjoint [of w "sl_c dst" "sl_start dst" "sl_count dst" j j'] assms(1,2) that
    by (auto simp: cast_setup_def)
  have e: "to_valid_type (w_ctx w) (g_types (chunk_arch w src) ! i)
      = to_valid_type (w_ctx w) (g_types (chunk_arch w (sl_c dst)) ! j)"
    using eq by (simp add: valid_at_def)
  have y: "y \<notin> {cell_addr w src i' i0..<cell_addr w src i' i0 + sizes (chunk_arch w src) ! i' * sl_count dst}"
    if "i < firstTag sa" "i' < firstTag sa" "i' \<noteq> i" for i'
  proof -
    have "y \<in> {cell_addr w src i i0..<cell_addr w src i i0 + sizes (chunk_arch w src) ! i * sl_count dst}"
      using x sz assms(2,3) by (auto simp: y_def)
    moreover have "rows_ok w src i0 (sl_count dst)" using assms(1) by (simp add: cast_setup_def)
    ultimately show ?thesis
      using rows_ok_disjoint [of w src i0 "sl_count dst" i i'] that assms(3) by blast
  qed
  show "bytes_of (cast_pods dst src i0 w) (sl_c dst) x = bytes_of w src y"
    if "i < firstBuffer sa" "j < firstBuffer da"
    unfolding cast_pods_def Let_def y_def
    by (rule cast_range_moved [OF cast_pods_laws [OF f(1), where S = "\<lambda>_. {}"] subset_refl subset_refl,
          where i = i and j = j])
       (use that e x f dj assms(2,3) in \<open>auto intro!: valid_at_range\<close>)
  show "bytes_of (cast_buffers dst src i0 dd w) (sl_c dst) x = bytes_of w src y"
    if "firstBuffer sa \<le> i" "i < firstManaged sa" "firstBuffer da \<le> j" "j < firstManaged da"
    unfolding cast_buffers_def Let_def y_def
    by (rule cast_range_moved [OF cast_buffers_laws [OF f(1,2) subset_refl, where S = "\<lambda>_. {}"] subset_refl subset_refl,
          where i = i and j = j])
       (use that e x f dj assms(2,3) in \<open>auto intro!: valid_at_range\<close>)
  show "bytes_of (cast_managed dst src i0 w) (sl_c dst) x = bytes_of w src y"
    if "firstManaged sa \<le> i" "i < firstTag sa" "firstManaged da \<le> j" "j < firstTag da"
    unfolding cast_managed_def Let_def y_def
    by (rule cast_range_moved [OF cast_managed_laws [OF f(1,2) subset_refl f(3) subset_refl] subset_refl subset_refl,
          where i = i and j = j])
       (use that e x f dj y assms(2,3) in \<open>auto intro!: valid_at_range simp: y_def\<close>)
qed

lemma cast_pods_constructed:
  assumes "cast_setup w dst src i0" "da = chunk_arch w (sl_c dst)" "sa = chunk_arch w src"
    and j: "j < firstBuffer da" "\<And>i. i < firstBuffer sa \<Longrightarrow> valid_at w src i \<noteq> valid_at w (sl_c dst) j"
    and x: "x \<in> cells w (sl_c dst) (sl_start dst) (sl_count dst) j"
  shows "bytes_of (cast_pods dst src i0 w) (sl_c dst) x = 0"
proof -
  note f = setup_facts [OF assms(1)]
  have dj: "cells w (sl_c dst) (sl_start dst) (sl_count dst) j \<inter> cells w (sl_c dst) (sl_start dst) (sl_count dst) j' = {}"
    if "j < firstTag da" "j' < firstTag da" "j \<noteq> j'" for j j'
    using rows_ok_disjoint [of w "sl_c dst" "sl_start dst" "sl_count dst" j j'] assms(1,2) that
    by (auto simp: cast_setup_def)
  show ?thesis
    unfolding cast_pods_def Let_def
    by (rule cast_range_constructed [OF cast_pods_laws [OF f(1), where S = "\<lambda>_. {}"] subset_refl subset_refl,
          where j = j])
       (use f dj j x assms(2,3) in \<open>auto simp: valid_at_def memset_def\<close>)
qed

section \<open>The mask phase\<close>

lemma mask_merge_stuck:
  "mask_merge st dt sn dn s srcI dstI d = Some r \<Longrightarrow> \<not> (srcI < sn \<and> dstI < dn)"
proof (erule mask_merge.raw_induct [rotated, where P = "\<lambda>st dt sn dn s srcI dstI d r. \<not> (srcI < sn \<and> dstI < dn)"])
  fix mm st dt sn dn s srcI dstI d r
  assume "\<And>st dt sn dn s srcI dstI d r. mm st dt sn dn s srcI dstI d = Some r \<Longrightarrow> \<not> (srcI < sn \<and> dstI < dn)"
    "(if srcI < sn \<and> dstI < dn then
        Option.bind (if st srcI < dt dstI then Some d
                     else if st srcI > dt dstI then mask_set dstI d
                     else if bit s srcI then mask_set dstI d else Some d)
          (mm st dt sn dn s srcI dstI)
      else mask_fill dn dstI d) = Some r"
  then show "\<not> (srcI < sn \<and> dstI < dn)"
    by (auto simp: bind_eq_Some_conv)
qed

lemma mask_merge_None: "srcI < sn \<Longrightarrow> dstI < dn \<Longrightarrow> mask_merge st dt sn dn s srcI dstI d = None"
  using mask_merge_stuck by fastforce

lemma for_up_opt_0 [simp]: "for_up_opt f i i s = Some s"
  by (simp add: for_up_opt_def)

lemma for_up_opt_None:
  assumes "i < n" "\<And>s. f i s = None"
  shows "for_up_opt f i n s = None"
proof -
  have "fold (\<lambda>k r. Option.bind r (f k)) xs None = None" for xs by (induction xs) simp_all
  then show ?thesis using assms by (simp add: for_up_opt_def upt_conv_Cons)
qed

lemma arch_index_found: "arch_index a t \<noteq> InvalidIndex \<Longrightarrow> g_types a \<noteq> []"
  by (auto simp: arch_index_def types_index_def lower_bound_def Let_def)

definition both_masked :: "world \<Rightarrow> ptr \<Rightarrow> ptr \<Rightarrow> bool" where
  "both_masked w src c \<longleftrightarrow> arch_index (chunk_arch w src) (mask_id (w_ctx w)) \<noteq> InvalidIndex
     \<and> arch_index (chunk_arch w c) (mask_id (w_ctx w)) \<noteq> InvalidIndex"

lemma cast_masks_cases:
  assumes "componentCount (chunk_arch w src) = length (g_types (chunk_arch w src))"
    "componentCount (chunk_arch w (sl_c dst)) = length (g_types (chunk_arch w (sl_c dst)))"
  shows "cast_masks dst src i w =
    (if both_masked w src (sl_c dst) then (if sl_count dst = 0 then Some w else None)
     else let c = sl_c dst; dm = arch_index (chunk_arch w c) (mask_id (w_ctx w)) in
       Some (if dm = InvalidIndex then w
             else on_mem c (\<lambda>m. memset m (cell_addr w c dm (sl_start dst)) (-1)
                                  (sizes (chunk_arch w c) ! dm * sl_count dst)) w))"
proof (cases "both_masked w src (sl_c dst)")
  case True
  then have "0 < componentCount (chunk_arch w src)" "0 < componentCount (chunk_arch w (sl_c dst))"
    using assms by (auto simp: both_masked_def dest: arch_index_found)
  then show ?thesis
    using True by (auto simp: cast_masks_def Let_def both_masked_def mask_merge_None intro!: for_up_opt_None)
next
  case False
  then show ?thesis by (auto simp: cast_masks_def Let_def both_masked_def)
qed

section \<open>cast as a whole\<close>

lemma cell_in_cells:
  assumes "start \<le> r" "r < start + n" "b < sizes (chunk_arch w c) ! j"
  shows "cell_addr w c j r + b \<in> cells w c start n j"
  using row_in_slice [OF assms] by (simp add: cell_addr_def col_addr_def)

lemma phases_moved:
  assumes "cast_setup w dst src i0" "da = chunk_arch w (sl_c dst)" "sa = chunk_arch w src"
    and "same_kind sa i da j" "valid_at w src i = valid_at w (sl_c dst) j" "sizes sa ! i = sizes da ! j"
    and x: "x \<in> cells w (sl_c dst) (sl_start dst) (sl_count dst) j"
  shows "bytes_of (cast_managed dst src i0 (cast_buffers dst src i0 dd (cast_pods dst src i0 w))) (sl_c dst) x
    = bytes_of w src (cell_addr w src i i0 + (x - cell_addr w (sl_c dst) j (sl_start dst)))"
proof -
  let ?w1 = "cast_pods dst src i0 w" let ?w2 = "cast_buffers dst src i0 dd ?w1" let ?c = "sl_c dst"
  have p1: "same_places ?w1 w" and p2: "same_places ?w2 w"
    using cast_phase_places same_places_trans by blast+
  note f = setup_facts [OF assms(1)]
  have s1: "cast_setup ?w1 dst src i0" "cast_setup ?w2 dst src i0"
    using assms(1) p1 p2 same_places_setup by blast+
  have e1: "chunk_arch ?w1 = chunk_arch w" "cell_addr ?w1 = cell_addr w" "valid_at ?w1 = valid_at w"
    and e2: "chunk_arch ?w2 = chunk_arch w" "cell_addr ?w2 = cell_addr w" "valid_at ?w2 = valid_at w"
    using p1 p2 by (simp_all add: same_places_def valid_at_def [abs_def])
  have src: "bytes_of ?w1 src = bytes_of w src" "bytes_of ?w2 src = bytes_of w src"
    using cast_phase_source [OF f(1)] by simp_all
  have out: "x \<notin> cells w ?c (sl_start dst) (sl_count dst) j'" if "j' < firstTag da" "j' \<noteq> j" "j < firstTag da" for j'
    using rows_ok_disjoint [of w ?c "sl_start dst" "sl_count dst" j' j] x that assms(1,2)
    by (auto simp: cast_setup_def)
  consider (p) "i < firstBuffer sa" "j < firstBuffer da"
    | (b) "firstBuffer sa \<le> i" "i < firstManaged sa" "firstBuffer da \<le> j" "j < firstManaged da"
    | (m) "firstManaged sa \<le> i" "i < firstTag sa" "firstManaged da \<le> j" "j < firstTag da"
    using assms(4) by (auto simp: same_kind_def)
  then show ?thesis
  proof cases
    case p
    have "bytes_of (cast_managed dst src i0 ?w2) ?c x = bytes_of ?w2 ?c x"
      by (rule phase_other(3) [OF s1(2)]) (use out p f assms(2) in \<open>auto simp: e2\<close>)
    also have "\<dots> = bytes_of ?w1 ?c x"
      by (rule phase_other(2) [OF s1(1)]) (use out p f assms(2) in \<open>auto simp: e1\<close>)
    also have "\<dots> = bytes_of w src (cell_addr w src i i0 + (x - cell_addr w ?c j (sl_start dst)))"
      by (rule phase_moved(1) [OF assms(1,2,3,5) x assms(6) p])
    finally show ?thesis .
  next
    case b
    have "bytes_of (cast_managed dst src i0 ?w2) ?c x = bytes_of ?w2 ?c x"
      by (rule phase_other(3) [OF s1(2)]) (use out b f assms(2) in \<open>auto simp: e2\<close>)
    also have "\<dots> = bytes_of ?w1 src (cell_addr w src i i0 + (x - cell_addr w ?c j (sl_start dst)))"
      using phase_moved(2) [OF s1(1), of da sa i j x dd] assms(2,3,5,6) x b by (simp add: e1)
    finally show ?thesis using src by simp
  next
    case m
    then show ?thesis
      using phase_moved(3) [OF s1(2), of da sa i j x] assms(2,3,5,6) x src by (simp add: e2)
  qed
qed

lemma phases_constructed:
  assumes "cast_setup w dst src i0" "da = chunk_arch w (sl_c dst)" "sa = chunk_arch w src"
    and "j < firstBuffer da" "\<And>i. i < firstBuffer sa \<Longrightarrow> valid_at w src i \<noteq> valid_at w (sl_c dst) j"
    and x: "x \<in> cells w (sl_c dst) (sl_start dst) (sl_count dst) j"
  shows "bytes_of (cast_managed dst src i0 (cast_buffers dst src i0 dd (cast_pods dst src i0 w))) (sl_c dst) x = 0"
proof -
  let ?w1 = "cast_pods dst src i0 w" let ?w2 = "cast_buffers dst src i0 dd ?w1" let ?c = "sl_c dst"
  have p: "same_places ?w1 w" "same_places ?w2 w"
    using cast_phase_places same_places_trans by blast+
  note f = setup_facts [OF assms(1)]
  have s1: "cast_setup ?w1 dst src i0" "cast_setup ?w2 dst src i0"
    using assms(1) p same_places_setup by blast+
  have e: "chunk_arch ?w1 = chunk_arch w" "cell_addr ?w1 = cell_addr w"
    "chunk_arch ?w2 = chunk_arch w" "cell_addr ?w2 = cell_addr w"
    using p by (simp_all add: same_places_def)
  have out: "x \<notin> cells w ?c (sl_start dst) (sl_count dst) j'" if "j' < firstTag da" "j' \<noteq> j" for j'
    using rows_ok_disjoint [of w ?c "sl_start dst" "sl_count dst" j' j] x that assms(1,2,4) f
    by (auto simp: cast_setup_def)
  have "bytes_of (cast_managed dst src i0 ?w2) ?c x = bytes_of ?w2 ?c x"
    by (rule phase_other(3) [OF s1(2)]) (use out assms(2,4) f in \<open>auto simp: e\<close>)
  also have "\<dots> = bytes_of ?w1 ?c x"
    by (rule phase_other(2) [OF s1(1)]) (use out assms(2,4) f in \<open>auto simp: e\<close>)
  finally show ?thesis using cast_pods_constructed [OF assms(1-5) x] by simp
qed

lemma phases_other:
  assumes "cast_setup w dst src i0" "da = chunk_arch w (sl_c dst)"
    and "\<forall>j < firstTag da. x \<notin> cells w (sl_c dst) (sl_start dst) (sl_count dst) j"
  shows "bytes_of (cast_managed dst src i0 (cast_buffers dst src i0 dd (cast_pods dst src i0 w))) (sl_c dst) x
    = bytes_of w (sl_c dst) x"
proof -
  let ?w1 = "cast_pods dst src i0 w" let ?w2 = "cast_buffers dst src i0 dd ?w1" let ?c = "sl_c dst"
  have p: "same_places ?w1 w" "same_places ?w2 w"
    using cast_phase_places same_places_trans by blast+
  note f = setup_facts [OF assms(1)]
  have s1: "cast_setup ?w1 dst src i0" "cast_setup ?w2 dst src i0"
    using assms(1) p same_places_setup by blast+
  have e: "chunk_arch ?w1 = chunk_arch w" "cell_addr ?w1 = cell_addr w"
    "chunk_arch ?w2 = chunk_arch w" "cell_addr ?w2 = cell_addr w"
    using p by (simp_all add: same_places_def)
  have "bytes_of (cast_managed dst src i0 ?w2) ?c x = bytes_of ?w2 ?c x"
    by (rule phase_other(3) [OF s1(2)]) (use assms(2,3) f in \<open>auto simp: e\<close>)
  also have "\<dots> = bytes_of ?w1 ?c x"
    by (rule phase_other(2) [OF s1(1)]) (use assms(2,3) f in \<open>auto simp: e\<close>)
  also have "\<dots> = bytes_of w ?c x"
    by (rule phase_other(1) [OF assms(1,2)]) (use assms(3) f assms(2) in auto)
  finally show ?thesis .
qed

text \<open>The rows after the three phases and the mask.\<close>

lemma cast_phases_rows:
  assumes su: "cast_setup w dst src i0" and "c = sl_c dst" "da = chunk_arch w c" "sa = chunk_arch w src" "n = sl_count dst"
    and cc: "componentCount sa = length (g_types sa)" "componentCount da = length (g_types da)"
    and dm: "dm = arch_index da (mask_id (w_ctx w))" "dm \<noteq> InvalidIndex \<longrightarrow> dm < firstBuffer da"
    and sz: "\<forall>i j. same_kind sa i da j \<and> valid_at w src i = valid_at w c j \<longrightarrow> sizes sa ! i = sizes da ! j"
    and w3: "w3 = cast_managed dst src i0 (cast_buffers dst src i0 destruct (cast_pods dst src i0 w))"
    and w': "w' = (if dm = InvalidIndex \<or> n = 0 then w3
             else on_mem c (\<lambda>m. memset m (cell_addr w c dm (sl_start dst)) (-1) (sizes da ! dm * n)) w3)"
  shows "same_places w' w
    \<and> (\<forall>i j r b. same_kind sa i da j \<and> valid_at w src i = valid_at w c j \<and> j \<noteq> dm \<and> r < n \<and> b < sizes da ! j \<longrightarrow>
             row_byte w' c j (sl_start dst + r) b = row_byte w src i (i0 + r) b)
    \<and> (\<forall>j r b. j < firstBuffer da \<and> (\<forall>i < firstBuffer sa. valid_at w src i \<noteq> valid_at w c j) \<and> r < n \<and> b < sizes da ! j \<longrightarrow>
             row_byte w' c j (sl_start dst + r) b = (if dm \<noteq> InvalidIndex \<and> j = dm then -1 else 0))
    \<and> (\<forall>x. (\<forall>j < firstTag da. x \<notin> cells w c (sl_start dst) n j) \<longrightarrow> bytes_of w' c x = bytes_of w c x)"
proof -
  have p: "same_places w3 w"
    unfolding w3 by (rule same_places_trans [OF cast_phase_places(3) same_places_trans [OF cast_phase_places(2,1)]])
  note f = setup_facts [OF su, folded assms(2), folded assms(3,4)]
  have out: "x \<notin> cells w c (sl_start dst) n j'"
    if "x \<in> cells w c (sl_start dst) n j" "j < firstTag da" "j' < firstTag da" "j' \<noteq> j" for x j j'
    using rows_ok_disjoint [of w c "sl_start dst" n j j'] su assms(2,3,5) that by (auto simp: cast_setup_def)
  have P: "same_places w' w"
    using p same_places_trans [OF same_places_ops(1) p] unfolding w' by (simp split: if_split)
  then have e': "cell_addr w' = cell_addr w" by (simp add: same_places_def)
  have bytes: "bytes_of w' c x = (if dm \<noteq> InvalidIndex \<and> x \<in> cells w c (sl_start dst) n dm then -1 else bytes_of w3 c x)" for x
    using assms(3) unfolding w' by (auto simp: memset_def)
  show ?thesis
  proof (intro conjI allI impI)
    show "same_places w' w" by (rule P)
  next
    fix i j r b assume a: "same_kind sa i da j \<and> valid_at w src i = valid_at w c j \<and> j \<noteq> dm \<and> r < n \<and> b < sizes da ! j"
    let ?x = "cell_addr w c j (sl_start dst + r) + b"
    have x: "?x \<in> cells w c (sl_start dst) n j"
      using cell_in_cells [of "sl_start dst" "sl_start dst + r" n b w c j] a assms(3) by auto
    have j: "j < firstTag da" using a f by (auto simp: same_kind_def)
    have "bytes_of w' c ?x = bytes_of w3 c ?x"
      using bytes out [OF x j, of dm] a dm(2) f by auto
    also have "\<dots> = bytes_of w src (cell_addr w src i i0 + (?x - cell_addr w c j (sl_start dst)))"
      unfolding w3 using phases_moved [OF su, of da sa i j ?x destruct] a x sz assms(2-5) by auto
    also have "cell_addr w src i i0 + (?x - cell_addr w c j (sl_start dst)) = cell_addr w src i (i0 + r) + b"
      using sz [rule_format, of i j] a assms(3,4) by (simp add: cell_addr_def col_addr_def distrib_left)
    finally show "row_byte w' c j (sl_start dst + r) b = row_byte w src i (i0 + r) b"
      by (simp add: row_byte_def e')
  next
    fix j r b assume a: "j < firstBuffer da \<and> (\<forall>i < firstBuffer sa. valid_at w src i \<noteq> valid_at w c j) \<and> r < n \<and> b < sizes da ! j"
    let ?x = "cell_addr w c j (sl_start dst + r) + b"
    have x: "?x \<in> cells w c (sl_start dst) n j"
      using cell_in_cells [of "sl_start dst" "sl_start dst + r" n b w c j] a assms(3) by auto
    have j: "j < firstTag da" using a f by auto
    have "bytes_of w3 c ?x = 0"
      unfolding w3 using phases_constructed [OF su, of da sa j ?x destruct] a x assms(2-5) by auto
    then show "row_byte w' c j (sl_start dst + r) b = (if dm \<noteq> InvalidIndex \<and> j = dm then -1 else 0)"
      using bytes [of ?x] x out [OF x j, of dm] dm(2) f a
      by (cases "dm = InvalidIndex"; cases "j = dm") (auto simp: row_byte_def e')
  next
    fix x assume a: "\<forall>j < firstTag da. x \<notin> cells w c (sl_start dst) n j"
    then have "bytes_of w3 c x = bytes_of w c x"
      unfolding w3 using phases_other [OF su, of da x destruct] assms(2-5) by auto
    then show "bytes_of w' c x = bytes_of w c x"
      using bytes a dm(2) f by auto
  qed
qed

lemma chunk_cast_rows:
  assumes su: "cast_setup w dst src i0" and "c = sl_c dst" "da = chunk_arch w c" "sa = chunk_arch w src" "n = sl_count dst"
    and cc: "componentCount sa = length (g_types sa)" "componentCount da = length (g_types da)"
    and dm: "dm = arch_index da (mask_id (w_ctx w))" "dm \<noteq> InvalidIndex \<longrightarrow> dm < firstBuffer da"
    and sz: "\<forall>i j. same_kind sa i da j \<and> valid_at w src i = valid_at w c j \<longrightarrow> sizes sa ! i = sizes da ! j"
  shows "(chunk_cast dst src i0 destruct w = None \<longleftrightarrow> both_masked w src c \<and> 0 < n)
    \<and> (\<forall>w'. chunk_cast dst src i0 destruct w = Some w' \<longrightarrow> same_places w' w
        \<and> (\<forall>i j r b. same_kind sa i da j \<and> valid_at w src i = valid_at w c j \<and> j \<noteq> dm \<and> r < n \<and> b < sizes da ! j \<longrightarrow>
             row_byte w' c j (sl_start dst + r) b = row_byte w src i (i0 + r) b)
        \<and> (\<forall>j r b. j < firstBuffer da \<and> (\<forall>i < firstBuffer sa. valid_at w src i \<noteq> valid_at w c j) \<and> r < n \<and> b < sizes da ! j \<longrightarrow>
             row_byte w' c j (sl_start dst + r) b = (if dm \<noteq> InvalidIndex \<and> j = dm then -1 else 0))
        \<and> (\<forall>x. (\<forall>j < firstTag da. x \<notin> cells w c (sl_start dst) n j) \<longrightarrow> bytes_of w' c x = bytes_of w c x))"
proof -
  let ?w1 = "cast_pods dst src i0 w" let ?w2 = "cast_buffers dst src i0 destruct ?w1"
  let ?w3 = "cast_managed dst src i0 ?w2"
  have p: "same_places ?w3 w"
    by (rule same_places_trans [OF cast_phase_places(3) same_places_trans [OF cast_phase_places(2,1)]])
  have e: "chunk_arch ?w3 = chunk_arch w" "cell_addr ?w3 = cell_addr w" "w_ctx ?w3 = w_ctx w"
    using p by (simp_all add: same_places_def)
  have i0: "u16 i0 = i0" using su by (simp add: cast_setup_def u16_small)
  have cm: "chunk_cast dst src i0 destruct w = cast_masks dst src i0 ?w3"
    by (simp add: chunk_cast_def Let_def i0)
  have bm: "both_masked ?w3 src c = both_masked w src c" by (simp add: both_masked_def e)
  have cases: "chunk_cast dst src i0 destruct w =
    (if both_masked w src c then (if n = 0 then Some ?w3 else None)
     else Some (if dm = InvalidIndex then ?w3
             else on_mem c (\<lambda>m. memset m (cell_addr w c dm (sl_start dst)) (-1) (sizes da ! dm * n)) ?w3))"
    unfolding cm by (subst cast_masks_cases) (use assms(2-5) cc dm(1) bm in \<open>simp_all add: e Let_def\<close>)
  note res = cast_phases_rows [OF assms refl, where destruct = destruct]
  show ?thesis
  proof (cases "both_masked w src c")
    case True
    show ?thesis
    proof (cases "n = 0")
      case n0: True
      then show ?thesis using res True by (simp add: cases)
    next
      case False
      then show ?thesis using True by (simp add: cases)
    qed
  next
    case False
    have "memset m a v 0 = m" for m a v by (auto simp: memset_def fun_eq_iff)
    then have z: "on_mem c (\<lambda>m. memset m a v 0) v' = v'" for a v v' by simp
    show ?thesis
      using False res [OF refl] by (cases "n = 0") (auto simp: cases z split: if_splits)
  qed
qed


lemma pair_setup: "cast_setup pair_world \<lparr>sl_c = 2, sl_start = 1, sl_count = 2\<rparr> 3 0"
  by (auto simp: cast_setup_def rows_ok_def pair_arch columns_disjoint_def components_local_def increasing_on_def
      valid_at_def padded_valid less_2_cases_iff)


end
