(* ===== verification/Chunk_Copy.thy ===== *)
theory Chunk_Copy
  imports Chunk_Rows
begin

text \<open>
  The copying operations of \<open>chunk\<close>: the doubling copy \<open>memdup\<close>, \<open>move\<close> within a chunk and
  between chunks, and \<open>duplicate\<close>, which is right as long as both chunks come from the same
  bin; with different bins it addresses the destination with the source's offsets.
\<close>

section \<open>memdup\<close>

lemma memdup_loop_rows:
  assumes "\<And>j k. j < copied \<Longrightarrow> k < n \<Longrightarrow> m (d + j * n + k) = v k" "0 < copied"
  shows "(\<forall>j k. j < max copied count \<and> k < n \<longrightarrow> memdup_loop d n copied count m (d + j * n + k) = v k)
    \<and> (\<forall>x. \<not> (d + copied * n \<le> x \<and> x < d + count * n) \<longrightarrow> memdup_loop d n copied count m x = m x)"
  using assms
proof (induction d n copied count m rule: memdup_loop.induct)
  case (1 d n copied count m)
  show ?case
  proof (cases "copied < count")
    case False
    then show ?thesis using 1(2,3) by (simp add: memdup_loop.simps [of d n copied count m] max_def)
  next
    case True
    let ?t = "min copied (count - copied)" let ?m = "memcpy m (d + copied * n) m d (?t * n)"
    have g: "0 < copied \<and> copied < count" using True 1(3) by simp
    have step: "memdup_loop d n copied count m = memdup_loop d n (copied + ?t) count ?m"
      using g by (simp add: memdup_loop.simps [of d n copied count m] Let_def)
    have rows: "?m (d + j * n + k) = v k" if j: "j < copied + ?t" and k: "k < n" for j k
    proof (cases "j < copied")
      case True
      then have "Suc j * n \<le> copied * n" by (intro mult_le_mono1) simp
      then show ?thesis using 1(2) [OF True k] k by (simp add: memcpy_out)
    next
      case False
      have "Suc j * n \<le> (copied + ?t) * n" using j by (intro mult_le_mono1) simp
      moreover have "copied * n \<le> j * n" using False by (intro mult_le_mono1) simp
      moreover have e: "d + (d + j * n + k - (d + copied * n)) = d + (j - copied) * n + k"
        using diff_mult_distrib [of j copied n] \<open>copied * n \<le> j * n\<close> by linarith
      ultimately have "?m (d + j * n + k) = m (d + (d + j * n + k - (d + copied * n)))"
        using k by (intro memcpy_in) (unfold mult_Suc distrib_right, linarith+)
      then show ?thesis
        unfolding e using 1(2) [of "j - copied" k] j k False by simp
    qed
    have IH: "(\<forall>j k. j < max (copied + ?t) count \<and> k < n \<longrightarrow> memdup_loop d n (copied + ?t) count ?m (d + j * n + k) = v k)
      \<and> (\<forall>x. \<not> (d + (copied + ?t) * n \<le> x \<and> x < d + count * n) \<longrightarrow> memdup_loop d n (copied + ?t) count ?m x = ?m x)"
      by (rule 1(1) [OF g refl rows]) (use g in auto)
    have le: "(copied + ?t) * n \<le> count * n" by (intro mult_le_mono1) (use True in auto)
    have out: "memdup_loop d n copied count m x = m x"
      if x: "\<not> (d + copied * n \<le> x \<and> x < d + count * n)" for x
    proof -
      have "\<not> (d + (copied + ?t) * n \<le> x \<and> x < d + count * n)" using x by (auto simp: distrib_right)
      moreover have "?m x = m x" using x le by (intro memcpy_out) (auto simp: distrib_right)
      ultimately show ?thesis using IH step by simp
    qed
    show ?thesis using IH out step True by auto
  qed
qed

lemma memdup_rows:
  assumes "j < count" "k < n"
  shows "memdup d sm s n count m (d + j * n + k) = sm (s + k)"
proof -
  have "memcpy m d sm s n (d + j' * n + k') = sm (s + k')" if "j' < 1" "k' < n" for j' k'
    using that by (simp add: memcpy_in)
  from memdup_loop_rows [of 1 n "memcpy m d sm s n" d "\<lambda>k. sm (s + k)" count, OF this]
  show ?thesis using assms by (simp add: memdup_def)
qed

lemma memdup_stays: "0 < count \<Longrightarrow> stays_in (memdup d sm s n count) d (n * count)"
  unfolding stays_in_def
proof (intro allI impI)
  fix m x assume c: "0 < count" and x: "\<not> (d \<le> x \<and> x < d + n * count)"
  have "memcpy m d sm s n (d + j' * n + k') = sm (s + k')" if "j' < 1" "k' < n" for j' k'
    using that by (simp add: memcpy_in)
  from memdup_loop_rows [of 1 n "memcpy m d sm s n" d "\<lambda>k. sm (s + k)" count, OF this]
  have "memdup d sm s n count m x = memcpy m d sm s n x"
    using x by (simp add: memdup_def mult.commute)
  moreover have "n \<le> n * count" using c by (cases count) simp_all
  ultimately show "memdup d sm s n count m x = m x"
    using x by (simp only:) (intro memcpy_out, linarith)
qed

section \<open>move\<close>

lemma move_within_bytes:
  assumes "c = sl_c dst" "a = chunk_arch w c" "columns_disjoint a (c_ct (chunks w c))" "n = sl_count dst"
    and "sl_start dst + n \<le> chunkCapacity a (c_ct (chunks w c))" "srcIndex + n \<le> chunkCapacity a (c_ct (chunks w c))"
    and "srcIndex < 2 ^ 16" "w' = chunk_move_within dst srcIndex w"
  shows "(\<forall>k r b. k < firstTag a \<and> r < n \<and> b < sizes a ! k \<longrightarrow>
            row_byte w' c k (sl_start dst + r) b = row_byte w c k (srcIndex + r) b)
    \<and> (\<forall>x. (\<forall>k < firstTag a. \<not> (cell_addr w c k (sl_start dst) \<le> x
                                   \<and> x < cell_addr w c k (sl_start dst) + sizes a ! k * n)) \<longrightarrow>
           bytes_of w' c x = bytes_of w c x)"
proof -
  let ?at = "\<lambda>i. cell_addr w c i (sl_start dst)" and ?s = "\<lambda>i. cell_addr w c i srcIndex"
  let ?f = "\<lambda>i m. memcpy m (?at i) m (?s i) (n * sizes a ! i)" and ?m = "bytes_of w c"
  have addr: "cell_addr w c k i = col_addr a (c_ct (chunks w c)) k i" for k i
    using assms(2) by (simp add: cell_addr_def)
  have w': "w' = on_mem c (for_up ?f 0 (firstTag a)) w"
    using assms by (simp add: chunk_move_within_def Let_def for_up_on_mem u16_small)
  then have e: "cell_addr w' c = cell_addr w c" by (simp add: fun_eq_iff)
  have st: "stays_in (?f i) (?at i) (sizes a ! i * n)" for i
    by (simp add: stays_in_def memcpy_def mult.commute)
  have dj: "\<not> (?at j \<le> y \<and> y < ?at j + sizes a ! j * n)"
    if "i < firstTag a" "j < firstTag a" "i \<noteq> j" "?at i \<le> y \<and> y < ?at i + sizes a ! i * n" for i j y
    using cells_disjoint [OF assms(3) that(1,2,3) assms(5,5)] that(4) by (simp add: addr)
  have A: "row_byte w' c k (sl_start dst + r) b = row_byte w c k (srcIndex + r) b"
    if k: "k < firstTag a" and r: "r < n" and b: "b < sizes a ! k" for k r b
  proof -
    let ?x = "cell_addr w c k (sl_start dst + r) + b"
    have x: "?at k \<le> ?x" "?x < ?at k + sizes a ! k * n"
      using row_in_slice [of "sl_start dst" "sl_start dst + r" n b "sizes a ! k" "offsets a (c_ct (chunks w c)) k"] r b
      by (simp_all add: addr col_addr_def)
    let ?m1 = "for_up ?f 0 k ?m"
    have pre: "?m1 y = ?m y" if y: "?s k \<le> y \<and> y < ?s k + sizes a ! k * n" for y
      by (rule for_up_outside [where base = ?at and len = "\<lambda>i. sizes a ! i * n"])
         (use st k y cells_disjoint [OF assms(3) k _ _ assms(6,5)] in \<open>auto simp: addr\<close>)
    have "for_up ?f 0 (firstTag a) ?m = for_up ?f (Suc k) (firstTag a) (?f k ?m1)"
      using k for_up_append [of 0 k "firstTag a" ?f ?m] for_up_step [of k "firstTag a" ?f ?m1] by simp
    moreover have "for_up ?f (Suc k) (firstTag a) (?f k ?m1) ?x = ?f k ?m1 ?x"
      by (rule for_up_outside [where base = ?at and len = "\<lambda>i. sizes a ! i * n"])
         (use st dj [of k] k x in auto)
    moreover have "?f k ?m1 ?x = ?m1 (?s k + (?x - ?at k))"
      using x by (simp add: memcpy_in mult.commute)
    moreover have "?x - ?at k = sizes a ! k * r + b"
      by (simp add: addr col_addr_def distrib_left)
    moreover have "?s k + (sizes a ! k * r + b) = cell_addr w c k (srcIndex + r) + b"
      by (simp add: addr col_addr_def distrib_left)
    moreover have "?s k \<le> cell_addr w c k (srcIndex + r) + b \<and> cell_addr w c k (srcIndex + r) + b < ?s k + sizes a ! k * n"
      using row_in_slice [of srcIndex "srcIndex + r" n b "sizes a ! k" "offsets a (c_ct (chunks w c)) k"] r b
      by (simp add: addr col_addr_def)
    ultimately show ?thesis using pre by (simp add: row_byte_def e w')
  qed
  moreover have "bytes_of w' c x = bytes_of w c x"
    if "\<forall>k < firstTag a. \<not> (?at k \<le> x \<and> x < ?at k + sizes a ! k * n)" for x
    unfolding w' on_mem_simps
    by (rule for_up_outside [where base = ?at and len = "\<lambda>i. sizes a ! i * n"]) (use st that in auto)
  ultimately show ?thesis by blast
qed

text \<open>C26. \<open>chunk::move\<close> within a chunk: row by row, every component of the destination slice
  gets the bytes it had at the source rows, and no byte outside the destination's cells
  changes.\<close>

theorem move_within_rows:
  assumes "c = sl_c dst" "a = chunk_arch w c" "columns_disjoint a (c_ct (chunks w c))" "n = sl_count dst"
    and "sl_start dst + n \<le> chunkCapacity a (c_ct (chunks w c))" "srcIndex + n \<le> chunkCapacity a (c_ct (chunks w c))"
    and "srcIndex < 2 ^ 16" "w' = chunk_move_within dst srcIndex w"
  shows "(\<forall>k r b. k < firstTag a \<and> r < n \<and> b < sizes a ! k \<longrightarrow>
            row_byte w' c k (sl_start dst + r) b = row_byte w c k (srcIndex + r) b)
    \<and> (\<forall>x. (\<forall>k < firstTag a. \<not> (cell_addr w c k (sl_start dst) \<le> x
                                   \<and> x < cell_addr w c k (sl_start dst) + sizes a ! k * n)) \<longrightarrow>
           bytes_of w' c x = bytes_of w c x)"
  by (rule move_within_bytes [OF assms])

section \<open>duplicate\<close>

text \<open>What \<open>duplicate\<close> does to a pod column, on the bytes of the destination.\<close>

definition dup_column :: "dots_context \<Rightarrow> (nat \<Rightarrow> GUID) \<Rightarrow> archetype \<Rightarrow> nat \<Rightarrow> (nat \<Rightarrow> nat) \<Rightarrow> bmem \<Rightarrow> (nat \<Rightarrow> nat) \<Rightarrow> nat \<Rightarrow> bmem \<Rightarrow> bmem" where
  "dup_column ctx gen a n d sm s i =
     (if g_types a ! i = guid_id ctx then for_up (\<lambda>j. wr_guid (d i + 16 * j) (gen j)) 0 n
      else memdup (d i) sm (s i) (sizes a ! i) n)"

lemma dup_pods:
  assumes "src \<noteq> c" "\<forall>i < fb. same i i"
  shows "for_up (\<lambda>i (dstI, w'). if \<not> same i dstI then (dstI, w')
              else (dstI + 1,
                    if g_types a ! i = guid_id ctx
                    then on_mem c (for_up (\<lambda>j. wr_guid (d i + 16 * j) (gen j)) 0 n) w'
                    else on_mem c (memdup (d i) (bytes_of w' src) (s i) (sizes a ! i) n) w'))
            0 fb (0, w)
    = (fb, on_mem c (for_up (dup_column ctx gen a n d (bytes_of w src) s) 0 fb) w)"
  using assms(2)
proof (induction fb)
  case 0
  have "for_up (dup_column ctx gen a n d (bytes_of w src) s) 0 0 = (\<lambda>m. m)" by (simp add: fun_eq_iff)
  then show ?case by simp
next
  case (Suc fb)
  have "for_up f 0 (Suc fb) = (\<lambda>m. f fb (for_up f 0 fb m))" for f :: "nat \<Rightarrow> bmem \<Rightarrow> bmem"
    by (simp add: for_up_Suc fun_eq_iff)
  then show ?case
    using Suc assms(1) by (simp add: for_up_Suc on_mem_comp dup_column_def)
qed

lemma wr_guid_stays: "stays_in (wr_guid a g) a 16"
  by (simp add: stays_in_def wr_guid_def)

lemma wr_guids_stay: "stays_in (for_up (\<lambda>j. wr_guid (d + 16 * j) (gen j)) 0 n) d (16 * n)"
  unfolding stays_in_def
proof (intro allI impI)
  fix m x assume x: "\<not> (d \<le> x \<and> x < d + 16 * n)"
  show "for_up (\<lambda>j. wr_guid (d + 16 * j) (gen j)) 0 n m x = m x"
    by (rule for_up_outside [where base = "\<lambda>j. d + 16 * j" and len = "\<lambda>_. 16"])
       (use wr_guid_stays x in auto)
qed

lemma wr_guids_row:
  assumes "j < n" "b < 16"
  shows "for_up (\<lambda>j. wr_guid (d + 16 * j) (gen j)) 0 n m (d + 16 * j + b) = of_nat (guid_bytes (gen j) ! b)"
proof -
  have "\<exists>m'. (\<forall>y. d + 16 * j \<le> y \<and> y < d + 16 * j + 16 \<longrightarrow> m' y = m y) \<and>
      for_up (\<lambda>j. wr_guid (d + 16 * j) (gen j)) 0 n m (d + 16 * j + b) = wr_guid (d + 16 * j) (gen j) m' (d + 16 * j + b)"
    by (rule for_up_region [where base = "\<lambda>j. d + 16 * j" and len = "\<lambda>_. 16"])
       (use wr_guid_stays assms in auto)
  then show ?thesis using assms by (auto simp: wr_guid_def)
qed

lemma clone_block_stays: "x < a \<or> a + 8 \<le> x \<Longrightarrow> fst (clone_block a s) x = fst s x"
  by (auto simp: clone_block_def buffer_malloc_def set_buf_d_def wr_out split: prod.splits)

definition copies_local :: "archetype \<Rightarrow> bool" where
  "copies_local a \<longleftrightarrow>
     (\<forall>i. firstBuffer a \<le> i \<and> i < firstManaged a \<longrightarrow> sizeof_buffer \<le> sizes a ! i)
   \<and> (\<forall>i d sm s. firstManaged a \<le> i \<and> i < firstTag a \<longrightarrow> stays_in (vt_do_copy a i d sm s 1) d (sizes a ! i))"

lemma row_stays:
  assumes "j < (n::nat)" "\<not> (d \<le> x \<and> x < d + sz * n)"
  shows "\<not> (d + sz * j \<le> x \<and> x < d + sz * j + sz)"
proof -
  have "sz * Suc j \<le> sz * n" using assms(1) by (intro mult_le_mono2) simp
  then show ?thesis using assms(2) by auto
qed

text \<open>The managed and the buffer columns leave the bytes of every other column alone.\<close>

lemma dup_managed_other:
  assumes "copies_local a" "\<And>i. firstManaged a \<le> i \<Longrightarrow> i < firstTag a \<Longrightarrow> \<not> (d i \<le> x \<and> x < d i + sizes a ! i * n)"
  shows "bytes_of (for_up (\<lambda>i. for_up (\<lambda>j w'.
      on_mem c (vt_do_copy a i (d i + sizes a ! i * j) (bytes_of w' src) (s i) 1) w') 0 n) (firstManaged a) (firstTag a) w) c x
    = bytes_of w c x"
proof (rule for_up_keeps [where g = "\<lambda>w. bytes_of w c x"])
  fix i w' assume i: "firstManaged a \<le> i" "i < firstTag a"
  show "bytes_of (for_up (\<lambda>j w'. on_mem c (vt_do_copy a i (d i + sizes a ! i * j) (bytes_of w' src) (s i) 1) w') 0 n w') c x
      = bytes_of w' c x"
  proof (rule for_up_keeps [where g = "\<lambda>w. bytes_of w c x"])
    fix j v assume "0 \<le> j" "j < n"
    from row_stays [OF this(2) assms(2) [OF i]] assms(1) i
    show "bytes_of (on_mem c (vt_do_copy a i (d i + sizes a ! i * j) (bytes_of v src) (s i) 1) v) c x = bytes_of v c x"
      by (auto simp: copies_local_def stays_in_def)
  qed
qed

lemma dup_buffers_other:
  assumes "copies_local a" "0 < n"
    "\<And>i. firstBuffer a \<le> i \<Longrightarrow> i < firstManaged a \<Longrightarrow> \<not> (d i \<le> x \<and> x < d i + sizes a ! i * n)"
  shows "bytes_of (snd (for_up (\<lambda>i (dstI, w').
      if \<not> same i dstI then (dstI, w')
      else (dstI + 1, for_up (\<lambda>j. on_bytes c (clone_block (j * sizes a ! i + d i))) 0 n
              (on_mem c (memdup (d i) (bytes_of w' src) (s i) (sizes a ! i) n) w')))
     (firstBuffer a) (firstManaged a) (k, w))) c x = bytes_of w c x"
proof -
  have col: "bytes_of (for_up (\<lambda>j. on_bytes c (clone_block (j * sizes a ! i + d i))) 0 n
              (on_mem c (memdup (d i) sm (s i) (sizes a ! i) n) v)) c x = bytes_of v c x"
    if i: "firstBuffer a \<le> i" "i < firstManaged a" for i sm v
  proof -
    have "bytes_of (for_up (\<lambda>j. on_bytes c (clone_block (j * sizes a ! i + d i))) 0 n u) c x = bytes_of u c x" for u
    proof (rule for_up_keeps [where g = "\<lambda>w. bytes_of w c x"])
      fix j v assume "0 \<le> j" "j < n"
      have "16 \<le> sizes a ! i" using assms(1) i by (simp add: copies_local_def sizeof_buffer_def)
      with row_stays [OF \<open>j < n\<close> assms(3) [OF i]]
      have "x < j * sizes a ! i + d i \<or> j * sizes a ! i + d i + 8 \<le> x" by (auto simp: mult.commute)
      from clone_block_stays [OF this]
      show "bytes_of (on_bytes c (clone_block (j * sizes a ! i + d i)) v) c x = bytes_of v c x" by simp
    qed
    moreover have "memdup (d i) sm (s i) (sizes a ! i) n m x = m x" for m
      using memdup_stays [OF assms(2)] assms(3) [OF i] by (simp add: stays_in_def)
    ultimately show ?thesis by simp
  qed
  have "(\<lambda>p. bytes_of (snd p) c x) (for_up (\<lambda>i (dstI, w').
      if \<not> same i dstI then (dstI, w')
      else (dstI + 1, for_up (\<lambda>j. on_bytes c (clone_block (j * sizes a ! i + d i))) 0 n
              (on_mem c (memdup (d i) (bytes_of w' src) (s i) (sizes a ! i) n) w')))
     (firstBuffer a) (firstManaged a) (k, w)) = (\<lambda>p. bytes_of (snd p) c x) (k, w)"
    by (rule for_up_keeps [where g = "\<lambda>p. bytes_of (snd p) c x"]) (auto simp: col split: prod.splits)
  then show ?thesis by simp
qed


text \<open>With different bins the destination is addressed with the source's offsets: the value is
  written, but not where the destination's own layout has it.\<close>

lemma duplicate_uses_source_offsets:
  assumes "firstBuffer (chunk_arch w src) = 1" "firstManaged (chunk_arch w src) = 1" "firstTag (chunk_arch w src) = 1"
    "to_valid_type (w_ctx w) (g_types (chunk_arch w src) ! 0) = to_valid_type (w_ctx w) (g_types (chunk_arch w (sl_c dst)) ! 0)"
    "g_types (chunk_arch w src) ! 0 \<noteq> guid_id (w_ctx w)"
  shows "chunk_duplicate gen dst src srcIndex w =
    on_mem (sl_c dst) (memdup (col_addr (chunk_arch w src) (c_ct (chunks w src)) 0 (sl_start dst)) (bytes_of w src)
       (col_addr (chunk_arch w src) (c_ct (chunks w src)) 0 (u16 srcIndex)) (sizes (chunk_arch w src) ! 0) (sl_count dst)) w"
  using assms by (simp add: chunk_duplicate_def Let_def)

section \<open>Witnesses\<close>

theorem move_within_rows_witness:
  "row_byte (chunk_move_within \<lparr>sl_c = 3, sl_start = 0, sl_count = 1\<rparr> 2 pair_world) 3 0 0 5 = row_byte pair_world 3 0 2 5"
proof -
  let ?s = "\<lparr>sl_c = 3, sl_start = 0, sl_count = 1\<rparr> :: chunk_slice" let ?a = "chunk_arch pair_world 3"
  have p: "3 = sl_c ?s" "columns_disjoint ?a (c_ct (chunks pair_world 3))" "1 = sl_count ?s"
    "sl_start ?s + 1 \<le> chunkCapacity ?a (c_ct (chunks pair_world 3))"
    "2 + 1 \<le> chunkCapacity ?a (c_ct (chunks pair_world 3))" "(2::nat) < 2 ^ 16"
    by (auto simp: pair_arch columns_disjoint_def)
  note T = move_within_rows [OF p(1) refl p(2-6) refl]
  have "row_byte (chunk_move_within ?s 2 pair_world) 3 0 (sl_start ?s + 0) 5 = row_byte pair_world 3 0 (2 + 0) 5"
    by (rule T [THEN conjunct1, rule_format]) (simp add: pair_arch)
  then show ?thesis by simp
qed


end
