(* ===== verification/Entity_Table.thy ===== *)
theory Entity_Table
  imports Chunk_List
begin

text \<open>
  \<open>world::entities\<close> (\<open>Dots/Database.cpp\<close>): the table that maps an entity's id to its version,
  chunk and row, with a free list threaded through the slots of dead entities.  0 ends the
  free list, so slot 0 can not be on it.  Slots that \<open>resize\<close> adds are not initialised.

  \<open>tab_inv w L fl\<close> is the invariant: the free list is \<open>fl\<close>, and the rows \<open>L\<close> (pairs of a
  chunk and an index) and the table point at each other.
\<close>

section \<open>Operations\<close>

definition upd_ents :: "(entities \<Rightarrow> entities) \<Rightarrow> world \<Rightarrow> world" where
  "upd_ents f w = w\<lparr>ents := f (ents w)\<rparr>"

definition set_data :: "nat \<Rightarrow> (edata \<Rightarrow> edata) \<Rightarrow> world \<Rightarrow> world" where
  "set_data k f = upd_ents (\<lambda>es. es\<lparr>datas := (datas es)[k := f (datas es ! k)]\<rparr>)"

definition set_free :: "nat \<Rightarrow> world \<Rightarrow> world" where
  "set_free n = upd_ents (\<lambda>es. es\<lparr>free_head := n\<rparr>)"

definition set_row :: "ptr \<Rightarrow> nat \<Rightarrow> entity \<Rightarrow> world \<Rightarrow> world" where
  "set_row c k e = upd_chunk c (\<lambda>ch. ch\<lparr>c_ents := (c_ents ch)(k := e)\<rparr>)"

definition data_of :: "world \<Rightarrow> nat \<Rightarrow> edata" where
  "data_of w k = datas (ents w) ! k"

text \<open>\<open>datas.resize\<close>, growing: the new slots hold whatever their memory held.\<close>

definition grow_datas :: "nat \<Rightarrow> world \<Rightarrow> world" where
  "grow_datas n w = upd_ents (\<lambda>es. es\<lparr>datas := datas es @ map (fresh_data w) [length (datas es)..<length (datas es) + n]\<rparr>) w"

definition ents_clear :: "world \<Rightarrow> world" where
  "ents_clear = upd_ents (\<lambda>es. es\<lparr>free_head := 0, datas := []\<rparr>)"

definition entity_exist :: "world \<Rightarrow> entity \<Rightarrow> bool" where
  "entity_exist w e \<longleftrightarrow> e_id e < length (datas (ents w)) \<and> e_version e = ed_v (data_of w (e_id e))"

definition as_slice :: "world \<Rightarrow> entity \<Rightarrow> chunk_slice" where
  "as_slice w e = \<lparr>sl_c = ed_c (data_of w (e_id e)), sl_start = ed_i (data_of w (e_id e)), sl_count = 1\<rparr>"

text \<open>One entity for row \<open>k\<close> of chunk \<open>c\<close> in slot \<open>n\<close>, the common part of both loops.\<close>

definition place_entity :: "ptr \<Rightarrow> nat \<Rightarrow> nat \<Rightarrow> world \<Rightarrow> world" where
  "place_entity c k n w =
     (let newE = mk_handle n (ed_v (data_of w n))
      in set_data (e_id newE) (\<lambda>d. set_ed_i k (set_ed_c c d)) (set_row c k newE w))"

function new_ents_free :: "chunk_slice \<Rightarrow> nat \<Rightarrow> world \<Rightarrow> nat \<times> world" where
  "new_ents_free s i w =
     (if i < sl_count s \<and> free_head (ents w) \<noteq> 0 then
        (let n = free_head (ents w);
             w1 = set_free (ed_nextFree (data_of w n)) w
         in new_ents_free s (i + 1) (place_entity (sl_c s) (sl_start s + i) n w1))
      else (i, w))"
  by auto
termination
  by (relation "measure (\<lambda>(s, i, w). sl_count s - i)") auto

declare new_ents_free.simps [simp del]

definition new_entities :: "chunk_slice \<Rightarrow> world \<Rightarrow> world" where
  "new_entities s w =
     (let (i, w1) = new_ents_free s 0 w in
      if i = sl_count s then w1
      else let newId = length (datas (ents w1)); w2 = grow_datas (sl_count s - i) w1
           in for_up (\<lambda>j. place_entity (sl_c s) (sl_start s + j) (newId + (j - i))) i (sl_count s) w2)"

text \<open>The overload that fills an array: it only takes slots, their \<open>c\<close> and \<open>i\<close> stay.\<close>

function new_handles_free :: "nat \<Rightarrow> entity list \<Rightarrow> world \<Rightarrow> entity list \<times> world" where
  "new_handles_free count dst w =
     (if length dst < count \<and> free_head (ents w) \<noteq> 0 then
        (let n = free_head (ents w)
         in new_handles_free count (dst @ [mk_handle n (ed_v (data_of w n))])
              (set_free (ed_nextFree (data_of w n)) w))
      else (dst, w))"
  by auto
termination
  by (relation "measure (\<lambda>(count, dst, w). count - length dst)") auto

declare new_handles_free.simps [simp del]

definition new_entity_array :: "nat \<Rightarrow> world \<Rightarrow> entity list \<times> world" where
  "new_entity_array count w =
     (let (dst, w1) = new_handles_free count [] w in
      if length dst = count then (dst, w1)
      else let newId = length (datas (ents w1)); w2 = grow_datas (count - length dst) w1
           in (dst @ map (\<lambda>n. mk_handle n (ed_v (data_of w2 n))) [newId..<newId + (count - length dst)], w2))"

text \<open>\<open>new_prefab\<close>: \<open>push()\<close> value-initialises the slot; the reservation is not visible.\<close>

definition new_prefab :: "world \<Rightarrow> entity \<times> world" where
  "new_prefab w =
     (let n = length (datas (ents w));
          w1 = upd_ents (\<lambda>es. es\<lparr>datas := datas es @ [\<lparr>ed_u = 0, ed_i = 0, ed_v = 0\<rparr>]\<rparr>) w
      in (mk_handle n (ed_v (data_of w1 n)), w1))"

definition new_entity :: "world \<Rightarrow> entity \<times> world" where
  "new_entity w =
     (if free_head (ents w) = 0 then new_prefab w
      else let n = free_head (ents w); w1 = set_free (ed_nextFree (data_of w n)) w
           in (mk_handle n (ed_v (data_of w1 n)), w1))"

text \<open>\<open>freeData = { nullptr, 0, recycle(v) }; freeData.nextFree = nx;\<close>\<close>

definition free_slot :: "nat \<Rightarrow> nat \<Rightarrow> world \<Rightarrow> world" where
  "free_slot n nx = set_data n (\<lambda>d. set_ed_nextFree nx \<lparr>ed_u = 0, ed_i = 0, ed_v = u8 (recycle (ed_v d))\<rparr>)"

definition free_entities :: "chunk_slice \<Rightarrow> world \<Rightarrow> world" where
  "free_entities s w =
     (let toFree = (\<lambda>i. c_ents (chunks w (sl_c s)) (sl_start s + i));
          lst = sub32 (sl_count s) 1;
          w1 = for_up (\<lambda>i. free_slot (e_id (toFree i)) (e_id (toFree (i + 1)))) 0 lst w;
          w2 = free_slot (e_id (toFree lst)) (free_head (ents w1)) w1
      in set_free (e_id (toFree 0)) w2)"

definition copy_rows :: "ptr \<Rightarrow> nat \<Rightarrow> (nat \<Rightarrow> entity) \<Rightarrow> nat \<Rightarrow> nat \<Rightarrow> world \<Rightarrow> world" where
  "copy_rows c start rows from n = upd_chunk c (\<lambda>ch. ch\<lparr>c_ents :=
     (\<lambda>k. if start \<le> k \<and> k < start + n then rows (from + (k - start)) else c_ents ch k)\<rparr>)"

definition move_entities :: "chunk_slice \<Rightarrow> ptr \<Rightarrow> nat \<Rightarrow> world \<Rightarrow> world" where
  "move_entities dst src srcIndex w =
     (let toMove = c_ents (chunks w src);
          w1 = for_up (\<lambda>i. set_data (e_id (toMove (srcIndex + i)))
                 (\<lambda>d. set_ed_c (sl_c dst) (set_ed_i (sl_start dst + i) d))) 0 (sl_count dst) w
      in copy_rows (sl_c dst) (sl_start dst) toMove srcIndex (sl_count dst) w1)"

definition fill_entities :: "chunk_slice \<Rightarrow> nat \<Rightarrow> world \<Rightarrow> world" where
  "fill_entities dst srcIndex w =
     (let toMove = c_ents (chunks w (sl_c dst));
          w1 = for_up (\<lambda>i. set_data (e_id (toMove (srcIndex + i))) (set_ed_i (sl_start dst + i))) 0 (sl_count dst) w
      in copy_rows (sl_c dst) (sl_start dst) toMove srcIndex (sl_count dst) w1)"

definition ents_clone :: "world \<Rightarrow> entities" where
  "ents_clone w = \<lparr>datas = datas (ents w), free_head = free_head (ents w)\<rparr>"

section \<open>The invariant\<close>

primrec free_chain :: "edata list \<Rightarrow> nat \<Rightarrow> nat list \<Rightarrow> bool" where
  "free_chain ds h [] \<longleftrightarrow> h = 0"
| "free_chain ds h (x # xs) \<longleftrightarrow> h = x \<and> x \<noteq> 0 \<and> x < length ds \<and> free_chain ds (ed_nextFree (ds ! x)) xs"

definition row_of :: "world \<Rightarrow> ptr \<Rightarrow> nat \<Rightarrow> entity" where
  "row_of w c r = c_ents (chunks w c) r"

definition located :: "world \<Rightarrow> ptr \<Rightarrow> nat \<Rightarrow> bool" where
  "located w c r \<longleftrightarrow> (let e = row_of w c r; d = data_of w (e_id e) in
     entity_exist w e \<and> ed_c d = c \<and> ed_i d = r)"

definition tab_inv :: "world \<Rightarrow> (ptr \<times> nat) set \<Rightarrow> nat list \<Rightarrow> bool" where
  "tab_inv w L fl \<longleftrightarrow> length (datas (ents w)) \<le> 2 ^ 24 \<and> (\<forall>d \<in> set (datas (ents w)). ed_v d < 256)
     \<and> (\<forall>n. ed_v (fresh_data w n) < 256)
     \<and> free_chain (datas (ents w)) (free_head (ents w)) fl \<and> distinct fl
     \<and> (\<forall>(c, r) \<in> L. located w c r \<and> e_id (row_of w c r) \<notin> set fl)"

section \<open>Frames\<close>

lemma ents_op_simps [simp]:
  "datas (ents (set_data k f w)) = (datas (ents w))[k := f (data_of w k)]"
  "free_head (ents (set_data k f w)) = free_head (ents w)"
  "chunks (set_data k f w) = chunks w" "fresh_data (set_data k f w) = fresh_data w"
  "datas (ents (set_free n w)) = datas (ents w)" "free_head (ents (set_free n w)) = n"
  "chunks (set_free n w) = chunks w" "fresh_data (set_free n w) = fresh_data w"
  "ents (set_row c k' e w) = ents w" "fresh_data (set_row c k' e w) = fresh_data w"
  "data_of (set_row c k' e w) = data_of w" "data_of (set_free n w) = data_of w"
  "row_of (set_data k f w) = row_of w" "row_of (set_free n w) = row_of w"
  "row_of (set_row c k' e w) c' r = (if c' = c \<and> r = k' then e else row_of w c' r)"
  by (simp_all add: set_data_def upd_ents_def set_free_def set_row_def data_of_def [abs_def] row_of_def [abs_def])

lemma data_of_set_data:
  "data_of (set_data k f w) n = (if n = k \<and> n < length (datas (ents w)) then f (data_of w n) else data_of w n)"
  by (cases "n = k"; cases "k < length (datas (ents w))") (auto simp: data_of_def list_update_beyond)

lemma ed_fields [simp]:
  "ed_c (set_ed_c c d) = c" "ed_i (set_ed_c c d) = ed_i d" "ed_v (set_ed_c c d) = ed_v d"
  "ed_i (set_ed_i i d) = i mod 2 ^ 24" "ed_c (set_ed_i i d) = ed_c d" "ed_v (set_ed_i i d) = ed_v d"
  "ed_v (set_ed_nextFree n d) = ed_v d" "ed_i (set_ed_nextFree n d) = ed_i d"
  "ed_nextFree (set_ed_nextFree n d) = u32 n"
  by (simp_all add: ed_c_def set_ed_c_def set_ed_i_def set_ed_nextFree_def ed_nextFree_def u32_def)

lemma free_chain_update: "x \<notin> set fl \<Longrightarrow> free_chain (ds[x := d]) h fl = free_chain ds h fl"
  by (induction fl arbitrary: h) auto

lemma free_chain_append: "free_chain ds h fl \<Longrightarrow> free_chain (ds @ es) h fl"
  by (induction fl arbitrary: h) (auto simp: nth_append)

lemma free_chain_bound: "free_chain ds h fl \<Longrightarrow> n \<in> set fl \<Longrightarrow> n < length ds \<and> n \<noteq> 0"
  by (induction fl arbitrary: h) auto

lemma place_entity_alt:
  assumes "n < 2 ^ 24"
  shows "place_entity c k n w = set_data n (\<lambda>d. set_ed_i k (set_ed_c c d)) (set_row c k (mk_handle n (ed_v (data_of w n))) w)"
  using assms by (simp add: place_entity_def Let_def)

text \<open>Placing an entity in a slot that is neither free nor used.\<close>

lemma place_entity_inv:
  assumes inv: "tab_inv w L fl" and n: "n < length (datas (ents w))" "n \<notin> set fl"
    and unused: "\<And>c r. (c, r) \<in> L \<Longrightarrow> e_id (row_of w c r) \<noteq> n"
    and row: "(c, k) \<notin> L" "k < 2 ^ 24"
  shows "tab_inv (place_entity c k n w) (insert (c, k) L) fl"
    "e_id (row_of (place_entity c k n w) c k) = n"
    "\<And>c' r. (c', r) \<noteq> (c, k) \<Longrightarrow> row_of (place_entity c k n w) c' r = row_of w c' r"
    "length (datas (ents (place_entity c k n w))) = length (datas (ents w))"
    "free_head (ents (place_entity c k n w)) = free_head (ents w)"
proof -
  have n24: "n < 2 ^ 24" using inv n by (simp add: tab_inv_def)
  have v: "ed_v (data_of w n) < 256" using inv n by (simp add: tab_inv_def data_of_def)
  let ?e = "mk_handle n (ed_v (data_of w n))"
  have e: "e_id ?e = n" "e_version ?e = ed_v (data_of w n)" using n24 v by simp_all
  let ?w = "place_entity c k n w"
  note alt = place_entity_alt [OF n24, of c k w]
  show "e_id (row_of ?w c k) = n" "\<And>c' r. (c', r) \<noteq> (c, k) \<Longrightarrow> row_of ?w c' r = row_of w c' r"
    "length (datas (ents ?w)) = length (datas (ents w))" "free_head (ents ?w) = free_head (ents w)"
    using e by (auto simp: alt)
  have "located ?w c k"
    using n e row(2) by (simp add: located_def alt data_of_set_data entity_exist_def Let_def)
  moreover have "located ?w c' r \<and> e_id (row_of ?w c' r) \<notin> set fl" if "(c', r) \<in> L" for c' r
  proof -
    have "located w c' r" "e_id (row_of w c' r) \<notin> set fl" using inv that by (auto simp: tab_inv_def)
    moreover have "(c', r) \<noteq> (c, k)" using that row(1) by auto
    moreover note unused [OF that]
    ultimately show ?thesis
      by (auto simp: located_def alt data_of_set_data entity_exist_def Let_def)
  qed
  moreover have "e_id (row_of ?w c k) \<notin> set fl" using n e by (simp add: alt)
  moreover have "free_chain (datas (ents ?w)) (free_head (ents ?w)) fl"
    using inv n by (simp add: tab_inv_def alt free_chain_update)
  moreover have "\<forall>d \<in> set (datas (ents ?w)). ed_v d < 256"
    using inv v by (auto simp: tab_inv_def alt dest: set_update_subset_insert [THEN subsetD])
  ultimately show "tab_inv ?w (insert (c, k) L) fl"
    using inv by (auto simp: tab_inv_def alt)
qed

lemma free_head_cases:
  "tab_inv w L fl \<Longrightarrow> free_head (ents w) = 0 \<longleftrightarrow> fl = []"
  by (cases fl) (auto simp: tab_inv_def)

lemma tab_inv_pop:
  assumes "tab_inv w L (n # fl)"
  shows "tab_inv (set_free (ed_nextFree (data_of w n)) w) L fl"
  using assms by (auto simp: tab_inv_def located_def entity_exist_def data_of_def Let_def)

lemma new_ents_free_step:
  assumes "i < sl_count s" "free_head (ents w) \<noteq> 0"
  shows "new_ents_free s i w = new_ents_free s (i + 1)
    (place_entity (sl_c s) (sl_start s + i) (free_head (ents w))
      (set_free (ed_nextFree (data_of w (free_head (ents w)))) w))"
  using assms by (simp add: new_ents_free.simps [of s i w] Let_def)

definition slice_rows :: "chunk_slice \<Rightarrow> nat \<Rightarrow> nat \<Rightarrow> (ptr \<times> nat) set" where
  "slice_rows s i j = (\<lambda>k. (sl_c s, sl_start s + k)) ` {i..<j}"

lemma slice_rows_Suc: "i \<le> j \<Longrightarrow> slice_rows s i (Suc j) = insert (sl_c s, sl_start s + j) (slice_rows s i j)"
  by (auto simp: slice_rows_def atLeastLessThanSuc)

lemma slice_rows_step: "i < j \<Longrightarrow> slice_rows s i j = insert (sl_c s, sl_start s + i) (slice_rows s (Suc i) j)"
  by (auto simp: slice_rows_def)

lemma new_ents_free_inv:
  assumes "tab_inv w L fl" "slice_rows s i (sl_count s) \<inter> L = {}" "sl_start s + sl_count s \<le> 2 ^ 24"
    and "new_ents_free s i w = (j, w')" "i \<le> sl_count s"
  shows "tab_inv w' (L \<union> slice_rows s i j) (drop (j - i) fl) \<and> i \<le> j \<and> j \<le> sl_count s
    \<and> (j < sl_count s \<longrightarrow> j - i = length fl)
    \<and> length (datas (ents w')) = length (datas (ents w)) \<and> j - i \<le> length fl
    \<and> (\<forall>c r. (c, r) \<notin> slice_rows s i j \<longrightarrow> row_of w' c r = row_of w c r)
    \<and> (\<forall>k. i \<le> k \<and> k < j \<longrightarrow> e_id (row_of w' (sl_c s) (sl_start s + k)) = fl ! (k - i))"
  using assms
proof (induction "sl_count s - i" arbitrary: i w L fl)
  case 0
  then have "i = sl_count s" by simp
  then have "new_ents_free s i w = (i, w)" by (simp add: new_ents_free.simps [of s "sl_count s" w])
  then show ?case using 0 by (auto simp: slice_rows_def)
next
  case (Suc d)
  have i: "i < sl_count s" using Suc.hyps(2) by simp
  show ?case
  proof (cases fl)
    case Nil
    then have "free_head (ents w) = 0" using Suc.prems(1) free_head_cases by blast
    then have "new_ents_free s i w = (i, w)" by (simp add: new_ents_free.simps [of s i w])
    then show ?thesis using Suc.prems Nil by (auto simp: slice_rows_def)
  next
    case (Cons n fl1)
    have head: "free_head (ents w) = n" "n \<noteq> 0" "n < length (datas (ents w))" "n \<notin> set fl1"
      using Suc.prems(1) Cons by (auto simp: tab_inv_def)
    let ?w1 = "set_free (ed_nextFree (data_of w n)) w" let ?c = "sl_c s" let ?k = "sl_start s + i"
    have inv1: "tab_inv ?w1 L fl1" using tab_inv_pop Suc.prems(1) Cons by simp
    have unused: "e_id (row_of ?w1 c r) \<noteq> n" if "(c, r) \<in> L" for c r
      using Suc.prems(1) Cons that by (auto simp: tab_inv_def)
    have "(?c, ?k) \<in> slice_rows s i (sl_count s)" using i by (auto simp: slice_rows_def)
    then have row: "(?c, ?k) \<notin> L" "?k < 2 ^ 24" using Suc.prems(2,3) i by auto
    note P = place_entity_inv [OF inv1 _ head(4) unused row]
    let ?w2 = "place_entity ?c ?k n ?w1"
    have step: "new_ents_free s (i + 1) ?w2 = (j, w')"
      using new_ents_free_step [OF i] head(1,2) Suc.prems(4) by simp
    have L2: "slice_rows s (i + 1) (sl_count s) \<inter> insert (?c, ?k) L = {}"
    proof -
      have "slice_rows s i (sl_count s) = insert (?c, ?k) (slice_rows s (i + 1) (sl_count s))"
        using slice_rows_step [OF i] by simp
      moreover have "(?c, ?k) \<notin> slice_rows s (i + 1) (sl_count s)" by (auto simp: slice_rows_def)
      ultimately show ?thesis using Suc.prems(2) by auto
    qed
    from Suc.hyps(1) [of "i + 1" ?w2 "insert (?c, ?k) L" fl1] Suc.hyps(2) P(1) head(3) step L2 Suc.prems(3) i
    have R: "tab_inv w' (insert (?c, ?k) L \<union> slice_rows s (i + 1) j) (drop (j - (i + 1)) fl1)" "i + 1 \<le> j" "j \<le> sl_count s"
      "j < sl_count s \<longrightarrow> j - (i + 1) = length fl1" "length (datas (ents w')) = length (datas (ents ?w2))"
      "j - (i + 1) \<le> length fl1"
      "\<forall>c r. (c, r) \<notin> slice_rows s (i + 1) j \<longrightarrow> row_of w' c r = row_of ?w2 c r"
      "\<forall>k. i + 1 \<le> k \<and> k < j \<longrightarrow> e_id (row_of w' ?c (sl_start s + k)) = fl1 ! (k - (i + 1))"
      by auto
    have rows: "L \<union> slice_rows s i j = insert (?c, ?k) L \<union> slice_rows s (i + 1) j"
      using R(2) slice_rows_step [of i j s] by auto
    have old: "row_of w' c r = row_of w c r" if "(c, r) \<notin> slice_rows s i j" for c r
    proof -
      have "(c, r) \<notin> slice_rows s (i + 1) j" "(c, r) \<noteq> (?c, ?k)"
        using that R(2) slice_rows_step [of i j s] by auto
      then show ?thesis using R(7) P(3) head(3) by simp
    qed
    have ids: "e_id (row_of w' ?c (sl_start s + k)) = fl ! (k - i)" if "i \<le> k" "k < j" for k
    proof (cases "k = i")
      case True
      have "(?c, ?k) \<notin> slice_rows s (i + 1) j" by (auto simp: slice_rows_def)
      then show ?thesis using True R(7) P(2) head(3) Cons by simp
    next
      case False
      then have "k - i = Suc (k - (i + 1))" using that by simp
      then show ?thesis using R(8) that Cons False by simp
    qed
    show ?thesis
      using R old ids P(4) head(3) Cons unfolding rows
      by (auto simp: drop_Cons')
  qed
qed

section \<open>new\_entities\<close>

lemma grow_datas_simps [simp]:
  "datas (ents (grow_datas n w)) = datas (ents w) @ map (fresh_data w) [length (datas (ents w))..<length (datas (ents w)) + n]"
  "free_head (ents (grow_datas n w)) = free_head (ents w)" "row_of (grow_datas n w) = row_of w"
  "fresh_data (grow_datas n w) = fresh_data w" "chunks (grow_datas n w) = chunks w"
  by (simp_all add: grow_datas_def upd_ents_def row_of_def [abs_def])

lemma tab_inv_grow:
  assumes "tab_inv w L fl" "length (datas (ents w)) + n \<le> 2 ^ 24"
  shows "tab_inv (grow_datas n w) L fl"
    "length (datas (ents (grow_datas n w))) = length (datas (ents w)) + n"
    "row_of (grow_datas n w) = row_of w"
proof -
  have located: "located (grow_datas n w) c r" if "located w c r" for c r
    using that by (auto simp: located_def entity_exist_def data_of_def Let_def nth_append)
  have chain: "free_chain (datas (ents (grow_datas n w))) (free_head (ents (grow_datas n w))) fl"
    using assms free_chain_append by (simp add: tab_inv_def)
  show "tab_inv (grow_datas n w) L fl"
    using assms located chain by (auto simp: tab_inv_def)
qed simp_all

lemma tab_inv_used:
  assumes "tab_inv w L fl" "(c, r) \<in> L"
  shows "e_id (row_of w c r) < length (datas (ents w))"
  using assms by (auto simp: tab_inv_def located_def entity_exist_def Let_def)

text \<open>The fast path: fresh slots at the end of the table, one per row.\<close>

lemma place_loop_inv:
  assumes inv: "tab_inv w L []" and j: "j \<le> k" "k \<le> n"
    and room: "newId + (n - j) \<le> length (datas (ents w))"
    and used: "\<forall>(c, r) \<in> L. e_id (row_of w c r) < newId"
    and fresh: "slice_rows s j n \<inter> L = {}" "sl_start s + n \<le> 2 ^ 24"
  defines "w' \<equiv> for_up (\<lambda>i. place_entity (sl_c s) (sl_start s + i) (newId + (i - j))) j k w"
  shows "tab_inv w' (L \<union> slice_rows s j k) [] \<and> length (datas (ents w')) = length (datas (ents w))
    \<and> (\<forall>(c, r) \<in> L \<union> slice_rows s j k. e_id (row_of w' c r) < newId + (k - j))
    \<and> (\<forall>c r. (c, r) \<notin> slice_rows s j k \<longrightarrow> row_of w' c r = row_of w c r)
    \<and> (\<forall>i. j \<le> i \<and> i < k \<longrightarrow> e_id (row_of w' (sl_c s) (sl_start s + i)) = newId + (i - j))"
  unfolding w'_def using j
proof (induction k rule: dec_induct)
  case base
  then show ?case using inv used by (auto simp: slice_rows_def)
next
  case (step k)
  let ?w = "for_up (\<lambda>i. place_entity (sl_c s) (sl_start s + i) (newId + (i - j))) j k w"
  let ?L = "L \<union> slice_rows s j k" let ?n = "newId + (k - j)" let ?c = "sl_c s" and ?k = "sl_start s + k"
  have IH: "tab_inv ?w ?L []" "length (datas (ents ?w)) = length (datas (ents w))"
    "\<forall>(c, r) \<in> ?L. e_id (row_of ?w c r) < ?n"
    "\<forall>c r. (c, r) \<notin> slice_rows s j k \<longrightarrow> row_of ?w c r = row_of w c r"
    "\<forall>i. j \<le> i \<and> i < k \<longrightarrow> e_id (row_of ?w ?c (sl_start s + i)) = newId + (i - j)"
    using step by auto
  have n: "?n < length (datas (ents ?w))" using room IH(2) step.hyps step.prems by linarith
  have "(?c, ?k) \<in> slice_rows s j n" using step.hyps step.prems by (auto simp: slice_rows_def)
  moreover have "(?c, ?k) \<notin> slice_rows s j k" by (auto simp: slice_rows_def)
  ultimately have row: "(?c, ?k) \<notin> ?L" "?k < 2 ^ 24" using fresh step.prems by auto
  have unused: "e_id (row_of ?w c r) \<noteq> ?n" if "(c, r) \<in> ?L" for c r
  proof -
    have "e_id (row_of ?w c r) < ?n" using IH(3) that by blast
    then show ?thesis by simp
  qed
  note P = place_entity_inv [OF IH(1) n _ unused row]
  have L: "insert (?c, ?k) ?L = L \<union> slice_rows s j (Suc k)" using step.hyps slice_rows_Suc [of j k s] by auto
  let ?w' = "place_entity ?c ?k ?n ?w"
  have ids: "e_id (row_of ?w' c r) < newId + (Suc k - j)" if "(c, r) \<in> L \<union> slice_rows s j (Suc k)" for c r
  proof (cases "(c, r) = (?c, ?k)")
    case True
    then show ?thesis using P(2) step.hyps by simp
  next
    case False
    then have "(c, r) \<in> ?L" using that L by auto
    then have "e_id (row_of ?w c r) < ?n" using IH(3) by auto
    then show ?thesis using P(3) False step.hyps by (simp add: Suc_diff_le)
  qed
  have old: "row_of ?w' c r = row_of w c r" if "(c, r) \<notin> slice_rows s j (Suc k)" for c r
    using that IH(4) P(3) slice_rows_Suc [of j k s] step.hyps by auto
  have new: "e_id (row_of ?w' ?c (sl_start s + i)) = newId + (i - j)" if "j \<le> i" "i < Suc k" for i
  proof (cases "i = k")
    case True
    then show ?thesis using P(2) by simp
  next
    case False
    then show ?thesis using that IH(5) P(3) by simp
  qed
  show ?case
    using P(1,4) IH(2) ids old new step.hyps unfolding L by (auto simp: for_up_Suc)
qed

lemma new_entities_table:
  assumes inv: "tab_inv w L fl" and fresh: "slice_rows s 0 (sl_count s) \<inter> L = {}"
    and room: "sl_start s + sl_count s \<le> 2 ^ 24" "length (datas (ents w)) + sl_count s \<le> 2 ^ 24"
    and w': "w' = new_entities s w"
  shows "tab_inv w' (L \<union> slice_rows s 0 (sl_count s)) (drop (sl_count s) fl)
    \<and> (\<forall>c r. (c, r) \<notin> slice_rows s 0 (sl_count s) \<longrightarrow> row_of w' c r = row_of w c r)
    \<and> (\<forall>k < sl_count s. e_id (row_of w' (sl_c s) (sl_start s + k))
          = (if k < length fl then fl ! k else length (datas (ents w)) + (k - length fl)))
    \<and> length (datas (ents w')) = length (datas (ents w)) + (sl_count s - length fl)"
proof -
  let ?n = "sl_count s"
  obtain i w1 where f: "new_ents_free s 0 w = (i, w1)" by fastforce
  have R: "tab_inv w1 (L \<union> slice_rows s 0 i) (drop i fl)" "i \<le> ?n" "i < ?n \<Longrightarrow> drop i fl = []"
    "length (datas (ents w1)) = length (datas (ents w))" "i \<le> length fl"
    "\<And>c r. (c, r) \<notin> slice_rows s 0 i \<Longrightarrow> row_of w1 c r = row_of w c r"
    "\<And>k. k < i \<Longrightarrow> e_id (row_of w1 (sl_c s) (sl_start s + k)) = fl ! k"
    using new_ents_free_inv [OF inv fresh room(1) f] by auto
  show ?thesis
  proof (cases "i = ?n")
    case True
    then have "w' = w1" using w' f by (simp add: new_entities_def)
    then show ?thesis using R True by simp
  next
    case False
    then have i: "i < ?n" "length fl = i" using R(2,3,5) by auto
    let ?N = "length (datas (ents w))" let ?w2 = "grow_datas (?n - i) w1"
    have g: "tab_inv ?w2 (L \<union> slice_rows s 0 i) []"
      using tab_inv_grow(1) [OF R(1), of "?n - i"] R(4) room(2) i by simp
    have w: "w' = for_up (\<lambda>j. place_entity (sl_c s) (sl_start s + j) (?N + (j - i))) i ?n ?w2"
      using w' f False R(4) by (simp add: new_entities_def Let_def)
    have U: "slice_rows s 0 ?n = slice_rows s 0 i \<union> slice_rows s i ?n"
      using i by (simp add: slice_rows_def image_Un [symmetric] ivl_disj_un_two(3))
    have used: "\<forall>(c, r) \<in> L \<union> slice_rows s 0 i. e_id (row_of ?w2 c r) < ?N"
      using tab_inv_used [OF R(1)] R(4) by auto
    have dj: "slice_rows s i ?n \<inter> (L \<union> slice_rows s 0 i) = {}"
      using fresh U by (auto simp: slice_rows_def)
    have F: "tab_inv w' (L \<union> slice_rows s 0 i \<union> slice_rows s i ?n) []"
      "\<And>c r. (c, r) \<notin> slice_rows s i ?n \<Longrightarrow> row_of w' c r = row_of ?w2 c r"
      "\<And>j. i \<le> j \<Longrightarrow> j < ?n \<Longrightarrow> e_id (row_of w' (sl_c s) (sl_start s + j)) = ?N + (j - i)"
      using place_loop_inv [OF g _ order.refl _ used dj room(1), of ] i R(4) unfolding w by auto
    have "row_of w' c r = row_of w c r" if "(c, r) \<notin> slice_rows s 0 ?n" for c r
      using F(2) R(6) that U by simp
    moreover have "e_id (row_of w' (sl_c s) (sl_start s + k))
        = (if k < length fl then fl ! k else ?N + (k - length fl))" if "k < ?n" for k
    proof (cases "k < i")
      case True
      then have "(sl_c s, sl_start s + k) \<notin> slice_rows s i ?n" by (auto simp: slice_rows_def)
      then show ?thesis using F(2) R(7) True i by simp
    next
      case False
      then show ?thesis using F(3) that i by simp
    qed
    moreover have "length (datas (ents w')) = ?N + (?n - length fl)"
      using R(4) i unfolding w by (subst for_up_keeps [where g = "\<lambda>w. length (datas (ents w))"]) (simp_all add: place_entity_def Let_def)
    ultimately show ?thesis using F(1) i unfolding U by (simp add: Un_assoc)
  qed
qed

text \<open>C7. \<open>new_entities\<close> on the rows of a slice that hold no entity yet.  Free slots are used
  first, in free-list order, then fresh ones at the end of the table.  Afterwards the table and
  the rows, old and new, point at each other, what is left of the free list is intact, and the
  old rows keep their handles.\<close>

theorem new_entities_correct:
  assumes inv: "tab_inv w L fl" and fresh: "slice_rows s 0 (sl_count s) \<inter> L = {}"
    and room: "sl_start s + sl_count s \<le> 2 ^ 24" "length (datas (ents w)) + sl_count s \<le> 2 ^ 24"
    and w': "w' = new_entities s w"
  shows "tab_inv w' (L \<union> slice_rows s 0 (sl_count s)) (drop (sl_count s) fl)
    \<and> (\<forall>c r. (c, r) \<notin> slice_rows s 0 (sl_count s) \<longrightarrow> row_of w' c r = row_of w c r)
    \<and> (\<forall>k < sl_count s. e_id (row_of w' (sl_c s) (sl_start s + k))
          = (if k < length fl then fl ! k else length (datas (ents w)) + (k - length fl)))"
  using new_entities_table [OF assms] by blast

section \<open>free\_entities\<close>

definition freed :: "nat \<Rightarrow> edata \<Rightarrow> edata" where
  "freed nx d = set_ed_nextFree nx \<lparr>ed_u = 0, ed_i = 0, ed_v = u8 (recycle (ed_v d))\<rparr>"

lemma set_data_cong: "f (data_of w k) = g (data_of w k) \<Longrightarrow> set_data k f w = set_data k g w"
  by (simp add: set_data_def upd_ents_def data_of_def)

text \<open>A loop that updates one slot per row.\<close>

lemma data_loop:
  fixes x f w k
  assumes "inj_on x {..<k}" "\<And>i. i < k \<Longrightarrow> x i < length (datas (ents w))"
  defines "w' \<equiv> for_up (\<lambda>i. set_data (x i) (f i)) 0 k w"
  shows "row_of w' = row_of w \<and> length (datas (ents w')) = length (datas (ents w))
    \<and> free_head (ents w') = free_head (ents w) \<and> fresh_data w' = fresh_data w \<and> chunks w' = chunks w
    \<and> (\<forall>i < k. data_of w' (x i) = f i (data_of w (x i))) \<and> (\<forall>z. z \<notin> x ` {..<k} \<longrightarrow> data_of w' z = data_of w z)"
  using assms(1,2) unfolding w'_def
proof (induction k)
  case (Suc k)
  let ?w = "for_up (\<lambda>i. set_data (x i) (f i)) 0 k w"
  have IH: "row_of ?w = row_of w" "length (datas (ents ?w)) = length (datas (ents w))"
    "free_head (ents ?w) = free_head (ents w)" "fresh_data ?w = fresh_data w" "chunks ?w = chunks w"
    "\<And>i. i < k \<Longrightarrow> data_of ?w (x i) = f i (data_of w (x i))" "\<And>z. z \<notin> x ` {..<k} \<Longrightarrow> data_of ?w z = data_of w z"
    using Suc.IH Suc.prems by (auto simp: inj_on_def)
  have ne: "i < k \<Longrightarrow> x i \<noteq> x k" for i using inj_onD [OF Suc.prems(1), of i k] by auto
  have xk: "x k < length (datas (ents ?w))" "x k \<notin> x ` {..<k}"
    using Suc.prems(2) IH(2) ne by fastforce+
  show ?case
    using IH xk ne by (auto simp: for_up_Suc data_of_set_data lessThan_Suc less_Suc_eq)
qed simp

text \<open>Placed rows have different slots.\<close>

lemma slice_ids_inj:
  assumes "tab_inv w L fl" "\<And>i. i < n \<Longrightarrow> (c, a + i) \<in> L"
  shows "inj_on (\<lambda>i. e_id (row_of w c (a + i))) {..<n}"
proof (rule inj_onI)
  fix i j assume i: "i \<in> {..<n}" "j \<in> {..<n}" and eq: "e_id (row_of w c (a + i)) = e_id (row_of w c (a + j))"
  have "ed_i (data_of w (e_id (row_of w c (a + k)))) = a + k" if "k \<in> {..<n}" for k
    using assms(1) assms(2) [of k] that by (auto simp: tab_inv_def located_def Let_def)
  from this [OF i(1)] this [OF i(2)] show "i = j" unfolding eq by simp
qed

lemma free_slot_freed: "free_slot n nx = set_data n (freed nx)"
  by (simp add: free_slot_def freed_def [abs_def])

lemma free_chain_map:
  assumes "free_chain ds h fl" "\<And>i. i < n \<Longrightarrow> x i \<noteq> 0 \<and> x i < length ds
      \<and> ed_nextFree (ds ! x i) = (if i + 1 < n then x (i + 1) else h)" "j < n"
  shows "free_chain ds (x j) (map x [j..<n] @ fl)"
  using assms(3)
proof (induction "n - j" arbitrary: j)
  case (Suc d)
  have "free_chain ds (ed_nextFree (ds ! x j)) (map x [j + 1..<n] @ fl)"
  proof (cases "j + 1 < n")
    case True
    then show ?thesis using Suc.hyps(1) [of "j + 1"] Suc.hyps(2) assms(2) [OF Suc.prems] by simp
  next
    case False
    then show ?thesis using assms(1) assms(2) [OF Suc.prems] by simp
  qed
  then show ?case using assms(2) [OF Suc.prems] Suc.prems by (simp add: upt_conv_Cons)
qed simp

lemma free_chain_cong:
  assumes "\<And>n. n \<in> set fl \<Longrightarrow> n < length ds' \<and> ds' ! n = ds ! n" "free_chain ds h fl"
  shows "free_chain ds' h fl"
  using assms by (induction fl arbitrary: h) auto

text \<open>A slot belongs to one row.\<close>

lemma located_unique:
  assumes "located w c r" "located w c' r'" "e_id (row_of w c r) = e_id (row_of w c' r')"
  shows "c = c' \<and> r = r'"
  using assms by (auto simp: located_def Let_def)

text \<open>What \<open>free_entities\<close> writes into the table.\<close>

lemma free_entities_data:
  assumes inv: "tab_inv w L fl" and sub: "slice_rows s 0 (sl_count s) \<subseteq> L" and n: "0 < sl_count s" "sl_count s < 2 ^ 32"
    and w': "w' = free_entities s w" and x: "x = (\<lambda>i. e_id (row_of w (sl_c s) (sl_start s + i)))"
  shows "i < sl_count s \<Longrightarrow> data_of w' (x i) = freed (if i + 1 < sl_count s then x (i + 1) else free_head (ents w)) (data_of w (x i))"
    and "z \<notin> x ` {..<sl_count s} \<Longrightarrow> data_of w' z = data_of w z"
    and "length (datas (ents w')) = length (datas (ents w))" "row_of w' = row_of w" "free_head (ents w') = x 0" "fresh_data w' = fresh_data w"
proof -
  let ?n = "sl_count s"
  have mem: "(sl_c s, sl_start s + i) \<in> L" if "i < ?n" for i
    using sub that by (auto simp: slice_rows_def)
  have lt: "x i < length (datas (ents w))" if "i < ?n" for i
    using tab_inv_used [OF inv mem [OF that]] by (simp add: x)
  have inj: "inj_on x {..<?n}" unfolding x using slice_ids_inj [OF inv mem] .
  obtain m where m: "?n = Suc m" using n(1) by (cases ?n) auto
  have lst: "sub32 ?n 1 = m" using n m by (simp add: sub32_small)
  let ?w1 = "for_up (\<lambda>i. free_slot (x i) (x (i + 1))) 0 m w"
  have F: "row_of ?w1 = row_of w" "length (datas (ents ?w1)) = length (datas (ents w))"
    "free_head (ents ?w1) = free_head (ents w)" "fresh_data ?w1 = fresh_data w"
    "\<And>i. i < m \<Longrightarrow> data_of ?w1 (x i) = freed (x (i + 1)) (data_of w (x i))"
    "\<And>z. z \<notin> x ` {..<m} \<Longrightarrow> data_of ?w1 z = data_of w z"
    using data_loop [of x m w "\<lambda>i. freed (x (i + 1))"] inj lt m by (auto simp: inj_on_def free_slot_freed)
  have ne: "x i \<noteq> x m" if "i < m" for i using inj_onD [OF inj, of i m] m that by auto
  have xm: "x m \<notin> x ` {..<m}" "\<And>i. i < m \<Longrightarrow> x i \<noteq> x m"
    using ne by (fastforce, blast)
  let ?w2 = "free_slot (x m) (free_head (ents w)) ?w1"
  have w2: "w' = set_free (x 0) ?w2"
    using F(3) unfolding w' free_entities_def Let_def lst row_of_def x by simp
  show "i < ?n \<Longrightarrow> data_of w' (x i) = freed (if i + 1 < ?n then x (i + 1) else free_head (ents w)) (data_of w (x i))"
    using F xm lt [of m] m by (cases "i = m") (auto simp: w2 free_slot_freed data_of_set_data)
  show "z \<notin> x ` {..<?n} \<Longrightarrow> data_of w' z = data_of w z"
    using F xm lt [of m] m by (auto simp: w2 free_slot_freed data_of_set_data lessThan_Suc)
  show "length (datas (ents w')) = length (datas (ents w))" "row_of w' = row_of w" "free_head (ents w') = x 0" "fresh_data w' = fresh_data w"
    using F by (simp_all add: w2 free_slot_freed data_of_set_data)
qed

lemma free_entities_table:
  assumes inv: "tab_inv w L fl" and sub: "slice_rows s 0 (sl_count s) \<subseteq> L" and n: "0 < sl_count s" "sl_count s < 2 ^ 32"
    and nz: "\<forall>i < sl_count s. e_id (row_of w (sl_c s) (sl_start s + i)) \<noteq> 0"
    and w': "w' = free_entities s w"
  shows "tab_inv w' (L - slice_rows s 0 (sl_count s))
           (map (\<lambda>i. e_id (row_of w (sl_c s) (sl_start s + i))) [0..<sl_count s] @ fl)
    \<and> (\<forall>i < sl_count s. \<not> entity_exist w' (row_of w (sl_c s) (sl_start s + i)))
    \<and> row_of w' = row_of w"
proof -
  let ?n = "sl_count s" let ?e = "\<lambda>i. row_of w (sl_c s) (sl_start s + i)" let ?x = "\<lambda>i. e_id (?e i)"
  have mem: "(sl_c s, sl_start s + i) \<in> L" if "i < ?n" for i
    using sub that by (auto simp: slice_rows_def)
  have loc: "located w (sl_c s) (sl_start s + i)" "?x i \<notin> set fl" "?x i < length (datas (ents w))" if "i < ?n" for i
    using inv mem [OF that] tab_inv_used [OF inv mem [OF that]] by (auto simp: tab_inv_def)
  have inj: "inj_on ?x {..<?n}" using slice_ids_inj [OF inv mem] .
  note free = free_entities_data [OF inv sub n w' refl]
  note D = free(1) and O = free(2) and len = free(3-6)
  have vs: "ed_v (data_of w z) < 256" if "z < length (datas (ents w))" for z
    using inv that by (simp add: tab_inv_def data_of_def)
  have head: "free_head (ents w) < 2 ^ 24"
    using inv free_chain_bound [of "datas (ents w)" "free_head (ents w)" fl "free_head (ents w)"]
    by (cases fl) (auto simp: tab_inv_def)
  have next24: "(if i + 1 < ?n then ?x (i + 1) else free_head (ents w)) < 2 ^ 32" for i
    using head less_trans [OF e_id_bound, of "2 ^ 32"] by simp
  have dead: "\<not> entity_exist w' (?e i)" if "i < ?n" for i
  proof -
    have "entity_exist w (?e i)" using loc(1) [OF that] by (simp add: located_def Let_def)
    then have v: "e_version (?e i) = ed_v (data_of w (?x i))" by (simp add: entity_exist_def)
    have "ed_v (data_of w' (?x i)) = next_version (ed_v (data_of w (?x i)))"
      using D [OF that] by (simp add: freed_def)
    then show ?thesis
      using next_version_neq [OF vs [OF loc(3) [OF that]]] v by (simp add: entity_exist_def)
  qed
  have chain: "free_chain (datas (ents w')) (?x 0) (map ?x [0..<?n] @ fl)"
  proof (rule free_chain_map)
    show "free_chain (datas (ents w')) (free_head (ents w)) fl"
    proof (rule free_chain_cong)
      show "free_chain (datas (ents w)) (free_head (ents w)) fl" using inv by (simp add: tab_inv_def)
      fix z assume z: "z \<in> set fl"
      then have "z \<notin> ?x ` {..<?n}" using loc(2) by auto
      then have "data_of w' z = data_of w z" by (rule O)
      moreover have "z < length (datas (ents w))"
        using free_chain_bound inv z by (auto simp: tab_inv_def)
      ultimately show "z < length (datas (ents w')) \<and> datas (ents w') ! z = datas (ents w) ! z"
        using len by (simp add: data_of_def)
    qed
    fix i assume i: "i < ?n"
    have "ed_nextFree (data_of w' (?x i)) = (if i + 1 < ?n then ?x (i + 1) else free_head (ents w))"
      using D [OF i] next24 [of i] by (simp only: freed_def ed_fields u32_small)
    then show "?x i \<noteq> 0 \<and> ?x i < length (datas (ents w'))
        \<and> ed_nextFree (datas (ents w') ! ?x i) = (if i + 1 < ?n then ?x (i + 1) else free_head (ents w))"
      using nz i loc(3) len by (simp add: data_of_def)
  qed (use n in simp)
  have keep: "located w' c r \<and> e_id (row_of w' c r) \<notin> set (map ?x [0..<?n] @ fl)"
    if "(c, r) \<in> L - slice_rows s 0 ?n" for c r
  proof -
    have l: "located w c r" "e_id (row_of w c r) \<notin> set fl" using inv that by (auto simp: tab_inv_def)
    have ne: "e_id (row_of w c r) \<noteq> ?x i" if i: "i < ?n" for i
      using located_unique [OF l(1) loc(1) [OF i]] \<open>(c, r) \<in> L - slice_rows s 0 ?n\<close> i by (auto simp: slice_rows_def)
    then have "data_of w' (e_id (row_of w c r)) = data_of w (e_id (row_of w c r))" by (intro O) auto
    then have "located w' c r" using l len by (simp add: located_def Let_def entity_exist_def)
    moreover have "e_id (row_of w c r) \<notin> set (map ?x [0..<?n] @ fl)" using l(2) ne by fastforce
    ultimately show ?thesis using len by simp
  qed
  have small: "ed_v (data_of w' z) < 256" if "z < length (datas (ents w'))" for z
  proof (cases "z \<in> ?x ` {..<?n}")
    case True
    then show ?thesis using D by (auto simp: freed_def)
  next
    case False
    then show ?thesis using O vs that len by simp
  qed
  have "distinct (map ?x [0..<?n] @ fl)"
    using inj loc(2) inv by (auto simp: distinct_map tab_inv_def atLeast0LessThan)
  then have "tab_inv w' (L - slice_rows s 0 ?n) (map ?x [0..<?n] @ fl)"
    using inv len chain keep small by (auto simp: tab_inv_def data_of_def in_set_conv_nth)
  then show ?thesis using dead len by auto
qed

text \<open>C19. \<open>free_entities\<close> on a non-empty slice of placed entities, none of them in slot 0.  Every
  handle of the slice stops existing, their slots go in front of the free list in row order, and
  every other row keeps its place in the table.\<close>

theorem free_entities_correct:
  assumes inv: "tab_inv w L fl" and sub: "slice_rows s 0 (sl_count s) \<subseteq> L" and n: "0 < sl_count s" "sl_count s < 2 ^ 32"
    and nz: "\<forall>i < sl_count s. e_id (row_of w (sl_c s) (sl_start s + i)) \<noteq> 0"
    and w': "w' = free_entities s w"
  shows "tab_inv w' (L - slice_rows s 0 (sl_count s))
           (map (\<lambda>i. e_id (row_of w (sl_c s) (sl_start s + i))) [0..<sl_count s] @ fl)
    \<and> (\<forall>i < sl_count s. \<not> entity_exist w' (row_of w (sl_c s) (sl_start s + i)))
    \<and> row_of w' = row_of w"
  by (rule free_entities_table [OF assms])

section \<open>Moving rows\<close>

lemma copy_rows_simps [simp]:
  "ents (copy_rows c a rows m n w) = ents w" "fresh_data (copy_rows c a rows m n w) = fresh_data w"
  "data_of (copy_rows c a rows m n w) = data_of w"
  "row_of (copy_rows c a rows m n w) c' r
     = (if c' = c \<and> a \<le> r \<and> r < a + n then rows (m + (r - a)) else row_of w c' r)"
  by (simp_all add: copy_rows_def row_of_def data_of_def [abs_def])

lemma e_id_lt_iff: "tab_inv w L fl \<Longrightarrow> z \<in> set fl \<Longrightarrow> z < length (datas (ents w))"
  using free_chain_bound by (auto simp: tab_inv_def)

lemma move_entities_table:
  assumes inv: "tab_inv w L fl"
    and src: "slice_rows \<lparr>sl_c = src, sl_start = srcIndex, sl_count = 0\<rparr> 0 (sl_count dst) \<subseteq> L"
    and fresh: "slice_rows dst 0 (sl_count dst) \<inter> L = {}" and room: "sl_start dst + sl_count dst \<le> 2 ^ 24"
    and w': "w' = move_entities dst src srcIndex w"
  shows "tab_inv w' (L - slice_rows \<lparr>sl_c = src, sl_start = srcIndex, sl_count = 0\<rparr> 0 (sl_count dst)
           \<union> slice_rows dst 0 (sl_count dst)) fl
    \<and> (\<forall>i < sl_count dst. row_of w' (sl_c dst) (sl_start dst + i) = row_of w src (srcIndex + i))
    \<and> (\<forall>c r. (c, r) \<notin> slice_rows dst 0 (sl_count dst) \<longrightarrow> row_of w' c r = row_of w c r)"
proof -
  let ?n = "sl_count dst" let ?x = "\<lambda>i. e_id (row_of w src (srcIndex + i))"
  let ?S = "slice_rows \<lparr>sl_c = src, sl_start = srcIndex, sl_count = 0\<rparr> 0 ?n" let ?D = "slice_rows dst 0 ?n"
  have mem: "(src, srcIndex + i) \<in> L" if "i < ?n" for i
    using src that by (auto simp: slice_rows_def)
  have loc: "located w src (srcIndex + i)" "?x i \<notin> set fl" "?x i < length (datas (ents w))" if "i < ?n" for i
    using inv mem [OF that] tab_inv_used [OF inv mem [OF that]] by (auto simp: tab_inv_def)
  have inj: "inj_on ?x {..<?n}" using slice_ids_inj [OF inv mem] .
  let ?f = "\<lambda>i d. set_ed_c (sl_c dst) (set_ed_i (sl_start dst + i) d)"
  let ?w1 = "for_up (\<lambda>i. set_data (?x i) (?f i)) 0 ?n w"
  have F: "row_of ?w1 = row_of w" "length (datas (ents ?w1)) = length (datas (ents w))"
    "free_head (ents ?w1) = free_head (ents w)" "fresh_data ?w1 = fresh_data w"
    "\<And>i. i < ?n \<Longrightarrow> data_of ?w1 (?x i) = ?f i (data_of w (?x i))"
    "\<And>z. z \<notin> ?x ` {..<?n} \<Longrightarrow> data_of ?w1 z = data_of w z"
    using data_loop [of ?x ?n w ?f] inj loc(3) by auto
  have w1: "w' = copy_rows (sl_c dst) (sl_start dst) (row_of w src) srcIndex ?n ?w1"
    by (simp add: w' move_entities_def Let_def row_of_def [abs_def])
  have len: "length (datas (ents w')) = length (datas (ents w))" "free_head (ents w') = free_head (ents w)"
    "fresh_data w' = fresh_data w" "data_of w' = data_of ?w1"
    using F by (simp_all add: w1)
  have new: "row_of w' (sl_c dst) (sl_start dst + i) = row_of w src (srcIndex + i)" if "i < ?n" for i
    using that by (simp add: w1)
  have old: "row_of w' c r = row_of w c r" if "(c, r) \<notin> ?D" for c r
  proof -
    have "\<not> (c = sl_c dst \<and> sl_start dst \<le> r \<and> r < sl_start dst + ?n)"
    proof
      assume "c = sl_c dst \<and> sl_start dst \<le> r \<and> r < sl_start dst + ?n"
      then have "(c, r) = (sl_c dst, sl_start dst + (r - sl_start dst))" "r - sl_start dst \<in> {0..<?n}" by auto
      then show False using that unfolding slice_rows_def by blast
    qed
    then show ?thesis using F(1) by (auto simp: w1)
  qed
  have moved: "located w' (sl_c dst) (sl_start dst + i) \<and> e_id (row_of w' (sl_c dst) (sl_start dst + i)) \<notin> set fl"
    if "i < ?n" for i
    using loc [OF that] F(5) [OF that] room that new [OF that] len
    by (simp add: located_def Let_def entity_exist_def)
  have kept: "located w' c r \<and> e_id (row_of w' c r) \<notin> set fl" if cr: "(c, r) \<in> L" "(c, r) \<notin> ?S" for c r
  proof -
    have l: "located w c r" "e_id (row_of w c r) \<notin> set fl" using inv cr by (auto simp: tab_inv_def)
    have "e_id (row_of w c r) \<noteq> ?x i" if i: "i < ?n" for i
      using located_unique [OF l(1) loc(1) [OF i]] cr(2) i by (auto simp: slice_rows_def)
    then have "data_of w' (e_id (row_of w c r)) = data_of w (e_id (row_of w c r))" unfolding len by (intro F(6)) auto
    moreover have "row_of w' c r = row_of w c r" using old cr(1) fresh by blast
    ultimately show ?thesis using l len by (simp add: located_def Let_def entity_exist_def)
  qed
  have chain: "free_chain (datas (ents w')) (free_head (ents w')) fl"
  proof (rule free_chain_cong)
    show "free_chain (datas (ents w)) (free_head (ents w')) fl" using inv len by (simp add: tab_inv_def)
    fix z assume z: "z \<in> set fl"
    then have "z \<notin> ?x ` {..<?n}" using loc(2) by auto
    then have "data_of w' z = data_of w z" unfolding len by (rule F(6))
    then show "z < length (datas (ents w')) \<and> datas (ents w') ! z = datas (ents w) ! z"
      using len(1) e_id_lt_iff [OF inv z] by (simp add: data_of_def)
  qed
  have "ed_v (data_of w' z) = ed_v (data_of w z)" for z
    using F(5,6) len by (cases "z \<in> ?x ` {..<?n}") auto
  moreover have "ed_v (data_of w z) < 256" if "z < length (datas (ents w))" for z
    using inv that by (simp add: tab_inv_def data_of_def)
  ultimately have "ed_v (datas (ents w') ! z) < 256" if "z < length (datas (ents w'))" for z
    using that len(1) unfolding data_of_def by simp
  then have small: "\<forall>d \<in> set (datas (ents w')). ed_v d < 256"
    by (auto simp: in_set_conv_nth)
  have placed: "\<forall>(c, r) \<in> L - ?S \<union> ?D. located w' c r \<and> e_id (row_of w' c r) \<notin> set fl"
    using moved kept by (auto simp: slice_rows_def)
  have "tab_inv w' (L - ?S \<union> ?D) fl"
    using inv len chain small placed by (simp add: tab_inv_def)
  then show ?thesis using new old by blast
qed

text \<open>C15. \<open>move_entities\<close>: the rows of the source range are copied to the slice and the table
  follows.  Afterwards every moved handle is found at its new row, every other placed row is
  where it was, and the free list is untouched.\<close>

theorem move_entities_correct:
  assumes inv: "tab_inv w L fl"
    and src: "slice_rows \<lparr>sl_c = src, sl_start = srcIndex, sl_count = 0\<rparr> 0 (sl_count dst) \<subseteq> L"
    and fresh: "slice_rows dst 0 (sl_count dst) \<inter> L = {}" and room: "sl_start dst + sl_count dst \<le> 2 ^ 24"
    and w': "w' = move_entities dst src srcIndex w"
  shows "tab_inv w' (L - slice_rows \<lparr>sl_c = src, sl_start = srcIndex, sl_count = 0\<rparr> 0 (sl_count dst)
           \<union> slice_rows dst 0 (sl_count dst)) fl
    \<and> (\<forall>i < sl_count dst. row_of w' (sl_c dst) (sl_start dst + i) = row_of w src (srcIndex + i))
    \<and> (\<forall>c r. (c, r) \<notin> slice_rows dst 0 (sl_count dst) \<longrightarrow> row_of w' c r = row_of w c r)"
  by (rule move_entities_table [OF assms])

text \<open>Compacting a chunk: \<open>fill_entities\<close> does not rewrite the chunk pointers, which for
  placed rows of the same chunk is the same as \<open>move_entities\<close> within that chunk.\<close>

lemma fill_entities_is_move:
  assumes inv: "tab_inv w L fl"
    and src: "slice_rows \<lparr>sl_c = sl_c dst, sl_start = srcIndex, sl_count = 0\<rparr> 0 (sl_count dst) \<subseteq> L"
  shows "fill_entities dst srcIndex w = move_entities dst (sl_c dst) srcIndex w"
proof -
  let ?n = "sl_count dst" let ?x = "\<lambda>i. e_id (row_of w (sl_c dst) (srcIndex + i))"
  let ?f = "\<lambda>i. set_ed_i (sl_start dst + i)" let ?g = "\<lambda>i d. set_ed_c (sl_c dst) (?f i d)"
  have mem: "(sl_c dst, srcIndex + i) \<in> L" if "i < ?n" for i
    using src that by (auto simp: slice_rows_def)
  have inj: "inj_on ?x {..<?n}" using slice_ids_inj [OF inv mem] .
  have len: "?x i < length (datas (ents w))" if "i < ?n" for i using tab_inv_used [OF inv mem [OF that]] .
  have "for_up (\<lambda>i. set_data (?x i) (?f i)) 0 k w = for_up (\<lambda>i. set_data (?x i) (?g i)) 0 k w" if "k \<le> ?n" for k
    using that
  proof (induction k)
    case (Suc k)
    let ?w = "for_up (\<lambda>i. set_data (?x i) (?g i)) 0 k w"
    have L: "\<forall>z. z \<notin> ?x ` {..<k} \<longrightarrow> data_of ?w z = data_of w z"
      using data_loop [of ?x k w ?g] inj len Suc.prems by (auto simp: inj_on_def)
    have "?x k \<notin> ?x ` {..<k}"
      using inj_onD [OF inj, of k] Suc.prems by fastforce
    then have "data_of ?w (?x k) = data_of w (?x k)" using L by blast
    moreover have "ed_c (data_of w (?x k)) = sl_c dst"
      using inv mem [of k] Suc.prems by (auto simp: tab_inv_def located_def Let_def)
    ultimately have "?f k (data_of ?w (?x k)) = ?g k (data_of ?w (?x k))"
      by (simp add: set_ed_c_def set_ed_i_def ed_c_def)
    then have "set_data (?x k) (?f k) ?w = set_data (?x k) (?g k) ?w" by (rule set_data_cong)
    then show ?case using Suc by (simp add: for_up_Suc)
  qed simp
  from this [OF order.refl] show ?thesis
    by (simp add: fill_entities_def move_entities_def Let_def row_of_def)
qed

section \<open>Examples\<close>

text \<open>Two entities in slots 1 and 2, rows 0 and 1 of chunk 2; slot 0 is not in use.\<close>

definition placed_pair :: world where
  "placed_pair = (let w = blank_memory context_init in
     w\<lparr>ents := \<lparr>datas = [\<lparr>ed_u = 0, ed_i = 0, ed_v = 0\<rparr>, \<lparr>ed_u = 2, ed_i = 0, ed_v = 3\<rparr>,
          \<lparr>ed_u = 2, ed_i = 1, ed_v = 4\<rparr>], free_head = 0\<rparr>,
       chunks := (\<lambda>_. zero_chunk)(2 := zero_chunk\<lparr>c_ents := (\<lambda>k. if k = 0 then mk_handle 1 3 else mk_handle 2 4)\<rparr>)\<rparr>)"

lemma placed_pair_rows: "row_of placed_pair 2 0 = mk_handle 1 3" "row_of placed_pair 2 (Suc 0) = mk_handle 2 4"
  by (simp_all add: placed_pair_def Let_def row_of_def)

lemma placed_pair_inv: "tab_inv placed_pair {(2, 0), (2, Suc 0)} []"
  by (simp add: tab_inv_def located_def placed_pair_rows Let_def)
    (simp add: placed_pair_def entity_exist_def data_of_def blank_memory_def ed_c_def)

theorem new_entities_correct_witness:
  "e_id (row_of (new_entities \<lparr>sl_c = 3, sl_start = 7, sl_count = 2\<rparr> placed_pair) 3 8) = 4"
proof -
  have len: "length (datas (ents placed_pair)) = 3" by (simp add: placed_pair_def Let_def)
  note T = new_entities_correct [OF placed_pair_inv, of "\<lparr>sl_c = 3, sl_start = 7, sl_count = 2\<rparr>", OF _ _ _ refl]
  have "slice_rows \<lparr>sl_c = 3, sl_start = 7, sl_count = 2\<rparr> 0 2 \<inter> {(2, 0), (2, Suc 0)} = {}"
    by (auto simp: slice_rows_def)
  with T len have "\<forall>k < 2. e_id (row_of (new_entities \<lparr>sl_c = 3, sl_start = 7, sl_count = 2\<rparr> placed_pair) 3 (7 + k)) = 3 + k"
    by simp
  from this [rule_format, of 1] show ?thesis by simp
qed

theorem free_entities_correct_witness:
  "\<not> entity_exist (free_entities \<lparr>sl_c = 2, sl_start = 0, sl_count = 2\<rparr> placed_pair) (mk_handle 2 4)"
proof -
  let ?s = "\<lparr>sl_c = 2, sl_start = 0, sl_count = 2\<rparr>"
  have "slice_rows ?s 0 (sl_count ?s) \<subseteq> {(2, 0), (2, Suc 0)}" by (auto simp: slice_rows_def)
  moreover have "\<forall>i < sl_count ?s. e_id (row_of placed_pair (sl_c ?s) (sl_start ?s + i)) \<noteq> 0"
    by (auto simp: placed_pair_rows less_2_cases_iff)
  ultimately have "\<forall>i < 2. \<not> entity_exist (free_entities ?s placed_pair) (row_of placed_pair 2 i)"
    using free_entities_correct [OF placed_pair_inv, of ?s, OF _ _ _ _ refl] by simp
  from this [rule_format, of 1] show ?thesis by (simp add: placed_pair_rows)
qed

theorem move_entities_correct_witness:
  "row_of (move_entities \<lparr>sl_c = 3, sl_start = 5, sl_count = 2\<rparr> 2 0 placed_pair) 3 6 = mk_handle 2 4"
proof -
  let ?s = "\<lparr>sl_c = 3, sl_start = 5, sl_count = 2\<rparr>"
  have "slice_rows \<lparr>sl_c = 2, sl_start = 0, sl_count = 0\<rparr> 0 (sl_count ?s) \<subseteq> {(2, 0), (2, Suc 0)}"
    by (auto simp: slice_rows_def)
  moreover have "slice_rows ?s 0 (sl_count ?s) \<inter> {(2, 0), (2, Suc 0)} = {}" by (auto simp: slice_rows_def)
  ultimately have "\<forall>i < 2. row_of (move_entities ?s 2 0 placed_pair) 3 (5 + i) = row_of placed_pair 2 (0 + i)"
    using move_entities_correct [OF placed_pair_inv, of 2 0 ?s, OF _ _ _ refl] by simp
  from this [rule_format, of 1] show ?thesis by (simp add: placed_pair_rows)
qed

lemma fill_entities_is_move_example:
  "fill_entities \<lparr>sl_c = 2, sl_start = 0, sl_count = 1\<rparr> (Suc 0) placed_pair
     = move_entities \<lparr>sl_c = 2, sl_start = 0, sl_count = 1\<rparr> 2 (Suc 0) placed_pair"
  using fill_entities_is_move [OF placed_pair_inv, of "\<lparr>sl_c = 2, sl_start = 0, sl_count = 1\<rparr>" "Suc 0"]
  by (simp add: slice_rows_def)

end
