(* ===== verification/Access.thy ===== *)
theory Access
  imports Entity_Table Chunk_Data "HOL-Library.Monad_Syntax"
begin

text \<open>
  Reading the components of an entity or a slice (the \<open>get_\<close>, \<open>own_\<close>, \<open>share_\<close>, \<open>has_\<close> and
  \<open>_component_enabled\<close> functions of \<open>world\<close>) and the batching of entities into slices
  (\<open>world::iter\<close>, \<open>world::next\<close>, \<open>batch_range\<close>).

  A pointer to a component value is a chunk and an offset from its \<open>data()\<close>.  The functions
  that follow the meta entities of an archetype are partial: when the meta entities form a
  cycle they recur for ever, which is the value \<open>None\<close> of the outer option.  The dereference
  of a null pointer and the exception of \<open>std::bitset\<close> are \<open>None\<close> too.
\<close>

type_synonym place = "ptr \<times> nat"

section \<open>Owned components\<close>

definition arch_of_entity :: "world \<Rightarrow> entity \<Rightarrow> ptr" where
  "arch_of_entity w e = c_type (chunks w (ed_c (data_of w (e_id e))))"

definition get_archetype_of :: "world \<Rightarrow> entity \<Rightarrow> ptr" where
  "get_archetype_of w e = (if \<not> entity_exist w e then 0 else arch_of_entity w e)"

definition get_type :: "world \<Rightarrow> entity \<Rightarrow> entity_type" where
  "get_type w e = arch_type (archs w (arch_of_entity w e))"

definition get_size :: "world \<Rightarrow> type_index \<Rightarrow> nat" where
  "get_size w t = u16 (r_size (infos (w_ctx w) ! ti_index t))"

definition get_entities :: "world \<Rightarrow> chunk_slice \<Rightarrow> nat \<Rightarrow> entity" where
  "get_entities w s i = c_ents (chunks w (sl_c s)) (sl_start s + i)"

definition first_entity :: "world \<Rightarrow> chunk_slice \<Rightarrow> entity" where
  "first_entity w s = c_ents (chunks w (sl_c s)) (sl_start s)"

definition stamp_column :: "ptr \<Rightarrow> nat \<Rightarrow> world \<Rightarrow> world" where
  "stamp_column c k w = upd_chunk c (\<lambda>ch. ch\<lparr>c_stamps := (c_stamps ch)(k := timestamp w)\<rparr>) w"

definition slice_owned_ro :: "world \<Rightarrow> chunk_slice \<Rightarrow> type_index \<Rightarrow> place option" where
  "slice_owned_ro w s t =
     (let c = sl_c s; g = chunk_arch w c; k = arch_index g t in
      if k = InvalidIndex \<or> k \<ge> firstTag g then None else Some (c, cell_addr w c k (sl_start s)))"

definition slice_owned_rw :: "chunk_slice \<Rightarrow> type_index \<Rightarrow> world \<Rightarrow> place option \<times> world" where
  "slice_owned_rw s t w =
     (let c = sl_c s; g = chunk_arch w c; k = arch_index g t in
      if k = InvalidIndex \<or> k \<ge> firstTag g then (None, w)
      else (Some (c, cell_addr w c k (sl_start s)), stamp_column c k w))"

definition owned_ro_local :: "world \<Rightarrow> chunk_slice \<Rightarrow> nat \<Rightarrow> place" where
  "owned_ro_local w s k = (sl_c s, cell_addr w (sl_c s) k (sl_start s))"

definition owned_rw_local :: "chunk_slice \<Rightarrow> nat \<Rightarrow> world \<Rightarrow> place \<times> world" where
  "owned_rw_local s k w = ((sl_c s, cell_addr w (sl_c s) k (sl_start s)), stamp_column (sl_c s) k w)"

definition get_owned_ro :: "world \<Rightarrow> entity \<Rightarrow> type_index \<Rightarrow> place option" where
  "get_owned_ro w e t = (if \<not> entity_exist w e then None else slice_owned_ro w (as_slice w e) t)"

definition get_owned_rw :: "entity \<Rightarrow> type_index \<Rightarrow> world \<Rightarrow> place option \<times> world" where
  "get_owned_rw e t w = (if \<not> entity_exist w e then (None, w) else slice_owned_rw (as_slice w e) t w)"

section \<open>Shared components\<close>

text \<open>
  \<open>get_shared_ro\<close> of an archetype from its meta entity \<open>i\<close> on; \<open>get_component_ro\<close> of an
  entity and of a slice are unfolded in it.
\<close>

partial_function (option) shared_ro_loop :: "world \<Rightarrow> ptr \<Rightarrow> type_index \<Rightarrow> nat \<Rightarrow> place option option" where
  "shared_ro_loop w g t i =
     (if i < metaCount (archs w g) then
        (let m = metatypes (archs w g) ! i; s = as_slice w m; g' = c_type (chunks w (sl_c s));
             k = arch_index (archs w g') t
         in Option.bind
              (if \<not> entity_exist w m then Some None
               else if k \<ge> firstTag (archs w g') then Some None
               else if k = InvalidIndex then shared_ro_loop w g' t 0
               else Some (Some (sl_c s, cell_addr w (sl_c s) k (sl_start s))))
              (\<lambda>r. if r \<noteq> None then Some r else shared_ro_loop w g t (i + 1)))
      else Some None)"

definition arch_shared_ro :: "world \<Rightarrow> ptr \<Rightarrow> type_index \<Rightarrow> place option option" where
  "arch_shared_ro w g t = shared_ro_loop w g t 0"

definition slice_shared_ro :: "world \<Rightarrow> chunk_slice \<Rightarrow> type_index \<Rightarrow> place option option" where
  "slice_shared_ro w s t = arch_shared_ro w (c_type (chunks w (sl_c s))) t"

definition slice_component_ro :: "world \<Rightarrow> chunk_slice \<Rightarrow> type_index \<Rightarrow> place option option" where
  "slice_component_ro w s t =
     (let c = sl_c s; g = chunk_arch w c; k = arch_index g t in
      if k \<ge> firstTag g then Some None
      else if k = InvalidIndex then arch_shared_ro w (c_type (chunks w c)) t
      else Some (Some (c, cell_addr w c k (sl_start s))))"

definition get_component_ro :: "world \<Rightarrow> entity \<Rightarrow> type_index \<Rightarrow> place option option" where
  "get_component_ro w e t = (if \<not> entity_exist w e then Some None else slice_component_ro w (as_slice w e) t)"

definition get_shared_ro :: "world \<Rightarrow> entity \<Rightarrow> type_index \<Rightarrow> place option option" where
  "get_shared_ro w e t = (if \<not> entity_exist w e then Some None else slice_shared_ro w (as_slice w e) t)"

definition own_component_arch :: "world \<Rightarrow> ptr \<Rightarrow> type_index list \<Rightarrow> bool" where
  "own_component_arch w g T = set_all (et_types (arch_type (archs w g))) T"

text \<open>\<open>share_component\<close> of an archetype from its meta entity \<open>i\<close> on, with \<open>has_component\<close>
  unfolded.\<close>

partial_function (option) share_loop :: "world \<Rightarrow> ptr \<Rightarrow> type_index list \<Rightarrow> nat \<Rightarrow> bool option" where
  "share_loop w g T i =
     (if i < metaCount (archs w g) then
        (let m = metatypes (archs w g) ! i; g' = arch_of_entity w m
         in Option.bind
              (if \<not> entity_exist w m then Some False
               else if own_component_arch w g' T then Some True
               else share_loop w g' T 0)
              (\<lambda>b. if b then Some True else share_loop w g T (i + 1)))
      else Some False)"

definition share_component_arch :: "world \<Rightarrow> ptr \<Rightarrow> type_index list \<Rightarrow> bool option" where
  "share_component_arch w g T = share_loop w g T 0"

definition has_component_arch :: "world \<Rightarrow> ptr \<Rightarrow> type_index list \<Rightarrow> bool option" where
  "has_component_arch w g T = (if own_component_arch w g T then Some True else share_component_arch w g T)"

definition share_component :: "world \<Rightarrow> entity \<Rightarrow> type_index list \<Rightarrow> bool option" where
  "share_component w e T = (if \<not> entity_exist w e then Some False else share_component_arch w (arch_of_entity w e) T)"

definition own_component :: "world \<Rightarrow> entity \<Rightarrow> type_index list \<Rightarrow> bool" where
  "own_component w e T = (if \<not> entity_exist w e then False else own_component_arch w (arch_of_entity w e) T)"

definition has_component :: "world \<Rightarrow> entity \<Rightarrow> type_index list \<Rightarrow> bool option" where
  "has_component w e T = (if \<not> entity_exist w e then Some False else has_component_arch w (arch_of_entity w e) T)"

definition is_a :: "world \<Rightarrow> entity \<Rightarrow> entity_type \<Rightarrow> bool" where
  "is_a w e t =
     (if \<not> entity_exist w e then False
      else let et = get_type w e in set_all (et_types et) (et_types t) \<and> set_all (et_metas et) (et_metas t))"

section \<open>Enabling components\<close>

text \<open>The mask of one entity: its bytes as a 32-bit set, and an update of it that stamps the
  mask column first.\<close>

definition mask_at :: "world \<Rightarrow> ptr \<Rightarrow> nat \<Rightarrow> mask" where
  "mask_at w c at = of_nat (rd 4 (bytes_of w c) at)"

definition mask_cell :: "world \<Rightarrow> entity \<Rightarrow> ptr \<times> nat" where
  "mask_cell w e =
     (let d = data_of w (e_id e); c = ed_c d in
      (c, cell_addr w c (arch_index (chunk_arch w c) (mask_id (w_ctx w))) (ed_i d)))"

definition update_mask :: "entity \<Rightarrow> type_index list \<Rightarrow> (mask \<Rightarrow> mask \<Rightarrow> mask) \<Rightarrow> world \<Rightarrow> world option" where
  "update_mask e T f w =
     (let (c, at) = mask_cell w e; g = chunk_arch w c in
      if \<not> entity_exist w e then Some w
      else if \<not> withMask g then Some w
      else do {
        mm \<leftarrow> arch_get_mask g T;
        let w1 = stamp_column c (arch_index g (mask_id (w_ctx w))) w;
        Some (on_mem c (\<lambda>m. wr 4 m at (unat (f (of_nat (rd 4 m at)) mm))) w1)
      })"

definition enable_component :: "entity \<Rightarrow> type_index list \<Rightarrow> world \<Rightarrow> world option" where
  "enable_component e T = update_mask e T (\<lambda>m mm. m OR mm)"

definition disable_component :: "entity \<Rightarrow> type_index list \<Rightarrow> world \<Rightarrow> world option" where
  "disable_component e T = update_mask e T (\<lambda>m mm. m AND (NOT mm))"

definition is_component_enabled :: "world \<Rightarrow> entity \<Rightarrow> type_index list \<Rightarrow> bool option" where
  "is_component_enabled w e T =
     (let (c, at) = mask_cell w e; g = chunk_arch w c in
      if \<not> entity_exist w e then Some False
      else if \<not> withMask g then Some True
      else do {
        mm \<leftarrow> arch_get_mask g T;
        Some (mask_at w c at AND mm = mm)
      })"

section \<open>Batches\<close>

text \<open>\<open>batch_iter\<close> over the entities \<open>es\<close>; \<open>next\<close> returns whether it stopped before the end.\<close>

record batch_iter =
  bi_i :: nat
  bi_s :: chunk_slice

function extend_run :: "world \<Rightarrow> entity list \<Rightarrow> ptr \<Rightarrow> nat \<Rightarrow> nat \<Rightarrow> nat \<Rightarrow> nat \<times> nat \<times> bool" where
  "extend_run w es c start n i =
     (if i < length es then
        (let curr = data_of w (e_id (es ! i)) in
         if ed_i curr \<noteq> start + n \<or> ed_c curr \<noteq> c then (i, n, True)
         else extend_run w es c start (n + 1) (i + 1))
      else (i, n, False))"
  by auto
termination
  by (relation "measure (\<lambda>(w, es, c, start, n, i). length es - i)") auto

declare extend_run.simps [simp del]

definition batch_next :: "world \<Rightarrow> entity list \<Rightarrow> batch_iter \<Rightarrow> bool \<times> batch_iter" where
  "batch_next w es it =
     (if bi_i it \<ge> length es then (False, it)
      else
        let start = data_of w (e_id (es ! bi_i it));
            (i, n, more) = extend_run w es (ed_c start) (ed_i start) 1 (bi_i it + 1)
        in (more, \<lparr>bi_i = i, bi_s = \<lparr>sl_c = ed_c start, sl_start = ed_i start, sl_count = n\<rparr>\<rparr>))"

definition batch_iter_init :: "world \<Rightarrow> entity list \<Rightarrow> batch_iter" where
  "batch_iter_init w es = snd (batch_next w es \<lparr>bi_i = 0, bi_s = \<lparr>sl_c = 0, sl_start = 0, sl_count = 0\<rparr>\<rparr>)"

text \<open>\<open>for (auto s : batch(es, count))\<close>: the slices the loop visits.  The iterator is valid at
  first; \<open>operator++\<close> makes \<open>next\<close>'s result its validity.\<close>

lemma extend_run_bounds:
  "extend_run w es c start n i = (i', n', b) \<Longrightarrow> i \<le> length es \<Longrightarrow>
     i \<le> i' \<and> i' \<le> length es \<and> (b \<longleftrightarrow> i' < length es) \<and> n' + i = n + i'"
proof (induction w es c start n i rule: extend_run.induct)
  case (1 w es c start n i)
  then show ?case
    by (fastforce simp: extend_run.simps [of w es c start n i] Let_def split: if_splits)
qed

lemma batch_next_less:
  "batch_next w es it = (True, it') \<Longrightarrow> length es - bi_i it' < length es - bi_i it"
  using extend_run_bounds by (fastforce simp: batch_next_def Let_def split: if_splits prod.splits)

function batch_loop :: "world \<Rightarrow> entity list \<Rightarrow> batch_iter \<Rightarrow> chunk_slice list" where
  "batch_loop w es it =
     bi_s it # (case batch_next w es it of (valid, it') \<Rightarrow> if valid then batch_loop w es it' else [])"
  by auto
termination
  by (relation "measure (\<lambda>(w, es, it). length es - bi_i it)")
    (auto dest: batch_next_less [OF sym])

declare batch_loop.simps [simp del]

definition batch_slices :: "world \<Rightarrow> entity list \<Rightarrow> chunk_slice list" where
  "batch_slices w es = batch_loop w es (batch_iter_init w es)"

section \<open>Shared lookups\<close>

text \<open>C38. \<open>get_component_ro\<close> of a slice and of an entity never looks at the shared components:
  \<open>InvalidIndex\<close> is the largest \<open>tsize_t\<close>, so the test against \<open>firstTag\<close> already sends a type the
  archetype does not own to the null pointer.  Both agree with \<open>get_owned_ro\<close>, and
  \<open>get_shared_ro\<close> finds the owned component of the first meta entity that has one, without
  recursion, so that all of them return.\<close>

theorem component_ro_is_owned_ro:
  assumes bound: "\<forall>g. firstTag (archs w g) \<le> InvalidIndex"
  shows "slice_component_ro w s t = Some (slice_owned_ro w s t)
    \<and> get_component_ro w e t = Some (get_owned_ro w e t)
    \<and> arch_shared_ro w g t = Some (Option.bind (List.find (\<lambda>m. get_owned_ro w m t \<noteq> None)
          (map ((!) (metatypes (archs w g))) [0..<metaCount (archs w g)])) (\<lambda>m. get_owned_ro w m t))"
proof -
  have slice: "slice_component_ro w s t = Some (slice_owned_ro w s t)" for s
    using bound by (auto simp: slice_component_ro_def slice_owned_ro_def Let_def chunk_arch_def)
  have loop: "shared_ro_loop w g t i = Some (Option.bind (List.find (\<lambda>m. get_owned_ro w m t \<noteq> None)
      (map ((!) (metatypes (archs w g))) [i..<metaCount (archs w g)])) (\<lambda>m. get_owned_ro w m t))" for i
  proof (induction "metaCount (archs w g) - i" arbitrary: i)
    case 0
    then show ?case by (simp add: shared_ro_loop.simps [of w g t i])
  next
    case (Suc n)
    let ?m = "metatypes (archs w g) ! i"
    have i: "i < metaCount (archs w g)" using Suc.hyps(2) by simp
    have "Option.bind (if \<not> entity_exist w ?m then Some None
               else if arch_index (archs w (c_type (chunks w (sl_c (as_slice w ?m))))) t
                         \<ge> firstTag (archs w (c_type (chunks w (sl_c (as_slice w ?m))))) then Some None
               else if arch_index (archs w (c_type (chunks w (sl_c (as_slice w ?m))))) t = InvalidIndex
                    then shared_ro_loop w (c_type (chunks w (sl_c (as_slice w ?m)))) t 0
               else Some (Some (sl_c (as_slice w ?m), cell_addr w (sl_c (as_slice w ?m))
                      (arch_index (archs w (c_type (chunks w (sl_c (as_slice w ?m))))) t) (sl_start (as_slice w ?m)))))
            F = F (get_owned_ro w ?m t)" for F :: "place option \<Rightarrow> place option option"
      using bound by (auto simp: get_owned_ro_def slice_owned_ro_def Let_def chunk_arch_def)
    then show ?case
      using Suc.hyps(1) [of "Suc i"] Suc.hyps(2) i
      by (simp add: shared_ro_loop.simps [of w g t i] Let_def upt_conv_Cons del: upt_Suc)
  qed
  show ?thesis
    using slice loop [of 0] by (simp add: get_component_ro_def get_owned_ro_def arch_shared_ro_def)
qed

text \<open>The archetypes of the live meta entities of an archetype.\<close>

definition meta_edge :: "world \<Rightarrow> ptr \<Rightarrow> ptr \<Rightarrow> bool" where
  "meta_edge w g g' \<longleftrightarrow> (\<exists>i < metaCount (archs w g). let m = metatypes (archs w g) ! i in
     entity_exist w m \<and> g' = arch_of_entity w m)"

text \<open>C37. When the meta entities form no cycle, \<open>share_component\<close> returns, and says whether some
  archetype reached over live meta entities in one or more steps owns all the types.\<close>

theorem share_component_reachable:
  assumes wf: "wfp (\<lambda>g' g. meta_edge w g g')"
  shows "share_component_arch w g T
    = Some (\<exists>g'. (meta_edge w)\<^sup>+\<^sup>+ g g' \<and> own_component_arch w g' T)"
  using wf
proof (induction g rule: wfp_induct_rule)
  case (less g)
  let ?n = "metaCount (archs w g)" let ?m = "\<lambda>i. metatypes (archs w g) ! i" let ?g = "\<lambda>i. arch_of_entity w (?m i)"
  let ?P = "\<lambda>g. \<exists>g'. (meta_edge w)\<^sup>+\<^sup>+ g g' \<and> own_component_arch w g' T"
  have loop: "share_loop w g T i = Some (\<exists>j \<in> {i..<?n}. entity_exist w (?m j) \<and> (own_component_arch w (?g j) T \<or> ?P (?g j)))" for i
  proof (induction "?n - i" arbitrary: i)
    case 0
    then show ?case by (simp add: share_loop.simps [of w g T i])
  next
    case (Suc n)
    have i: "i < ?n" using Suc.hyps(2) by simp
    have rest: "share_loop w g T (i + 1)
        = Some (\<exists>j \<in> {i + 1..<?n}. entity_exist w (?m j) \<and> (own_component_arch w (?g j) T \<or> ?P (?g j)))"
      using Suc.hyps by simp
    have range: "{i..<?n} = insert i {i + 1..<?n}" using i by auto
    have edge: "share_loop w (?g i) T 0 = Some (?P (?g i))" if "entity_exist w (?m i)"
    proof -
      have "meta_edge w g (?g i)" using i that by (auto simp: meta_edge_def Let_def)
      from less.IH [OF this] show ?thesis by (simp add: share_component_arch_def)
    qed
    show ?case
      unfolding share_loop.simps [of w g T i] range
      using i rest edge by (auto simp: Let_def)
  qed
  have "?P g \<longleftrightarrow> (\<exists>g'. meta_edge w g g' \<and> (own_component_arch w g' T \<or> ?P g'))"
    by (metis tranclp.r_into_trancl tranclp_into_tranclp2 tranclpD rtranclpD)
  also have "\<dots> \<longleftrightarrow> (\<exists>j \<in> {0..<?n}. entity_exist w (?m j) \<and> (own_component_arch w (?g j) T \<or> ?P (?g j)))"
    unfolding meta_edge_def Let_def by (auto simp del: ex_simps) blast+
  finally show ?case using loop [of 0] by (simp add: share_component_arch_def)
qed

section \<open>Enabling\<close>

lemma arch_get_mask_bits:
  assumes "ssorted (g_types g)" "length (g_types g) \<le> 32" "ssorted T"
  obtains mm where "arch_get_mask g T = Some mm"
    "\<And>k. bit mm k \<longleftrightarrow> k < length (g_types g) \<and> g_types g ! k \<in> set T"
proof -
  obtain m where m: "get_mask_loop (g_types g) T 0 0 = Some m"
    using get_mask_loop_defined [of 0 "g_types g" T 0] assms(2) by auto
  show ?thesis
    using get_mask_loop_bits [OF assms(1,3) m] m
    by (intro that [of m]) (auto simp: arch_get_mask_def types_mask_def arch_type_def)
qed

definition masked_entity :: "world \<Rightarrow> entity \<Rightarrow> bool" where
  "masked_entity w e \<longleftrightarrow> entity_exist w e \<and> (let g = chunk_arch w (fst (mask_cell w e)) in
     withMask g \<and> ssorted (g_types g) \<and> length (g_types g) \<le> 32)"

definition enabled_bit :: "world \<Rightarrow> entity \<Rightarrow> nat \<Rightarrow> bool" where
  "enabled_bit w e k \<longleftrightarrow> bit (case mask_cell w e of (c, at) \<Rightarrow> mask_at w c at) k"

lemma word_and_eq_iff: "(m :: mask) AND mm = mm \<longleftrightarrow> (\<forall>k. bit mm k \<longrightarrow> bit m k)"
proof
  assume eq: "m AND mm = mm"
  have "bit (m AND mm) k = (bit m k \<and> bit mm k)" for k by (rule bit_and_iff)
  then show "\<forall>k. bit mm k \<longrightarrow> bit m k" unfolding eq by blast
next
  assume "\<forall>k. bit mm k \<longrightarrow> bit m k"
  then show "m AND mm = mm" by (intro bit_eqI) (auto simp: bit_and_iff)
qed

lemma is_component_enabled_bits:
  assumes "masked_entity w e" "ssorted S"
  defines "ts \<equiv> g_types (chunk_arch w (fst (mask_cell w e)))"
  shows "is_component_enabled w e S = Some (\<forall>k < length ts. ts ! k \<in> set S \<longrightarrow> enabled_bit w e k)"
proof -
  obtain c at where ca: "mask_cell w e = (c, at)" by fastforce
  have "ssorted (g_types (chunk_arch w c))" "length (g_types (chunk_arch w c)) \<le> 32"
    using assms(1) ca by (auto simp: masked_entity_def Let_def)
  then obtain mm where mm: "arch_get_mask (chunk_arch w c) S = Some mm"
    "\<And>k. bit mm k \<longleftrightarrow> k < length ts \<and> ts ! k \<in> set S"
    using assms(2) ca unfolding ts_def by (metis arch_get_mask_bits fst_conv)
  have "mask_at w c at AND mm = mm \<longleftrightarrow> (\<forall>k. bit mm k \<longrightarrow> bit (mask_at w c at) k)"
    by (rule word_and_eq_iff)
  then show ?thesis
    using assms(1) ca mm by (auto simp: is_component_enabled_def masked_entity_def enabled_bit_def Let_def)
qed

lemma update_mask_effect:
  assumes "masked_entity w e" "ssorted T" "mask_cell w e = (c, at)"
  obtains w' mm where "update_mask e T f w = Some w'" "mask_cell w' e = (c, at)" "masked_entity w' e"
    "mask_at w' c at = f (mask_at w c at) mm" "chunk_arch w' c = chunk_arch w c"
    "\<And>k. bit mm k \<longleftrightarrow> k < length (g_types (chunk_arch w c)) \<and> g_types (chunk_arch w c) ! k \<in> set T"
    "\<And>c' x. c' \<noteq> c \<or> x < at \<or> at + 4 \<le> x \<Longrightarrow> bytes_of w' c' x = bytes_of w c' x"
proof -
  let ?g = "chunk_arch w c"
  have "ssorted (g_types ?g)" "length (g_types ?g) \<le> 32"
    using assms(1,3) by (auto simp: masked_entity_def Let_def)
  then obtain mm where mm: "arch_get_mask ?g T = Some mm"
    "\<And>k. bit mm k \<longleftrightarrow> k < length (g_types ?g) \<and> g_types ?g ! k \<in> set T"
    using assms(2) arch_get_mask_bits by blast
  let ?w = "on_mem c (\<lambda>m. wr 4 m at (unat (f (of_nat (rd 4 m at)) mm)))
              (stamp_column c (arch_index ?g (mask_id (w_ctx w))) w)"
  have u: "update_mask e T f w = Some ?w"
    using assms(1,3) mm(1) by (auto simp: update_mask_def masked_entity_def Let_def)
  have g: "chunk_arch ?w x = chunk_arch w x" for x
    by (simp add: on_mem_def stamp_column_def chunk_arch_def)
  have ex: "data_of ?w = data_of w" "entity_exist ?w = entity_exist w" "w_ctx ?w = w_ctx w"
    "c_ct (chunks ?w x) = c_ct (chunks w x)" for x
    by (simp_all add: on_mem_def stamp_column_def upd_chunk_def data_of_def [abs_def] entity_exist_def [abs_def])
  have cell: "mask_cell ?w e = (c, at)"
    using assms(3) unfolding mask_cell_def cell_addr_def Let_def g ex by auto
  have "unat (x :: mask) < 256 ^ 4" for x using unsigned_less [of x] by simp
  then have "mask_at ?w c at = f (mask_at w c at) mm"
    by (simp add: mask_at_def bytes_of_def on_mem_def stamp_column_def rd_wr_same)
  moreover have "bytes_of ?w c' x = bytes_of w c' x" if "c' \<noteq> c \<or> x < at \<or> at + 4 \<le> x" for c' x
    using that by (auto simp: bytes_of_def on_mem_def stamp_column_def upd_chunk_def wr_out)
  moreover have "masked_entity ?w e"
    using assms(1,3) unfolding masked_entity_def Let_def cell assms(3) g ex by simp
  ultimately show ?thesis using that u cell g mm(2) by blast
qed

text \<open>C32. Enabling sets exactly the bits of the given components in the entity's mask, disabling
  clears exactly them; \<open>is_component_enabled\<close> then says that all of the asked components'
  bits are set; no byte outside the mask changes.\<close>

theorem enable_disable_component:
  assumes e: "masked_entity w e" and T: "ssorted T" and ca: "mask_cell w e = (c, at)"
    and ts: "ts = g_types (chunk_arch w c)"
  shows "\<exists>w1 w2. enable_component e T w = Some w1 \<and> disable_component e T w = Some w2
    \<and> (\<forall>k < length ts. (enabled_bit w1 e k \<longleftrightarrow> ts ! k \<in> set T \<or> enabled_bit w e k)
          \<and> (enabled_bit w2 e k \<longleftrightarrow> ts ! k \<notin> set T \<and> enabled_bit w e k))
    \<and> (\<forall>v \<in> {w, w1, w2}. \<forall>S. ssorted S \<longrightarrow>
          is_component_enabled v e S = Some (\<forall>k < length ts. ts ! k \<in> set S \<longrightarrow> enabled_bit v e k))
    \<and> (\<forall>v \<in> {w1, w2}. \<forall>c' x. c' \<noteq> c \<or> x < at \<or> at + 4 \<le> x \<longrightarrow> bytes_of v c' x = bytes_of w c' x)"
proof -
  let ?or = "\<lambda>m mm. m OR mm :: mask" let ?an = "\<lambda>m mm. m AND (NOT mm) :: mask"
  obtain w1 m1 where 1: "enable_component e T w = Some w1" "mask_cell w1 e = (c, at)" "masked_entity w1 e"
    "mask_at w1 c at = mask_at w c at OR m1" "chunk_arch w1 c = chunk_arch w c"
    "\<And>k. bit m1 k \<longleftrightarrow> k < length ts \<and> ts ! k \<in> set T"
    "\<And>c' x. c' \<noteq> c \<or> x < at \<or> at + 4 \<le> x \<Longrightarrow> bytes_of w1 c' x = bytes_of w c' x"
    by (rule update_mask_effect [OF e T ca, of ?or, folded enable_component_def ts]) (rule that; assumption)
  obtain w2 m2 where 2: "disable_component e T w = Some w2" "mask_cell w2 e = (c, at)" "masked_entity w2 e"
    "mask_at w2 c at = mask_at w c at AND (NOT m2)" "chunk_arch w2 c = chunk_arch w c"
    "\<And>k. bit m2 k \<longleftrightarrow> k < length ts \<and> ts ! k \<in> set T"
    "\<And>c' x. c' \<noteq> c \<or> x < at \<or> at + 4 \<le> x \<Longrightarrow> bytes_of w2 c' x = bytes_of w c' x"
    by (rule update_mask_effect [OF e T ca, of ?an, folded disable_component_def ts]) (rule that; assumption)
  have len: "length ts \<le> 32" using e ca ts by (auto simp: masked_entity_def Let_def)
  have bits: "\<forall>k < length ts. (enabled_bit w1 e k \<longleftrightarrow> ts ! k \<in> set T \<or> enabled_bit w e k)
          \<and> (enabled_bit w2 e k \<longleftrightarrow> ts ! k \<notin> set T \<and> enabled_bit w e k)"
    using 1(2,4,6) 2(2,4,6) ca len by (auto simp: enabled_bit_def bit_or_iff bit_and_iff bit_not_iff)
  have g: "g_types (chunk_arch v (fst (mask_cell v e))) = ts" "masked_entity v e" if "v \<in> {w, w1, w2}" for v
    using that e 1(2,3,5) 2(2,3,5) ca ts by auto
  have "is_component_enabled v e S = Some (\<forall>k < length ts. ts ! k \<in> set S \<longrightarrow> enabled_bit v e k)"
    if "v \<in> {w, w1, w2}" "ssorted S" for v S
    using is_component_enabled_bits [OF g(2) [OF that(1)] that(2)] unfolding g(1) [OF that(1)] .
  moreover have "bytes_of v c' x = bytes_of w c' x" if "v \<in> {w1, w2}" "c' \<noteq> c \<or> x < at \<or> at + 4 \<le> x" for v c' x
    using that(1) 1(7) [OF that(2)] 2(7) [OF that(2)] by auto
  ultimately show ?thesis using 1(1) 2(1) bits by blast
qed

section \<open>Batches\<close>

text \<open>The maximal runs of consecutive rows of one chunk.\<close>

fun runs :: "(ptr \<times> nat) list \<Rightarrow> chunk_slice list" where
  "runs [] = []"
| "runs ((c, i) # ps) =
     (case runs ps of
        [] \<Rightarrow> [\<lparr>sl_c = c, sl_start = i, sl_count = 1\<rparr>]
      | s # ss \<Rightarrow> if sl_c s = c \<and> sl_start s = i + 1 then \<lparr>sl_c = c, sl_start = i, sl_count = sl_count s + 1\<rparr> # ss
                  else \<lparr>sl_c = c, sl_start = i, sl_count = 1\<rparr> # s # ss)"

definition rows_of :: "world \<Rightarrow> entity list \<Rightarrow> (ptr \<times> nat) list" where
  "rows_of w es = map (\<lambda>e. (ed_c (data_of w (e_id e)), ed_i (data_of w (e_id e)))) es"

lemma runs_Cons: "\<exists>n ss. runs ((c, i) # ps) = \<lparr>sl_c = c, sl_start = i, sl_count = n\<rparr> # ss"
  by (auto split: list.split)

lemma runs_empty [simp]: "runs ps = [] \<longleftrightarrow> ps = []"
  by (cases ps) (auto split: list.splits if_splits)

definition rows_in :: "chunk_slice \<Rightarrow> (ptr \<times> nat) list" where
  "rows_in s = map (\<lambda>k. (sl_c s, sl_start s + k)) [0..<sl_count s]"

lemma rows_in_one: "rows_in \<lparr>sl_c = c, sl_start = i, sl_count = Suc 0\<rparr> = [(c, i)]"
  by (simp add: rows_in_def)

lemma rows_in_Suc:
  "rows_in \<lparr>sl_c = c, sl_start = i, sl_count = Suc n\<rparr> = (c, i) # rows_in \<lparr>sl_c = c, sl_start = Suc i, sl_count = n\<rparr>"
  by (rule nth_equalityI) (auto simp: rows_in_def nth_Cons simp del: upt_Suc split: nat.split)

lemma rows_in_eta:
  "sl_c s = c \<Longrightarrow> sl_start s = i \<Longrightarrow> rows_in \<lparr>sl_c = c, sl_start = i, sl_count = sl_count s\<rparr> = rows_in s"
  "rows_in \<lparr>sl_c = c, sl_start = i, sl_count = 0\<rparr> = []"
  by (simp_all add: rows_in_def)

lemma runs_extend:
  "runs ((c, Suc k) # ps) = \<lparr>sl_c = c, sl_start = Suc k, sl_count = m\<rparr> # ss \<Longrightarrow>
   runs ((c, k) # (c, Suc k) # ps) = \<lparr>sl_c = c, sl_start = k, sl_count = m + 1\<rparr> # ss"
  by (simp only: runs.simps(2) [of c k]) simp

text \<open>The runs cover the rows in order.\<close>

lemma runs_rows: "concat (map rows_in (runs ps)) = ps"
proof (induction ps rule: runs.induct)
  case (2 c i ps)
  show ?case
  proof (cases "runs ps")
    case Nil
    then show ?thesis by (simp add: rows_in_one)
  next
    case (Cons s ss)
    then have "rows_in s @ concat (map rows_in ss) = ps" using 2 by simp
    moreover have "s = \<lparr>sl_c = sl_c s, sl_start = sl_start s, sl_count = sl_count s\<rparr>" by simp
    ultimately show ?thesis using Cons by (auto simp: rows_in_one rows_in_Suc rows_in_eta)
  qed
qed simp

lemma extend_run_runs:
  "extend_run w es c start n i = (i', n', b) \<Longrightarrow> i \<le> length es \<Longrightarrow> 0 < n \<Longrightarrow>
     runs ((c, start + n - 1) # drop i (rows_of w es))
       = \<lparr>sl_c = c, sl_start = start + n - 1, sl_count = n' - n + 1\<rparr> # runs (drop i' (rows_of w es))"
proof (induction w es c start n i rule: extend_run.induct)
  case (1 w es c start n i)
  show ?case
  proof (cases "i < length es")
    case False
    then have "extend_run w es c start n i = (i, n, False)" by (subst extend_run.simps) simp
    then have "i' = i" "n' = n" using "1.prems"(1) by auto
    then show ?thesis using False by (simp add: rows_of_def)
  next
    case True
    let ?d = "data_of w (e_id (es ! i))"
    have dr: "drop i (rows_of w es) = (ed_c ?d, ed_i ?d) # drop (Suc i) (rows_of w es)"
      using True by (simp add: rows_of_def Cons_nth_drop_Suc [symmetric])
    show ?thesis
    proof (cases "ed_i ?d \<noteq> start + n \<or> ed_c ?d \<noteq> c")
      case stop: True
      then have r: "i' = i" "n' = n"
        using 1 True by (auto simp: extend_run.simps [of w es c start n i])
      obtain k ss where k: "runs ((ed_c ?d, ed_i ?d) # drop (Suc i) (rows_of w es))
          = \<lparr>sl_c = ed_c ?d, sl_start = ed_i ?d, sl_count = k\<rparr> # ss"
        using runs_Cons by blast
      show ?thesis using stop k 1(4) unfolding r dr by auto
    next
      case go: False
      then have e: "extend_run w es c start (n + 1) (i + 1) = (i', n', b)"
        using 1 True by (simp add: extend_run.simps [of w es c start n i])
      have IH: "runs ((c, start + n) # drop (Suc i) (rows_of w es))
          = \<lparr>sl_c = c, sl_start = start + n, sl_count = n' - n\<rparr> # runs (drop i' (rows_of w es))"
        using 1(1) [OF True refl go e] True extend_run_bounds [OF e] by auto
      have "ed_c ?d = c" "ed_i ?d = start + n" using go by auto
      moreover have n: "start + n = Suc (start + n - 1)" using 1(4) by simp
      moreover have "n' - n + 1 = n' - n + (1::nat)" ..
      ultimately show ?thesis
        using runs_extend [of c "start + n - 1" "drop (Suc i) (rows_of w es)" "n' - n"] IH dr by simp
    qed
  qed
qed

lemma batch_next_runs:
  assumes "bi_i it < length es"
  obtains s ss i' where "runs (drop (bi_i it) (rows_of w es)) = s # ss"
    "batch_next w es it = (ss \<noteq> [], \<lparr>bi_i = i', bi_s = s\<rparr>)" "ss = runs (drop i' (rows_of w es))"
    "bi_i it < i'" "i' \<le> length es"
proof -
  let ?i = "bi_i it" let ?d = "data_of w (e_id (es ! ?i))"
  obtain i' n b where e: "extend_run w es (ed_c ?d) (ed_i ?d) 1 (?i + 1) = (i', n, b)"
    by (metis prod_cases3)
  have B: "?i + 1 \<le> i'" "i' \<le> length es" "b \<longleftrightarrow> i' < length es" "n + (?i + 1) = 1 + i'"
    using extend_run_bounds [OF e] assms by auto
  have "drop ?i (rows_of w es) = (ed_c ?d, ed_i ?d) # drop (?i + 1) (rows_of w es)"
    using assms by (simp add: rows_of_def Cons_nth_drop_Suc [symmetric])
  then have "runs (drop ?i (rows_of w es))
      = \<lparr>sl_c = ed_c ?d, sl_start = ed_i ?d, sl_count = n\<rparr> # runs (drop i' (rows_of w es))"
    using extend_run_runs [OF e] assms B by simp
  moreover have "b \<longleftrightarrow> runs (drop i' (rows_of w es)) \<noteq> []"
    using B(2,3) by (auto simp: rows_of_def)
  ultimately show ?thesis
    using e B assms by (intro that) (auto simp: batch_next_def Let_def)
qed

lemma batch_loop_runs:
  "bi_i it \<le> length es \<Longrightarrow> batch_loop w es it = bi_s it # butlast (runs (drop (bi_i it) (rows_of w es)))"
proof (induction "length es - bi_i it" arbitrary: it rule: less_induct)
  case less
  show ?case
  proof (cases "bi_i it < length es")
    case False
    then show ?thesis using less.prems
      by (simp add: batch_loop.simps [of w es it] batch_next_def rows_of_def)
  next
    case True
    then obtain s ss i' where r: "runs (drop (bi_i it) (rows_of w es)) = s # ss"
      "batch_next w es it = (ss \<noteq> [], \<lparr>bi_i = i', bi_s = s\<rparr>)" "ss = runs (drop i' (rows_of w es))"
      "bi_i it < i'" "i' \<le> length es"
      by (rule batch_next_runs)
    have "batch_loop w es \<lparr>bi_i = i', bi_s = s\<rparr> = s # butlast ss"
      using less.hyps [of "\<lparr>bi_i = i', bi_s = s\<rparr>"] r(3-5) True by simp
    then show ?thesis using r(1,2) by (simp add: batch_loop.simps [of w es it])
  qed
qed

text \<open>C33. The slices a range-based loop over \<open>batch(es, count)\<close> visits.  The maximal runs of
  consecutive rows cover the entities in order; the loop visits the first run and those after
  it except the last: unless all entities form one run, the last run is never visited, because
  \<open>next\<close> reports the end together with the last slice.\<close>

theorem batch_skips_last_run:
  assumes "es \<noteq> []"
  shows "batch_slices w es = hd (runs (rows_of w es)) # butlast (tl (runs (rows_of w es)))
    \<and> concat (map rows_in (runs (rows_of w es))) = rows_of w es"
proof -
  let ?it = "\<lparr>bi_i = 0, bi_s = \<lparr>sl_c = 0, sl_start = 0, sl_count = 0\<rparr>\<rparr>"
  have "bi_i ?it < length es" using assms by simp
  then obtain s ss i' where r: "runs (drop (bi_i ?it) (rows_of w es)) = s # ss"
    "batch_next w es ?it = (ss \<noteq> [], \<lparr>bi_i = i', bi_s = s\<rparr>)" "ss = runs (drop i' (rows_of w es))" "i' \<le> length es"
    by (rule batch_next_runs [of ?it es w])
  have "batch_slices w es = s # butlast ss"
    using batch_loop_runs [of "\<lparr>bi_i = i', bi_s = s\<rparr>" es w] r by (simp add: batch_slices_def batch_iter_init_def)
  then show ?thesis using r(1) runs_rows [of "rows_of w es"] by simp
qed

section \<open>Examples\<close>

text \<open>The two entities of \<open>placed_pair\<close>, backwards: two runs, of which one is visited.\<close>

theorem batch_skips_last_run_witness:
  "batch_slices placed_pair [mk_handle 2 4, mk_handle 1 3] = [\<lparr>sl_c = 2, sl_start = 1, sl_count = 1\<rparr>]"
proof -
  have "rows_of placed_pair [mk_handle 2 4, mk_handle 1 3] = [(2, 1), (2, 0)]"
    by (simp add: rows_of_def placed_pair_def Let_def data_of_def ed_c_def)
  then show ?thesis using batch_skips_last_run [of "[mk_handle 2 4, mk_handle 1 3]" placed_pair] by simp
qed

text \<open>The chunk of \<open>placed_pair\<close> with an archetype of the mask and a component 5, and an
  archetype 11 whose only meta entity is the second of the pair.\<close>

definition masked_pair :: world where
  "masked_pair = upd_arch 11 (\<lambda>a. a\<lparr>metaCount := 1, metatypes := [mk_handle 2 4]\<rparr>)
     (upd_arch 10 (\<lambda>a. a\<lparr>componentCount := 2, firstTag := 2, firstManaged := 2, firstBuffer := 2,
        g_types := [3, 5], offsets := (\<lambda>_ i. 64 + 64 * i), sizes := [4, 8], withMask := True\<rparr>)
     (upd_chunk 2 (\<lambda>c. c\<lparr>c_type := 10\<rparr>) placed_pair))"

lemma masked_pair_simps:
  "metaCount (archs masked_pair g) = (if g = 11 then 1 else 0)" "metatypes (archs masked_pair 11) = [mk_handle 2 4]"
  "firstTag (archs masked_pair g) = (if g = 10 then 2 else 0)" "withMask (archs masked_pair 10)"
  "g_types (archs masked_pair 10) = [3, 5]" "offsets (archs masked_pair 10) ct i = 64 + 64 * i"
  "sizes (archs masked_pair 10) = [4, 8]" "c_type (chunks masked_pair 2) = 10"
  "entity_exist masked_pair (mk_handle 2 4)" "data_of masked_pair 2 = \<lparr>ed_u = 2, ed_i = 1, ed_v = 4\<rparr>"
  "mask_id (w_ctx masked_pair) = 3"
  by (auto simp: masked_pair_def placed_pair_def Let_def blank_memory_def zero_archetype_def entity_exist_def
      data_of_def context_init_fields mk_type_index_def upd_arch_def upd_chunk_def)

lemma masked_pair_index: "arch_index (archs masked_pair 10) 3 = 0" "arch_index (archs masked_pair 10) 5 = 1"
  by (simp_all add: arch_index_def types_index_def lower_bound_def masked_pair_simps u16_def)

theorem component_ro_is_owned_ro_witness:
  "arch_shared_ro masked_pair 11 5 = Some (Some (2, 136))"
proof -
  have "\<forall>g. firstTag (archs masked_pair g) \<le> InvalidIndex" by (simp add: masked_pair_simps InvalidIndex_def)
  from component_ro_is_owned_ro [OF this, THEN conjunct2, THEN conjunct2, of 11 5] show ?thesis
    by (simp add: masked_pair_simps get_owned_ro_def slice_owned_ro_def as_slice_def Let_def chunk_arch_def ed_c_def
        masked_pair_index InvalidIndex_def cell_addr_def col_addr_def)
qed

theorem share_component_reachable_witness:
  "share_component_arch masked_pair 11 [5] = Some True"
proof -
  have edge: "meta_edge masked_pair g g' \<longleftrightarrow> g = 11 \<and> g' = 10" for g g'
    by (auto simp: meta_edge_def Let_def masked_pair_simps arch_of_entity_def ed_c_def)
  have "wfp (\<lambda>g' g. meta_edge masked_pair g g')"
    by (rule wfp_if_convertible_to_nat [where f = "\<lambda>g. if g = 11 then 1 else 0"]) (simp add: edge)
  moreover have "(meta_edge masked_pair)\<^sup>+\<^sup>+ 11 10" by (rule tranclp.r_into_trancl) (simp add: edge)
  moreover have "own_component_arch masked_pair 10 [5]"
    by (simp add: own_component_arch_def arch_type_def masked_pair_simps)
  ultimately show ?thesis using share_component_reachable [of masked_pair 11 "[5]"] by auto
qed

theorem enable_disable_component_witness:
  "\<exists>w1. enable_component (mk_handle 2 4) [5] masked_pair = Some w1
     \<and> is_component_enabled w1 (mk_handle 2 4) [5] = Some True"
proof -
  let ?w = masked_pair let ?e = "mk_handle 2 4"
  have ca: "mask_cell ?w ?e = (2, 68)"
    by (simp add: mask_cell_def masked_pair_simps Let_def ed_c_def chunk_arch_def masked_pair_index cell_addr_def col_addr_def)
  have "masked_entity ?w ?e" "[3, 5] = g_types (chunk_arch ?w 2)" "ssorted [5 :: nat]"
    using ca by (simp_all add: masked_entity_def masked_pair_simps chunk_arch_def)
  from enable_disable_component [OF this(1,3) ca this(2)] obtain w1 where
    "enable_component ?e [5] ?w = Some w1" "\<forall>k < 2. [3, 5] ! k \<in> {5::nat} \<longrightarrow> enabled_bit w1 ?e k"
    "is_component_enabled w1 ?e [5] = Some (\<forall>k < 2. [3, 5] ! k \<in> {5::nat} \<longrightarrow> enabled_bit w1 ?e k)"
    using \<open>ssorted [5 :: nat]\<close> by (auto simp: numeral_2_eq_2)
  then show ?thesis by auto
qed

end
