(* ===== verification/Queries.thy ===== *)
theory Queries
  imports Access "HOL-Library.Multiset"
begin

text \<open>
  Archetype lookup and the query caches of \<open>world\<close> (\<open>Dots/Database.cpp\<close>): the map from entity
  types to archetypes, the types an archetype shares through its meta entities, and for every
  filter that was asked for the list of matching archetypes, updated when archetypes appear
  and disappear.

  The two \<open>std::unordered_map\<close>s are association lists; their iteration order is the list
  order.  Functions that follow meta entities return an option: a dead meta entity makes the
  code dereference a null pointer, a cycle makes it recur for ever (\<open>None\<close>).
\<close>

section \<open>Archetype map\<close>

definition find_archetype :: "world \<Rightarrow> entity_type \<Rightarrow> ptr" where
  "find_archetype w key = (case map_of (archetypes w) key of Some g \<Rightarrow> g | None \<Rightarrow> 0)"

definition archetypes_insert :: "entity_type \<Rightarrow> ptr \<Rightarrow> world \<Rightarrow> world" where
  "archetypes_insert key g w =
     (case map_of (archetypes w) key of Some _ \<Rightarrow> w | None \<Rightarrow> w\<lparr>archetypes := archetypes w @ [(key, g)]\<rparr>)"

definition archetypes_erase :: "entity_type \<Rightarrow> world \<Rightarrow> world" where
  "archetypes_erase key w = w\<lparr>archetypes := filter (\<lambda>(k, _). k \<noteq> key) (archetypes w)\<rparr>"

section \<open>Shared types\<close>

partial_function (option) estimate_shared_loop :: "world \<Rightarrow> ptr \<Rightarrow> nat \<Rightarrow> nat \<Rightarrow> nat option" where
  "estimate_shared_loop w t i sz =
     (if i < metaCount (archs w t) then
        (let g = get_archetype_of w (metatypes (archs w t) ! i) in
         if g = 0 then None
         else Option.bind (estimate_shared_loop w g 0 (u16 (sz + componentCount (archs w g))))
                (\<lambda>sz'. estimate_shared_loop w t (i + 1) sz'))
      else Some sz)"

definition estimate_shared_size :: "world \<Rightarrow> nat \<Rightarrow> ptr \<Rightarrow> nat option" where
  "estimate_shared_size w sz t = estimate_shared_loop w t 0 sz"

partial_function (option) shared_type_loop :: "world \<Rightarrow> ptr \<Rightarrow> nat \<Rightarrow> type_index list \<Rightarrow> type_index list option" where
  "shared_type_loop w t i type =
     (if i < metaCount (archs w t) then
        (let g = get_archetype_of w (metatypes (archs w t) ! i) in
         if g = 0 then None
         else Option.bind (shared_type_loop w g 0 (set_merge (et_types (arch_type (archs w g))) type))
                (\<lambda>type'. shared_type_loop w t (i + 1) type'))
      else Some type)"

definition get_shared_type :: "world \<Rightarrow> ptr \<Rightarrow> type_index list \<Rightarrow> type_index list option" where
  "get_shared_type w t type = shared_type_loop w t 0 type"

text \<open>The block both \<open>get_query_cache\<close> and \<open>update_queries\<close> start with: the scratch arrays are
  sized by the estimate, then the shared types are collected.\<close>

definition shared_types :: "world \<Rightarrow> ptr \<Rightarrow> type_index list option" where
  "shared_types w g = Option.bind (estimate_shared_size w 0 g) (\<lambda>_. get_shared_type w g [])"

section \<open>Query caches\<close>

text \<open>The scan of the filter's types for the built-in tags; it stops at a copying type.\<close>

fun include_scan :: "dots_context \<Rightarrow> type_index list \<Rightarrow> bool \<Rightarrow> bool \<Rightarrow> bool \<times> bool \<times> bool" where
  "include_scan ctx [] clean dis = (clean, dis, False)"
| "include_scan ctx (t # at) clean dis =
     (let clean' = (clean \<or> t = cleanup_id ctx); dis' = (dis \<or> t = disable_id ctx) in
      if has_flag (tracks ctx ! ti_index t) Copying then (clean', dis', True)
      else include_scan ctx at clean' dis')"

definition query_flags :: "dots_context \<Rightarrow> archetype_filter \<Rightarrow> bool \<times> bool" where
  "query_flags ctx f =
     (let (clean, dis, copy) = include_scan ctx (et_types (af_all f)) False False
      in (clean, dis \<or> (copy \<or> clean)))"

text \<open>\<open>valid_group\<close> and \<open>match_cache\<close>.\<close>

definition valid_group :: "world \<Rightarrow> bool \<Rightarrow> bool \<Rightarrow> archetype_filter \<Rightarrow> ptr \<Rightarrow> bool option" where
  "valid_group w clean dis f g =
     (if clean < cleaning (archs w g) then Some False
      else if dis < disabled (archs w g) then Some False
      else map_option (af_match f (arch_type (archs w g))) (shared_types w g))"

definition matched_mask :: "world \<Rightarrow> archetype_filter \<Rightarrow> ptr \<Rightarrow> mask option" where
  "matched_mask w f g = arch_get_mask (archs w g) (set_merge (et_types (af_all f)) (et_types (af_any f)))"

fun collect_matches :: "world \<Rightarrow> bool \<Rightarrow> bool \<Rightarrow> archetype_filter \<Rightarrow> ptr list \<Rightarrow> matched_archetype list option" where
  "collect_matches w clean dis f [] = Some []"
| "collect_matches w clean dis f (g # gs) = do {
     v \<leftarrow> valid_group w clean dis f g;
     ms \<leftarrow> (if v then map_option (\<lambda>m. [\<lparr>m_type = g, matched = m\<rparr>]) (matched_mask w f g) else Some []);
     rest \<leftarrow> collect_matches w clean dis f gs;
     Some (ms @ rest)
   }"

definition get_query_cache :: "archetype_filter \<Rightarrow> world \<Rightarrow> (query_cache \<times> world) option" where
  "get_query_cache f w =
     (case map_of (queries w) f of
        Some cache \<Rightarrow> Some (cache, w)
      | None \<Rightarrow> do {
          let (clean, dis) = query_flags (w_ctx w) f;
          ms \<leftarrow> collect_matches w clean dis f (map snd (archetypes w));
          let cache = \<lparr>q_includeDisabled = dis, q_includeClean = clean, q_filter = f, q_archetypes = ms\<rparr>;
          Some (cache, w\<lparr>queries := queries w @ [(f, cache)]\<rparr>)
        })"

definition cache_query :: "archetype_filter \<Rightarrow> world \<Rightarrow> (archetype_filter \<times> world) option" where
  "cache_query f w = map_option (\<lambda>(c, w'). (q_filter c, w')) (get_query_cache f w)"

definition query_archetypes :: "archetype_filter \<Rightarrow> world \<Rightarrow> (matched_archetype list \<times> world) option" where
  "query_archetypes f w = map_option (\<lambda>(c, w'). (q_archetypes c, w')) (get_query_cache f w)"

text \<open>\<open>entity_filter::apply\<close> on a query result.\<close>

definition ef_apply :: "world \<Rightarrow> entity_filter \<Rightarrow> matched_archetype \<Rightarrow> matched_archetype option" where
  "ef_apply w ef ma =
     map_option (\<lambda>m. ma\<lparr>matched := matched ma AND (NOT m)\<rparr>) (arch_get_mask (archs w (m_type ma)) (inverseMask ef))"

text \<open>Removal from a cache: the first entry of the archetype is swapped with the last one and
  dropped.  A new entry has an empty mask.\<close>

definition cache_remove :: "ptr \<Rightarrow> matched_archetype list \<Rightarrow> matched_archetype list" where
  "cache_remove g gs =
     (let j = length (takeWhile (\<lambda>m. m_type m \<noteq> g) gs) in
      if j = length gs then gs
      else butlast (if j \<noteq> length gs - 1 then gs[j := gs ! (length gs - 1), length gs - 1 := gs ! j] else gs))"

definition update_cache :: "world \<Rightarrow> ptr \<Rightarrow> type_index list \<Rightarrow> bool \<Rightarrow> query_cache \<Rightarrow> query_cache" where
  "update_cache w g type add cache =
     (let matches = (if q_includeClean cache < cleaning (archs w g) then False
                     else if q_includeDisabled cache < disabled (archs w g) then False
                     else af_match (q_filter cache) (arch_type (archs w g)) type)
      in if matches then
           cache\<lparr>q_archetypes := (if \<not> add then cache_remove g (q_archetypes cache)
                                  else q_archetypes cache @ [\<lparr>m_type = g, matched = 0\<rparr>])\<rparr>
         else cache)"

definition update_queries :: "ptr \<Rightarrow> bool \<Rightarrow> world \<Rightarrow> world option" where
  "update_queries g add w = do {
     let w1 = w\<lparr>arch_events := arch_events w @ [(g, add)]\<rparr>;
     type \<leftarrow> shared_types w1 g;
     Some (w1\<lparr>queries := map (\<lambda>(f, c). (f, update_cache w1 g type add c)) (queries w1)\<rparr>)
   }"

definition add_archetype :: "ptr \<Rightarrow> world \<Rightarrow> world option" where
  "add_archetype g w = do {
     w1 \<leftarrow> update_queries g True w;
     Some (archetypes_insert (arch_type (archs w1 g)) g w1)
   }"

definition get_archetype :: "entity_type \<Rightarrow> world \<Rightarrow> (ptr \<times> world) option" where
  "get_archetype key w =
     (case map_of (archetypes w) key of
        Some g \<Rightarrow> Some (g, w)
      | None \<Rightarrow> do {
          let (g, w1) = construct_archetype key w;
          w2 \<leftarrow> add_archetype g w1;
          Some (g, w2)
        })"

section \<open>Chunks of a query\<close>

text \<open>\<open>query(type, filter)\<close> walks the chunk list; a cyclic list is walked for ever.\<close>

partial_function (option) query_chunk_loop :: "world \<Rightarrow> (ptr \<Rightarrow> bool) \<Rightarrow> ptr \<Rightarrow> ptr list \<Rightarrow> ptr list option" where
  "query_chunk_loop w P iter result =
     (if iter \<noteq> 0 then query_chunk_loop w P (c_next (chunks w iter)) (if P iter then result @ [iter] else result)
      else Some result)"

definition query_chunks :: "world \<Rightarrow> ptr \<Rightarrow> chunk_filter \<Rightarrow> ptr list option" where
  "query_chunks w g f =
     (if changed f = [] then query_chunk_loop w (\<lambda>_. True) (firstChunk (archs w g)) []
      else query_chunk_loop w (\<lambda>c. cf_match f (arch_type (archs w g)) (c_stamps (chunks w c))) (firstChunk (archs w g)) [])"

definition get_archetypes :: "world \<Rightarrow> ptr list" where
  "get_archetypes w = map snd (archetypes w)"

definition chunk_get_timestamp :: "world \<Rightarrow> ptr \<Rightarrow> type_index \<Rightarrow> nat" where
  "chunk_get_timestamp w c t =
     (let k = arch_index (chunk_arch w c) t in
      if k = InvalidIndex then 0 else c_stamps (chunks w c) k)"

section \<open>gc\_meta\<close>

text \<open>The removal loop of \<open>gc_meta\<close>: a dead entity is overwritten by the last one, which is not
  looked at again at this position.\<close>

function gc_meta_loop :: "(entity \<Rightarrow> bool) \<Rightarrow> nat \<Rightarrow> entity list \<times> nat \<Rightarrow> entity list \<times> nat" where
  "gc_meta_loop ex i mc =
     (let (mt, count) = mc in
      if i < count then
        (if \<not> ex (mt ! i)
         then gc_meta_loop ex (i + 1)
                (if i + 1 \<noteq> count then mt[i := mt ! (count - 1), count - 1 := mt ! i] else mt, count - 1)
         else gc_meta_loop ex (i + 1) (mt, count))
      else mc)"
  by auto
termination
  by (relation "measure (\<lambda>(ex, i, mc). snd mc - i)") auto

section \<open>Shared types\<close>

definition shared_set :: "world \<Rightarrow> ptr \<Rightarrow> type_index set" where
  "shared_set w g = (\<Union>g' \<in> {g'. (meta_edge w)\<^sup>+\<^sup>+ g g'}. set (g_types (archs w g')))"

definition metas_live :: "world \<Rightarrow> bool" where
  "metas_live w \<longleftrightarrow> (\<forall>g. \<forall>i < metaCount (archs w g). get_archetype_of w (metatypes (archs w g) ! i) \<noteq> 0)"

lemma meta_edge_iff:
  "metas_live w \<Longrightarrow> meta_edge w g g' \<longleftrightarrow>
     (\<exists>i \<in> {0..<metaCount (archs w g)}. g' = get_archetype_of w (metatypes (archs w g) ! i))"
proof -
  assume live: "metas_live w"
  have "entity_exist w m \<and> get_archetype_of w m = arch_of_entity w m"
    if "i < metaCount (archs w g)" "m = metatypes (archs w g) ! i" for i m
    using live that by (auto simp: metas_live_def get_archetype_of_def split: if_splits)
  then show ?thesis unfolding meta_edge_def Let_def by fastforce
qed

lemma shared_set_step:
  "shared_set w g = (\<Union>g' \<in> {g'. meta_edge w g g'}. set (g_types (archs w g')) \<union> shared_set w g')"
proof -
  have "(meta_edge w)\<^sup>+\<^sup>+ g h \<longleftrightarrow> (\<exists>g'. meta_edge w g g' \<and> (h = g' \<or> (meta_edge w)\<^sup>+\<^sup>+ g' h))" for h
    by (metis tranclp.r_into_trancl tranclp_into_tranclp2 tranclpD rtranclpD)
  then show ?thesis unfolding shared_set_def by blast
qed

text \<open>C24. When all meta entities are alive and form no cycle, the shared types of an archetype are
  collected, as a sorted set, from exactly the archetypes reached over meta entities.\<close>

theorem shared_types_correct:
  assumes wf: "wfp (\<lambda>g' g. meta_edge w g g')" and live: "metas_live w"
    and sorted: "\<forall>g. ssorted (g_types (archs w g))"
  shows "\<exists>ts. shared_types w g = Some ts \<and> ssorted ts \<and> set ts = shared_set w g"
proof -
  have loops: "(\<forall>i type. ssorted type \<longrightarrow> (\<exists>r. shared_type_loop w g i type = Some r \<and> ssorted r \<and> (i = 0 \<longrightarrow> set r = set type \<union> shared_set w g)))
      \<and> (\<forall>i sz. \<exists>r. estimate_shared_loop w g i sz = Some r)" for g
    using wf
  proof (induction g rule: wfp_induct_rule)
    case (less g)
    let ?n = "metaCount (archs w g)" let ?g = "\<lambda>i. get_archetype_of w (metatypes (archs w g) ! i)"
    let ?U = "\<lambda>i. \<Union>j \<in> {i..<?n}. set (g_types (archs w (?g j))) \<union> shared_set w (?g j)"
    have edge: "i < ?n \<Longrightarrow> meta_edge w g (?g i) \<and> ?g i \<noteq> 0" for i
      using live meta_edge_iff [OF live, of g] by (auto simp: metas_live_def)
    have T: "ssorted type \<Longrightarrow> \<exists>r. shared_type_loop w g i type = Some r \<and> ssorted r \<and> set r = set type \<union> ?U i" for i type
    proof (induction "?n - i" arbitrary: i type)
      case 0
      then show ?case by (simp add: shared_type_loop.simps [of w g i])
    next
      case (Suc m)
      have i: "i < ?n" using Suc.hyps(2) by simp
      have "ssorted (set_merge (g_types (archs w (?g i))) type)" using sorted Suc.prems by auto
      then obtain r where r: "shared_type_loop w (?g i) 0 (set_merge (g_types (archs w (?g i))) type) = Some r"
        "ssorted r" "set r = set (g_types (archs w (?g i))) \<union> set type \<union> shared_set w (?g i)"
        using less.IH [of "?g i", THEN conjunct1, rule_format, of _ 0] edge [OF i] by (force simp: typeset_simps)
      have m: "m = ?n - (i + 1)" using Suc.hyps(2) by simp
      obtain r' where r': "shared_type_loop w g (i + 1) r = Some r'" "ssorted r'" "set r' = set r \<union> ?U (i + 1)"
        using Suc.hyps(1) [OF m r(2)] by blast
      have "{i..<?n} = insert i {i + 1..<?n}" using i by auto
      then have "set r' = set type \<union> ?U i" using r(3) r'(3) by auto
      then show ?case
        using i edge [OF i] r(1) r'(1,2) by (simp add: shared_type_loop.simps [of w g i] Let_def arch_type_def)
    qed
    have E: "\<exists>r. estimate_shared_loop w g i sz = Some r" for i sz
    proof (induction "?n - i" arbitrary: i sz)
      case 0
      then show ?case by (simp add: estimate_shared_loop.simps [of w g i])
    next
      case (Suc m)
      have i: "i < ?n" using Suc.hyps(2) by simp
      obtain r where r: "estimate_shared_loop w (?g i) 0 (u16 (sz + componentCount (archs w (?g i)))) = Some r"
        using less.IH [of "?g i", THEN conjunct2, rule_format] edge [OF i] by blast
      obtain r' where "estimate_shared_loop w g (i + 1) r = Some r'"
        using Suc.hyps(1) [of "i + 1" r] Suc.hyps(2) by fastforce
      then show ?case using i edge [OF i] r by (simp add: estimate_shared_loop.simps [of w g i] Let_def)
    qed
    have "?U 0 = shared_set w g"
      unfolding shared_set_step [of w g] using meta_edge_iff [OF live, of g] by auto
    then show ?case using T E by fastforce
  qed
  from loops [of g] show ?thesis
    by (auto simp: shared_types_def estimate_shared_size_def get_shared_type_def)
       (metis Option.bind.bind_lunit Un_empty_left list.set(1) sorted_wrt.simps(1))
qed

section \<open>Caches\<close>

text \<open>What a cache looks at: the archetypes and where the entities are.\<close>

definition same_metas :: "world \<Rightarrow> world \<Rightarrow> bool" where
  "same_metas w v \<longleftrightarrow> archs v = archs w \<and> get_archetype_of v = get_archetype_of w"

lemma shared_type_loop_le:
  assumes "same_metas w v" "shared_type_loop w t i type = Some r"
  shows "shared_type_loop v t i type = Some r"
proof -
  have "same_metas w v \<longrightarrow> shared_type_loop v t i type = Some r"
  proof (rule shared_type_loop.raw_induct [OF _ assms(2), of "\<lambda>w t i type r. same_metas w v \<longrightarrow> shared_type_loop v t i type = Some r"])
  fix f w t i type r
  assume IH: "\<And>w t i type r. f w t i type = Some r \<Longrightarrow> same_metas w v \<longrightarrow> shared_type_loop v t i type = Some r"
    and eq: "(if i < metaCount (archs w t) then
        (let g = get_archetype_of w (metatypes (archs w t) ! i) in
         if g = 0 then None
         else Option.bind (f w g 0 (set_merge (et_types (arch_type (archs w g))) type)) (\<lambda>type'. f w t (i + 1) type'))
      else Some type) = Some r"
  show "same_metas w v \<longrightarrow> shared_type_loop v t i type = Some r"
  proof (intro impI, cases "i < metaCount (archs w t)")
    case False
    moreover assume "same_metas w v"
    ultimately show "shared_type_loop v t i type = Some r" using eq by (simp add: shared_type_loop.simps [of v t i] same_metas_def)
  next
    case True
    let ?g = "get_archetype_of w (metatypes (archs w t) ! i)"
    obtain r1 where r1: "?g \<noteq> 0" "f w ?g 0 (set_merge (et_types (arch_type (archs w ?g))) type) = Some r1"
      "f w t (i + 1) r1 = Some r"
      using eq True by (auto simp: Let_def Option.bind_eq_Some_conv split: if_splits)
    moreover assume "same_metas w v"
    ultimately show "shared_type_loop v t i type = Some r"
      using IH [OF r1(2)] IH [OF r1(3)] True
      by (simp add: shared_type_loop.simps [of v t i] Let_def same_metas_def)
  qed
  qed
  then show ?thesis using assms(1) by blast
qed

lemma estimate_shared_loop_le:
  assumes "same_metas w v" "estimate_shared_loop w t i sz = Some r"
  shows "estimate_shared_loop v t i sz = Some r"
proof -
  have "same_metas w v \<longrightarrow> estimate_shared_loop v t i sz = Some r"
  proof (rule estimate_shared_loop.raw_induct [OF _ assms(2), of "\<lambda>w t i sz r. same_metas w v \<longrightarrow> estimate_shared_loop v t i sz = Some r"])
  fix f w t i sz r
  assume IH: "\<And>w t i sz r. f w t i sz = Some r \<Longrightarrow> same_metas w v \<longrightarrow> estimate_shared_loop v t i sz = Some r"
    and eq: "(if i < metaCount (archs w t) then
        (let g = get_archetype_of w (metatypes (archs w t) ! i) in
         if g = 0 then None
         else Option.bind (f w g 0 (u16 (sz + componentCount (archs w g)))) (\<lambda>sz'. f w t (i + 1) sz'))
      else Some sz) = Some r"
  show "same_metas w v \<longrightarrow> estimate_shared_loop v t i sz = Some r"
  proof (intro impI, cases "i < metaCount (archs w t)")
    case False
    moreover assume "same_metas w v"
    ultimately show "estimate_shared_loop v t i sz = Some r" using eq by (simp add: estimate_shared_loop.simps [of v t i] same_metas_def)
  next
    case True
    let ?g = "get_archetype_of w (metatypes (archs w t) ! i)"
    obtain r1 where r1: "?g \<noteq> 0" "f w ?g 0 (u16 (sz + componentCount (archs w ?g))) = Some r1"
      "f w t (i + 1) r1 = Some r"
      using eq True by (auto simp: Let_def Option.bind_eq_Some_conv split: if_splits)
    moreover assume "same_metas w v"
    ultimately show "estimate_shared_loop v t i sz = Some r"
      using IH [OF r1(2)] IH [OF r1(3)] True
      by (simp add: estimate_shared_loop.simps [of v t i] Let_def same_metas_def)
  qed
  qed
  then show ?thesis using assms(1) by blast
qed

lemma same_metas_sym: "same_metas w v \<Longrightarrow> same_metas v w"
  by (simp add: same_metas_def)

lemma shared_types_cong:
  assumes "same_metas w v"
  shows "shared_types v g = shared_types w g"
proof -
  have t: "shared_type_loop v g i ty = shared_type_loop w g i ty" for i ty
    using shared_type_loop_le [OF assms] shared_type_loop_le [OF same_metas_sym [OF assms]]
    by (metis not_None_eq)
  have e: "estimate_shared_loop v g i sz = estimate_shared_loop w g i sz" for i sz
    using estimate_shared_loop_le [OF assms] estimate_shared_loop_le [OF same_metas_sym [OF assms]]
    by (metis not_None_eq)
  show ?thesis by (simp add: shared_types_def estimate_shared_size_def get_shared_type_def t e)
qed

lemma valid_group_cong: "same_metas w v \<Longrightarrow> valid_group v c d f g = valid_group w c d f g"
  using shared_types_cong [of w v g] by (simp add: valid_group_def same_metas_def)

definition cache_ok :: "world \<Rightarrow> archetype_filter \<Rightarrow> query_cache \<Rightarrow> bool" where
  "cache_ok w f c \<longleftrightarrow> q_filter c = f \<and> query_flags (w_ctx w) f = (q_includeClean c, q_includeDisabled c)
     \<and> distinct (map m_type (q_archetypes c))
     \<and> (\<forall>g. g \<in> m_type ` set (q_archetypes c) \<longleftrightarrow>
           g \<in> snd ` set (archetypes w) \<and> valid_group w (q_includeClean c) (q_includeDisabled c) f g = Some True)"

definition caches_ok :: "world \<Rightarrow> bool" where
  "caches_ok w \<longleftrightarrow> distinct (map fst (queries w)) \<and> distinct (map fst (archetypes w)) \<and> distinct (map snd (archetypes w))
     \<and> (\<forall>(f, c) \<in> set (queries w). cache_ok w f c)"

lemma same_metasI: "archs v = archs w \<Longrightarrow> ents v = ents w \<Longrightarrow> chunks v = chunks w \<Longrightarrow> same_metas w v"
  by (simp add: same_metas_def fun_eq_iff get_archetype_of_def entity_exist_def arch_of_entity_def data_of_def)

lemma same_metas_maps [simp]:
  "same_metas w (w\<lparr>queries := q\<rparr>)" "same_metas w (w\<lparr>archetypes := as\<rparr>)" "same_metas w (w\<lparr>arch_events := es\<rparr>)"
  by (simp_all add: same_metasI)

lemma same_metas_trans: "same_metas u v \<Longrightarrow> same_metas v w \<Longrightarrow> same_metas u w"
  by (simp add: same_metas_def)

lemma cache_ok_cong:
  assumes "same_metas w v" "w_ctx v = w_ctx w" "archetypes v = archetypes w"
  shows "cache_ok v f c = cache_ok w f c"
  using assms by (simp add: cache_ok_def valid_group_cong)

lemma collect_matches_types:
  "collect_matches w cl d f gs = Some ms \<Longrightarrow>
     map m_type ms = filter (\<lambda>g. valid_group w cl d f g = Some True) gs
     \<and> (\<forall>m \<in> set ms. matched_mask w f (m_type m) = Some (matched m))"
proof (induction gs arbitrary: ms)
  case (Cons g gs)
  from Cons.prems obtain v ms1 rest where v: "valid_group w cl d f g = Some v"
    "(if v then map_option (\<lambda>m. [\<lparr>m_type = g, matched = m\<rparr>]) (matched_mask w f g) else Some []) = Some ms1"
    "collect_matches w cl d f gs = Some rest" "ms = ms1 @ rest"
    by (auto simp: Option.bind_eq_Some_conv)
  show ?case using Cons.IH [OF v(3)] v by (cases v) auto
qed simp


lemma update_cache_matches:
  assumes "shared_types w g = Some type" "cache_ok v f c"
  shows "update_cache w g type add c =
    (if valid_group w (q_includeClean c) (q_includeDisabled c) f g = Some True
     then c\<lparr>q_archetypes := (if \<not> add then cache_remove g (q_archetypes c)
                             else q_archetypes c @ [\<lparr>m_type = g, matched = 0\<rparr>])\<rparr> else c)"
  using assms by (simp add: update_cache_def valid_group_def cache_ok_def Let_def)

lemma takeWhile_shorter: "\<exists>x \<in> set xs. \<not> P x \<Longrightarrow> length (takeWhile P xs) < length xs"
  by (induction xs) auto

lemma cache_remove_types:
  assumes "distinct (map m_type gs)"
  shows "m_type ` set (cache_remove g gs) = m_type ` set gs - {g} \<and> distinct (map m_type (cache_remove g gs))"
proof (cases "g \<in> m_type ` set gs")
  case False
  then have tw: "takeWhile (\<lambda>m. m_type m \<noteq> g) gs = gs" by (auto simp: takeWhile_eq_all_conv)
  have "cache_remove g gs = gs" unfolding cache_remove_def Let_def tw by simp
  then show ?thesis using False assms by simp
next
  case True
  define j where "j = length (takeWhile (\<lambda>m. m_type m \<noteq> g) gs)"
  define n where "n = length gs - 1"
  define ys where "ys = (if j \<noteq> n then gs[j := gs ! n, n := gs ! j] else gs)"
  have j: "j < length gs" unfolding j_def using True by (intro takeWhile_shorter) auto
  have gj: "m_type (gs ! j) = g"
    using nth_length_takeWhile [of "\<lambda>m. m_type m \<noteq> g" gs] j unfolding j_def by blast
  have r: "cache_remove g gs = butlast ys"
    using j unfolding cache_remove_def Let_def j_def [symmetric] n_def [symmetric] ys_def by simp
  have n: "n < length gs" using j by (simp add: n_def)
  have "mset ys = mset gs" using j n by (simp add: ys_def mset_swap)
  then have m: "mset (map m_type ys) = mset (map m_type gs)" by (simp only: mset_map)
  have ne: "ys \<noteq> []" "length ys = length gs" using j by (auto simp: ys_def)
  have "last ys = ys ! n" using ne by (simp add: last_conv_nth n_def)
  also have "\<dots> = gs ! j" using n by (simp add: ys_def)
  finally have ys: "map m_type ys = map m_type (butlast ys) @ [g]"
    using ne(1) gj by (metis append_butlast_last_id list.simps(8,9) map_append)
  have d: "distinct (map m_type ys)" using assms mset_eq_imp_distinct_iff [OF m] by simp
  have st: "set (map m_type ys) = set (map m_type gs)" using mset_eq_setD [OF m] .
  have "m_type ` set (butlast ys) = m_type ` set gs - {g}"
    using d st unfolding ys by auto
  moreover have "distinct (map m_type (butlast ys))" using d unfolding ys by simp
  ultimately show ?thesis unfolding r by simp
qed

text \<open>C23. \<open>add_archetype\<close> and the erasure in \<open>remove_chunk\<close> keep every cache exact.  A new entry has
  an empty mask, unlike the entries of a new cache.\<close>

theorem archetype_updates_caches:
  assumes ok: "caches_ok w"
  shows "(g \<notin> snd ` set (archetypes w) \<and> arch_type (archs w g) \<notin> fst ` set (archetypes w)
        \<and> add_archetype g w = Some w' \<longrightarrow>
      caches_ok w' \<and> archetypes w' = archetypes w @ [(arch_type (archs w g), g)]
      \<and> (\<forall>(f, c) \<in> set (queries w'). \<forall>m \<in> set (q_archetypes c). m_type m = g \<longrightarrow> matched m = 0))
    \<and> ((key, g) \<in> set (archetypes w) \<and> update_queries g False (archetypes_erase key w) = Some w' \<longrightarrow>
      caches_ok w' \<and> g \<notin> snd ` set (archetypes w'))"
proof (intro conjI impI)
  assume g: "g \<notin> snd ` set (archetypes w) \<and> arch_type (archs w g) \<notin> fst ` set (archetypes w)
        \<and> add_archetype g w = Some w'"
  let ?w1 = "w\<lparr>arch_events := arch_events w @ [(g, True)]\<rparr>"
  obtain type where t: "shared_types ?w1 g = Some type"
    "w' = archetypes_insert (arch_type (archs w g)) g
      (?w1\<lparr>queries := map (\<lambda>(f, c). (f, update_cache ?w1 g type True c)) (queries w)\<rparr>)"
    using g by (auto simp: add_archetype_def update_queries_def Option.bind_eq_Some_conv Let_def)
  have new: "map_of (archetypes w) (arch_type (archs w g)) = None" using g by (simp add: map_of_eq_None_iff)
  have archs': "archetypes w' = archetypes w @ [(arch_type (archs w g), g)]"
    and qs: "queries w' = map (\<lambda>(f, c). (f, update_cache ?w1 g type True c)) (queries w)"
    and ctx: "w_ctx w' = w_ctx w"
    using t(2) new by (simp_all add: archetypes_insert_def)
  have sm: "same_metas w w'"
    using new by (intro same_metasI) (simp_all add: t(2) archetypes_insert_def)
  have upd: "update_cache ?w1 g type True c =
      (if valid_group w (q_includeClean c) (q_includeDisabled c) f g = Some True
       then c\<lparr>q_archetypes := q_archetypes c @ [\<lparr>m_type = g, matched = 0\<rparr>]\<rparr> else c)"
    if "cache_ok w f c" for f c
    using update_cache_matches [OF t(1) that, of True] valid_group_cong [of w ?w1] by simp
  have one: "cache_ok w' f (update_cache ?w1 g type True c)" if "cache_ok w f c" for f c
    using that g by (auto simp: upd [OF that] cache_ok_def archs' ctx valid_group_cong [OF sm])
  show "caches_ok w'" "archetypes w' = archetypes w @ [(arch_type (archs w g), g)]"
    using ok one g archs' by (auto simp: caches_ok_def qs comp_def case_prod_beta)
  have "\<forall>m \<in> set (q_archetypes (update_cache ?w1 g type True c)). m_type m = g \<longrightarrow> matched m = 0"
    if "cache_ok w f c" for f c
  proof -
    have "g \<notin> m_type ` set (q_archetypes c)" using that g by (simp add: cache_ok_def)
    then show ?thesis by (auto simp: upd [OF that])
  qed
  then show "\<forall>(f, c) \<in> set (queries w'). \<forall>m \<in> set (q_archetypes c). m_type m = g \<longrightarrow> matched m = 0"
    using ok by (auto simp: caches_ok_def qs)
next
  assume g: "(key, g) \<in> set (archetypes w) \<and> update_queries g False (archetypes_erase key w) = Some w'"
  let ?w0 = "archetypes_erase key w" let ?w1 = "?w0\<lparr>arch_events := arch_events ?w0 @ [(g, False)]\<rparr>"
  obtain type where t: "shared_types ?w1 g = Some type"
    "w' = ?w1\<lparr>queries := map (\<lambda>(f, c). (f, update_cache ?w1 g type False c)) (queries w)\<rparr>"
    using g by (auto simp: update_queries_def archetypes_erase_def Option.bind_eq_Some_conv Let_def)
  have keys: "k = key \<longleftrightarrow> h = g" if "(k, h) \<in> set (archetypes w)" for k h
    using that g ok unfolding caches_ok_def by (metis eq_key_imp_eq_value distinct_map fst_conv inj_onD snd_conv)
  have set': "set (archetypes w') = set (archetypes w) - {(key, g)}"
    using t(2) keys by (auto simp: archetypes_erase_def)
  have dist: "distinct (map fst (archetypes w'))" "distinct (map snd (archetypes w'))"
    using ok t(2) by (auto simp: caches_ok_def archetypes_erase_def distinct_map_filter)
  have gone: "snd ` set (archetypes w') = snd ` set (archetypes w) - {g}"
    using keys g unfolding set' by force
  have qs: "queries w' = map (\<lambda>(f, c). (f, update_cache ?w1 g type False c)) (queries w)" and ctx: "w_ctx w' = w_ctx w"
    using t(2) by (simp_all add: archetypes_erase_def)
  have sm1: "same_metas w ?w1" by (intro same_metasI) (simp_all add: archetypes_erase_def)
  have sm: "same_metas w w'" unfolding t(2) by (rule same_metas_trans [OF sm1]) simp
  have upd: "update_cache ?w1 g type False c =
      (if valid_group w (q_includeClean c) (q_includeDisabled c) f g = Some True
       then c\<lparr>q_archetypes := cache_remove g (q_archetypes c)\<rparr> else c)"
    if "cache_ok w f c" for f c
    using update_cache_matches [OF t(1) that, of False] valid_group_cong [OF sm1] by simp
  have one: "cache_ok w' f (update_cache ?w1 g type False c)" if "cache_ok w f c" for f c
    using that cache_remove_types [of "q_archetypes c" g]
    by (auto simp: upd [OF that] cache_ok_def gone ctx valid_group_cong [OF sm])
  show "caches_ok w'"
    using ok one dist by (auto simp: caches_ok_def qs comp_def case_prod_beta)
  show "g \<notin> snd ` set (archetypes w')" using gone by simp
qed

section \<open>Chunks of a query\<close>

lemma query_chunk_loop_dseg:
  "dseg (chunks w) p h xs t 0 \<Longrightarrow> query_chunk_loop w P h res = Some (res @ filter P xs)"
proof (induction xs arbitrary: p h res)
  case Nil
  then show ?case by (subst query_chunk_loop.simps) simp
next
  case (Cons x xs)
  then have "query_chunk_loop w P h res = query_chunk_loop w P (c_next (chunks w x)) (if P x then res @ [x] else res)"
    by (subst query_chunk_loop.simps) simp
  then show ?case using Cons.IH [of x "c_next (chunks w x)"] Cons.prems by simp
qed


section \<open>Examples\<close>


lemma masked_pair_live: "metas_live masked_pair"
  by (auto simp: metas_live_def masked_pair_simps get_archetype_of_def arch_of_entity_def ed_c_def)

lemma masked_pair_edge: "meta_edge masked_pair g g' \<longleftrightarrow> g = 11 \<and> g' = 10"
  by (auto simp: meta_edge_def Let_def masked_pair_simps arch_of_entity_def ed_c_def)

theorem shared_types_correct_witness: "shared_types masked_pair 11 = Some [3, 5]"
proof -
  have "wfp (\<lambda>g' g. meta_edge masked_pair g g')"
    by (rule wfp_if_convertible_to_nat [where f = "\<lambda>g. if g = 11 then 1 else 0"]) (simp add: masked_pair_edge)
  moreover have ty: "g_types (archs masked_pair g) = (if g = 10 then [3, 5] else [])" for g
    by (simp add: masked_pair_def placed_pair_def Let_def blank_memory_def zero_archetype_def upd_arch_def upd_chunk_def)
  moreover have "shared_set masked_pair 11 = {3, 5}"
  proof -
    have "{g'. (meta_edge masked_pair)\<^sup>+\<^sup>+ 11 g'} = {10}"
      by (auto simp: masked_pair_edge dest: tranclpD elim: tranclp.cases)
    then show ?thesis by (simp add: shared_set_def masked_pair_simps)
  qed
  moreover have "\<forall>g. ssorted (g_types (archs masked_pair g))" by (simp add: ty)
  ultimately obtain ts where "shared_types masked_pair 11 = Some ts" "ssorted ts" "set ts = {3, 5}"
    using shared_types_correct [OF _ masked_pair_live, of 11] by blast
  moreover have "ts = [3, 5]"
    using ssorted_unique [of ts "[3, 5]"] calculation by simp
  ultimately show ?thesis by simp
qed

definition mask_query :: archetype_filter where
  "mask_query = \<lparr>af_all = \<lparr>et_types = [3], et_metas = []\<rparr>, af_any = EmptyType, af_none = EmptyType, af_shared = [], af_owned = []\<rparr>"

lemma mask_query_flags: "query_flags (w_ctx masked_pair) mask_query = (False, False)"
  by (simp add: query_flags_def mask_query_def Let_def masked_pair_def placed_pair_def blank_memory_def upd_arch_def
      upd_chunk_def context_init_fields ti_index_def mk_type_index_def has_flag_def)

lemma masked_pair_valid: "valid_group masked_pair False False mask_query 10 = Some True"
proof -
  have "shared_types masked_pair 10 = Some []"
    by (simp add: shared_types_def estimate_shared_size_def get_shared_type_def masked_pair_simps
        estimate_shared_loop.simps [of masked_pair 10] shared_type_loop.simps [of masked_pair 10])
  moreover have "\<not> cleaning (archs masked_pair 10)" "\<not> disabled (archs masked_pair 10)" "metatypes (archs masked_pair 10) = []"
    by (simp_all add: masked_pair_def placed_pair_def Let_def blank_memory_def zero_archetype_def upd_arch_def upd_chunk_def)
  ultimately show ?thesis
    by (simp add: valid_group_def af_match_def mask_query_def EmptyType_def arch_type_def masked_pair_simps)
qed


theorem archetype_updates_caches_witness:
  "\<exists>w'. add_archetype 10 (masked_pair\<lparr>queries := [(mask_query, \<lparr>q_includeDisabled = False, q_includeClean = False,
      q_filter = mask_query, q_archetypes = []\<rparr>)]\<rparr>) = Some w' \<and> caches_ok w'"
proof -
  let ?w = "masked_pair\<lparr>queries := [(mask_query, \<lparr>q_includeDisabled = False, q_includeClean = False,
      q_filter = mask_query, q_archetypes = []\<rparr>)]\<rparr>"
  have a: "archetypes ?w = []"
    by (simp add: masked_pair_def placed_pair_def Let_def blank_memory_def upd_arch_def upd_chunk_def)
  have ok: "caches_ok ?w" using a mask_query_flags by (simp add: caches_ok_def cache_ok_def)
  let ?v = "?w\<lparr>arch_events := arch_events ?w @ [(10, True)]\<rparr>"
  have "same_metas masked_pair ?v" by (intro same_metasI) simp_all
  then have "shared_types ?v 10 = shared_types masked_pair 10" by (rule shared_types_cong)
  moreover have "shared_types masked_pair 10 \<noteq> None" using masked_pair_valid by (auto simp: valid_group_def split: if_splits)
  ultimately obtain w' where "add_archetype 10 ?w = Some w'"
    by (auto simp: add_archetype_def update_queries_def Let_def)
  then show ?thesis
    using archetype_updates_caches [OF ok, of 10 w'] a by simp
qed

end
