(* ===== verification/Chunk_Ops.thy ===== *)
theory Chunk_Ops
  imports Queries
begin

text \<open>
  Structural changes of a world (\<open>Dots/Database.cpp\<close>): allocation, resizing and release of
  chunks, slices of rows allocated, freed and cast between archetypes, the merging of an
  archetype's chunks, and the archetype a cast or a destruction leads to.

  Every operation is a function of the world.  \<open>None\<close> means that it does not return: a loop
  that never ends, a null pointer that is followed, an exception out of \<open>noexcept\<close>.
  \<open>free(g)\<close> of an archetype leaves its memory as it is.
\<close>

section \<open>Chunk sizes in order\<close>

primrec ct_num :: "alloc_type \<Rightarrow> nat" where
  "ct_num smallbin = 0"
| "ct_num fastbin = 1"
| "ct_num largebin = 2"

instantiation alloc_type :: linorder
begin

definition less_eq_alloc_type :: "alloc_type \<Rightarrow> alloc_type \<Rightarrow> bool" where
  "less_eq_alloc_type a b \<longleftrightarrow> ct_num a \<le> ct_num b"

definition less_alloc_type :: "alloc_type \<Rightarrow> alloc_type \<Rightarrow> bool" where
  "less_alloc_type a b \<longleftrightarrow> ct_num a < ct_num b"

instance
proof
  fix a b :: alloc_type
  assume "a \<le> b" "b \<le> a"
  then show "a = b" by (cases a; cases b) (simp_all add: less_eq_alloc_type_def)
qed (auto simp: less_eq_alloc_type_def less_alloc_type_def)

end

section \<open>Chunks\<close>

definition new_chunk :: "ptr \<Rightarrow> nat \<Rightarrow> world \<Rightarrow> ptr \<times> world" where
  "new_chunk g hint w =
     (let sz = u32 (hint * entitySize (archs w g));
          ct = (if chunkCount (archs w g) < kSmallBinThreshold \<and> sz < kSmallBinSize then smallbin
                else if sz > kFastBinSize * 8 then largebin
                else fastbin);
          (c, w1) = malloc_chunk ct w
      in (c, add_chunk g c w1))"

definition remove_chunk :: "ptr \<Rightarrow> ptr \<Rightarrow> world \<Rightarrow> world option" where
  "remove_chunk g c w =
     (let w1 = structural_change g c w;
          w2 = upd_arch g (\<lambda>a. a\<lparr>g_size := sub32 (g_size a) (c_count (chunks w1 c)),
                                 chunkCount := u16 (chunkCount a + 2 ^ 16 - 1)\<rparr>) w1;
          w3 = (if c = firstFree (archs w2 g) then upd_arch g (\<lambda>a. a\<lparr>firstFree := c_next (chunks w2 c)\<rparr>) w2 else w2);
          w4 = world_remove g c w3;
          w5 = upd_chunk c (\<lambda>ch. ch\<lparr>c_type := 0\<rparr>) w4
      in if firstChunk (archs w5 g) = 0
         then update_queries g False (archetypes_erase (arch_type (archs w5 g)) w5)
         else Some w5)"

definition destroy_chunk :: "ptr \<Rightarrow> ptr \<Rightarrow> world \<Rightarrow> world option" where
  "destroy_chunk g c w = map_option (recycle_chunk c) (remove_chunk g c w)"

definition resize_chunk :: "ptr \<Rightarrow> nat \<Rightarrow> world \<Rightarrow> world option" where
  "resize_chunk c n w =
     (let g = c_type (chunks w c) in
      if n = 0 then destroy_chunk g c w
      else
        let w1 = (if n = chunk_capacity w g c then unmark_free g c w
                  else if c_count (chunks w c) = chunk_capacity w g c then mark_free g c w
                  else w)
        in Some (upd_chunk c (\<lambda>ch. ch\<lparr>c_count := n\<rparr>) w1))"

section \<open>Slices\<close>

definition allocate_slice :: "ptr \<Rightarrow> nat \<Rightarrow> world \<Rightarrow> (chunk_slice \<times> world) option" where
  "allocate_slice g n w =
     (let (c, w1) = (if firstFree (archs w g) = 0 then new_chunk g n w else (firstFree (archs w g), w));
          w2 = structural_change g c w1;
          start = c_count (chunks w2 c);
          allocated = min n (sub32 (chunk_capacity w2 g c) start);
          w3 = upd_arch g (\<lambda>a. a\<lparr>g_size := u32 (g_size a + allocated)\<rparr>) w2
      in map_option (\<lambda>w4. (\<lparr>sl_c = c, sl_start = start, sl_count = allocated\<rparr>, w4))
           (resize_chunk c (u32 (start + allocated)) w3))"

definition free_slice :: "chunk_slice \<Rightarrow> world \<Rightarrow> world option" where
  "free_slice s w =
     (let c = sl_c s; g = c_type (chunks w c);
          w1 = structural_change g c w;
          w2 = upd_arch g (\<lambda>a. a\<lparr>g_size := sub32 (g_size a) (sl_count s)\<rparr>) w1;
          cnt = c_count (chunks w2 c);
          toMoveCount = min (sl_count s) (sub32 (sub32 cnt (sl_start s)) (sl_count s));
          w3 = (if toMoveCount > 0 then
                  let moveSlice = \<lparr>sl_c = c, sl_start = sl_start s, sl_count = toMoveCount\<rparr>
                  in fill_entities moveSlice (sub32 cnt toMoveCount)
                       (chunk_move_within moveSlice (sub32 cnt toMoveCount) w2)
                else w2)
      in resize_chunk c (sub32 (c_count (chunks w3 c)) (sl_count s)) w3)"

text \<open>The loop of \<open>cast_slice\<close> from row \<open>k\<close> of the source on.\<close>

partial_function (option) cast_slice_loop :: "chunk_slice \<Rightarrow> ptr \<Rightarrow> nat \<Rightarrow> chunk_slice list \<Rightarrow> world \<Rightarrow>
    (chunk_slice list \<times> world) option" where
  "cast_slice_loop src g k result w =
     (if k < sl_count src then
        Option.bind (allocate_slice g (sl_count src - k) w) (\<lambda>(s, w1).
        Option.bind (chunk_cast s (sl_c src) (sl_start src + k) True w1) (\<lambda>w2.
        let w3 = move_entities s (sl_c src) (sl_start src + k) w2
        in cast_slice_loop src g (k + sl_count s) (result @ [s]) w3))
      else Some (result, w))"

definition cast_slice :: "chunk_slice \<Rightarrow> ptr \<Rightarrow> world \<Rightarrow> (chunk_slice list \<times> world) option" where
  "cast_slice src g w =
     (let srcG = c_type (chunks w (sl_c src));
          w1 = structural_change srcG (sl_c src) w;
          w2 = upd_arch srcG (\<lambda>a. a\<lparr>g_size := sub32 (g_size a) (sl_count src)\<rparr>) w1
      in do {
        (result, w3) \<leftarrow> cast_slice_loop src g 0 [] w2;
        w4 \<leftarrow> free_slice src w3;
        Some (result, w4)
      })"

text \<open>\<open>world::cast(s, g)\<close>: a null archetype destroys the rows; a full slice of a compatible type
  moves as a whole chunk.\<close>

definition cast_to :: "chunk_slice \<Rightarrow> ptr \<Rightarrow> world \<Rightarrow> (chunk_slice list \<times> world) option" where
  "cast_to s g w =
     (if g = 0 then map_option (\<lambda>w'. ([], w')) (free_slice s (free_entities s w))
      else
        let srcG = c_type (chunks w (sl_c s)); srcT = arch_type (archs w srcG) in
        if srcG = g then Some ([], w)
        else if slice_full w s \<and> static_castable (w_ctx w) srcT (arch_type (archs w g))
             then map_option (\<lambda>w'. ([], add_chunk g (sl_c s) w')) (remove_chunk srcG (sl_c s) w)
        else cast_slice s g w)"

section \<open>Where a destruction and a cast lead\<close>

text \<open>\<open>get_cleaning\<close>: the archetype that keeps the components with manual cleaning; a null
  pointer when there are none.\<close>

definition cleaning_types :: "dots_context \<Rightarrow> type_index list \<Rightarrow> type_index list" where
  "cleaning_types ctx ts = sort (cleanup_id ctx # filter (\<lambda>t. has_flag (tracks ctx ! ti_index t) ManualCleaning) ts)"

definition get_cleaning :: "ptr \<Rightarrow> world \<Rightarrow> (ptr \<times> world) option" where
  "get_cleaning g w =
     (let a = archs w g; ts = take (componentCount a) (g_types a); dst = cleaning_types (w_ctx w) ts in
      if cleaning a then Some (g, w)
      else if \<not> withTracked a then Some (0, w)
      else if length dst = 1 then Some (0, w)
      else get_archetype \<lparr>et_types = dst, et_metas = metatypes a\<rparr> w)"

definition is_cleaned :: "entity_type \<Rightarrow> bool" where
  "is_cleaned type \<longleftrightarrow> length (et_types type) = 1"

text \<open>The phases of \<open>get_casted\<close>.  Phase 0 turns a type with manual copying into its copying twin;
  phase 2 drops the twin that follows such a type; phase 3 adds the twins to what is removed.\<close>

definition start_copying :: "dots_context \<Rightarrow> type_index list \<Rightarrow> type_index list" where
  "start_copying ctx = map (\<lambda>t. if has_flag (tracks ctx ! ti_index t) ManualCopying then t + 1 else t)"

fun complete_copying :: "dots_context \<Rightarrow> type_index list \<Rightarrow> type_index list" where
  "complete_copying ctx (t # t' # ts) =
     (if has_flag (tracks ctx ! ti_index t) ManualCopying \<and> t' = t + 1
      then t # complete_copying ctx ts
      else t # complete_copying ctx (t' # ts))"
| "complete_copying ctx ts = ts"

definition with_copies :: "dots_context \<Rightarrow> type_index list \<Rightarrow> type_index list" where
  "with_copies ctx ts = concat (map (\<lambda>t. if has_flag (tracks ctx ! ti_index t) ManualCopying then [t, t + 1] else [t]) ts)"

definition casted_type :: "dots_context \<Rightarrow> archetype \<Rightarrow> type_diff \<Rightarrow> bool \<Rightarrow> entity_type option" where
  "casted_type ctx g diff inst =
     (if inst \<and> cleaning g then None
      else
        let t0 = arch_type g;
            t1 = (if inst \<and> withTracked g then t0\<lparr>et_types := start_copying ctx (et_types t0)\<rparr> else t0);
            t2 = (if td_extend diff \<noteq> EmptyType then et_merge t1 (td_extend diff) else t1);
            t3 = (if copying g \<and> td_extend diff \<noteq> EmptyType then t2\<lparr>et_types := complete_copying ctx (et_types t2)\<rparr> else t2);
            shr = (if copying g \<and> td_shrink diff \<noteq> EmptyType
                   then (td_shrink diff)\<lparr>et_types := with_copies ctx (et_types (td_shrink diff))\<rparr> else td_shrink diff);
            t4 = (if td_shrink diff \<noteq> EmptyType then et_substract t3 shr else t3)
        in if cleaning g \<and> is_cleaned t4 then None else Some t4)"

definition get_casted :: "ptr \<Rightarrow> type_diff \<Rightarrow> bool \<Rightarrow> world \<Rightarrow> (ptr \<times> world) option" where
  "get_casted g diff inst w =
     (case casted_type (w_ctx w) (archs w g) diff inst of
        None \<Rightarrow> Some (0, w)
      | Some t \<Rightarrow> get_archetype t w)"

section \<open>Destruction\<close>

definition destroy_single :: "chunk_slice \<Rightarrow> world \<Rightarrow> world option" where
  "destroy_single s w =
     (let g = c_type (chunks w (sl_c s)) in
      if cleaning (archs w g) then Some w
      else do {
        (g', w1) \<leftarrow> get_cleaning g w;
        if g' = 0 then free_slice s (free_entities s w1)
        else map_option snd (cast_slice s g' w1)
      })"

definition cast_diff :: "chunk_slice \<Rightarrow> type_diff \<Rightarrow> world \<Rightarrow> (chunk_slice list \<times> world) option" where
  "cast_diff s diff w = Option.bind (get_casted (c_type (chunks w (sl_c s))) diff False w) (\<lambda>(g, w1). cast_to s g w1)"

definition cast_type :: "chunk_slice \<Rightarrow> entity_type \<Rightarrow> world \<Rightarrow> (chunk_slice list \<times> world) option" where
  "cast_type s type w = Option.bind (get_archetype type w) (\<lambda>(g, w1). cast_to s g w1)"

section \<open>Allocation\<close>

partial_function (option) allocate_loop :: "ptr \<Rightarrow> nat \<Rightarrow> nat \<Rightarrow> chunk_slice list \<Rightarrow> world \<Rightarrow> (chunk_slice list \<times> world) option" where
  "allocate_loop g n k result w =
     (if k < n then
        Option.bind (allocate_slice g (n - k) w) (\<lambda>(s, w1).
        let w2 = new_entities s (chunk_construct s w1)
        in allocate_loop g n (k + sl_count s) (result @ [s]) w2)
      else Some (result, w))"

definition allocate :: "ptr \<Rightarrow> nat \<Rightarrow> world \<Rightarrow> (chunk_slice list \<times> world) option" where
  "allocate g n w = allocate_loop g n 0 [] w"

definition allocate_type :: "entity_type \<Rightarrow> nat \<Rightarrow> world \<Rightarrow> (chunk_slice list \<times> world) option" where
  "allocate_type type n w = Option.bind (get_archetype type w) (\<lambda>(g, w1). allocate g n w1)"

end
