(* ===== verification/Prefab.thy ===== *)
theory Prefab
  imports Chunk_Ops
begin

text \<open>
  Instantiation and destruction of entities and groups (\<open>Dots/Database.cpp\<close>): a group is an
  entity with the built-in buffer component \<open>group\<close>, which lists its members, itself first.
  A group is instantiated by turning the references between its members into transient
  handles (the member's number), duplicating every member and patching the copies.

  The arrays of entities on the program's own stack are functions of the index: an index past
  the end reads whatever is there.  \<open>pf\<close> are the components' patch functions and \<open>gen\<close> the GUID
  generator.  Recursion over groups need not end (\<open>None\<close>).
\<close>

section \<open>Groups\<close>

definition group_count :: "world \<Rightarrow> place \<Rightarrow> nat" where
  "group_count w p = buf_size (bytes_of w (fst p)) (snd p) div sizeof_entity"

definition group_member :: "world \<Rightarrow> place \<Rightarrow> nat \<Rightarrow> entity" where
  "group_member w p i = rd 4 (buf_data (bytes_of w (fst p)) (bheap w) (snd p)) (sizeof_entity * i)"

text \<open>The members the loops over a group visit: all but the first.\<close>

definition group_rest :: "world \<Rightarrow> place \<Rightarrow> entity list" where
  "group_rest w p = map (group_member w p) [1..<group_count w p]"

definition entity_group :: "world \<Rightarrow> entity \<Rightarrow> place option option" where
  "entity_group w e = get_component_ro w e (group_id (w_ctx w))"

partial_function (option) estimate_group_loop :: "world \<Rightarrow> entity list \<Rightarrow> nat \<Rightarrow> nat option" where
  "estimate_group_loop w ms sz =
     (case ms of
        [] \<Rightarrow> Some sz
      | m # rest \<Rightarrow>
          Option.bind (entity_group w m) (\<lambda>gd.
          Option.bind (case gd of Some p \<Rightarrow> estimate_group_loop w (group_rest w p) (u32 (sz + 1))
                                | None \<Rightarrow> Some (u32 (sz + 1)))
            (\<lambda>sz'. estimate_group_loop w rest sz')))"

definition estimate_group_size :: "world \<Rightarrow> nat \<Rightarrow> place \<Rightarrow> nat option" where
  "estimate_group_size w sz root = estimate_group_loop w (group_rest w root) (u32 (sz + 1))"

partial_function (option) flatten_group_loop :: "world \<Rightarrow> entity list \<Rightarrow> entity list \<Rightarrow> entity list option" where
  "flatten_group_loop w ms data =
     (case ms of
        [] \<Rightarrow> Some data
      | m # rest \<Rightarrow>
          Option.bind (entity_group w m) (\<lambda>gd.
          Option.bind (case gd of Some p \<Rightarrow> flatten_group_loop w (group_rest w p) (data @ [group_member w p 0])
                                | None \<Rightarrow> Some (data @ [m]))
            (\<lambda>data'. flatten_group_loop w rest data')))"

definition flatten_group :: "world \<Rightarrow> entity list \<Rightarrow> place \<Rightarrow> entity list option" where
  "flatten_group w data root = flatten_group_loop w (group_rest w root) (data @ [group_member w root 0])"

definition flatten_group_impl :: "world \<Rightarrow> place \<Rightarrow> entity list option" where
  "flatten_group_impl w g = Option.bind (estimate_group_size w 0 g) (\<lambda>_. flatten_group w [] g)"

section \<open>Turning a group into a prefab and back\<close>

definition to_prefab_patcher :: "entity list \<Rightarrow> bool \<Rightarrow> unit patcher" where
  "to_prefab_patcher source keepExternal =
     \<lparr>p_patch = (\<lambda>e s. let i = length (takeWhile (\<lambda>x. x \<noteq> e) source)
                       in (if i < length source then make_transient i else if keepExternal then e else NullEntity, s)),
      p_move = (\<lambda>s. s), p_reset = (\<lambda>s. s)\<rparr>"

definition from_prefab_patcher :: "(nat \<Rightarrow> entity) \<Rightarrow> nat \<Rightarrow> unit patcher" where
  "from_prefab_patcher source n =
     \<lparr>p_patch = (\<lambda>e s. (if e_id e > n \<or> \<not> is_transient e then e else source (e_id e), s)),
      p_move = (\<lambda>s. s), p_reset = (\<lambda>s. s)\<rparr>"

definition patch_entity :: "unit patch_funs \<Rightarrow> unit patcher \<Rightarrow> entity \<Rightarrow> world \<Rightarrow> world" where
  "patch_entity pf p e w =
     (let data = data_of w (e_id e)
      in fst (chunk_patch pf p \<lparr>sl_c = ed_c data, sl_start = ed_i data, sl_count = 1\<rparr> (w, ())))"

definition group_to_prefab :: "unit patch_funs \<Rightarrow> entity list \<Rightarrow> bool \<Rightarrow> world \<Rightarrow> world" where
  "group_to_prefab pf src keepExternal = fold (patch_entity pf (to_prefab_patcher src keepExternal)) src"

definition prefab_to_group :: "unit patch_funs \<Rightarrow> (nat \<Rightarrow> entity) \<Rightarrow> nat \<Rightarrow> world \<Rightarrow> world" where
  "prefab_to_group pf members n = for_up (\<lambda>i. patch_entity pf (from_prefab_patcher members n) (members i)) 0 n"

section \<open>Instantiation\<close>

partial_function (option) instantiate_loop :: "(nat \<Rightarrow> GUID) \<Rightarrow> entity \<Rightarrow> ptr \<Rightarrow> nat \<Rightarrow> nat \<Rightarrow> chunk_slice list \<Rightarrow> world \<Rightarrow>
    (chunk_slice list \<times> world) option" where
  "instantiate_loop gen src g n k result w =
     (if k < n then
        Option.bind (allocate_slice g (n - k) w) (\<lambda>(s, w1).
        let data = data_of w1 (e_id src);
            w2 = new_entities s (chunk_duplicate (\<lambda>j. gen (k + j)) s (ed_c data) (ed_i data) w1)
        in instantiate_loop gen src g n (k + sl_count s) (result @ [s]) w2)
      else Some (result, w))"

definition instantiate_single :: "(nat \<Rightarrow> GUID) \<Rightarrow> entity \<Rightarrow> nat \<Rightarrow> world \<Rightarrow> (chunk_slice list \<times> world) option" where
  "instantiate_single gen src n w = do {
     (g, w1) \<leftarrow> get_casted (arch_of_entity w src) \<lparr>td_extend = EmptyType, td_shrink = EmptyType\<rparr> True w;
     if g = 0 \<and> 0 < n then None else instantiate_loop gen src g n 0 [] w1
   }"

text \<open>The first loop of \<open>instantiate_prefab\<close>: member \<open>i\<close> of copy \<open>k\<close> goes to \<open>ret[k * size + i]\<close>.
  \<open>gen i\<close> are the GUIDs member \<open>i\<close> gets.\<close>

definition record_copies :: "world \<Rightarrow> nat \<Rightarrow> nat \<Rightarrow> chunk_slice list \<Rightarrow> (nat \<Rightarrow> entity) \<Rightarrow> (nat \<Rightarrow> entity)" where
  "record_copies w sz i g ret =
     fst (fold (\<lambda>s (ret, k). for_up (\<lambda>j (ret, k). (ret(k * sz + i := get_entities w s j), k + 1)) 0 (sl_count s) (ret, k))
            g (ret, 0))"

fun instantiate_members :: "(nat \<Rightarrow> nat \<Rightarrow> GUID) \<Rightarrow> nat \<Rightarrow> nat \<Rightarrow> nat \<Rightarrow> entity list \<Rightarrow>
    chunk_slice list list \<Rightarrow> (nat \<Rightarrow> entity) \<Rightarrow> world \<Rightarrow> (chunk_slice list list \<times> (nat \<Rightarrow> entity) \<times> world) option" where
  "instantiate_members gen sz n i [] slices ret w = Some (slices, ret, w)"
| "instantiate_members gen sz n i (e # es) slices ret w = do {
     (g, w1) \<leftarrow> instantiate_single (gen i) e n w;
     instantiate_members gen sz n (i + 1) es (slices @ [g]) (record_copies w1 sz i g ret) w1
   }"

text \<open>The patcher of the copies; its state is the offset of \<open>curr\<close> in \<open>ret\<close>.\<close>

definition copies_patcher :: "(nat \<Rightarrow> entity) \<Rightarrow> nat \<Rightarrow> nat \<Rightarrow> nat patcher" where
  "copies_patcher ret base n =
     \<lparr>p_patch = (\<lambda>e curr. (if e_id e > n \<or> \<not> is_transient e then e else ret (curr + e_id e), curr)),
      p_move = (\<lambda>curr. curr + n), p_reset = (\<lambda>_. base)\<rparr>"

definition patch_copies :: "nat patch_funs \<Rightarrow> (nat \<Rightarrow> entity) \<Rightarrow> nat \<Rightarrow> chunk_slice list \<Rightarrow> world \<Rightarrow> world" where
  "patch_copies pf ret n g w =
     fst (fold (\<lambda>s (w, k). (fst (chunk_patch pf (copies_patcher ret (k * n) n) s (w, k * n)), k + sl_count s)) g (w, 0))"

definition instantiate_prefab :: "nat patch_funs \<Rightarrow> (nat \<Rightarrow> nat \<Rightarrow> GUID) \<Rightarrow> (nat \<Rightarrow> entity) \<Rightarrow> entity list \<Rightarrow> nat \<Rightarrow> world \<Rightarrow>
    (chunk_slice list \<times> world) option" where
  "instantiate_prefab pf gen stack src n w = do {
     (slices, ret, w1) \<leftarrow> instantiate_members gen (length src) n 0 src [] stack w;
     Some (concat slices, fold (patch_copies pf ret (length src)) slices w1)
   }"

definition instantiate_group :: "unit patch_funs \<Rightarrow> nat patch_funs \<Rightarrow> (nat \<Rightarrow> nat \<Rightarrow> GUID) \<Rightarrow> (nat \<Rightarrow> entity) \<Rightarrow> place \<Rightarrow> nat \<Rightarrow> world \<Rightarrow>
    (chunk_slice list \<times> world) option" where
  "instantiate_group pfu pfn gen stack g n w = do {
     members \<leftarrow> flatten_group_impl w g;
     let w1 = group_to_prefab pfu members True w;
     (result, w2) \<leftarrow> instantiate_prefab pfn gen stack members n w1;
     Some (result, prefab_to_group pfu (\<lambda>i. if i < length members then members ! i else stack i) (length members) w2)
   }"

definition instantiate :: "unit patch_funs \<Rightarrow> nat patch_funs \<Rightarrow> (nat \<Rightarrow> nat \<Rightarrow> GUID) \<Rightarrow> (nat \<Rightarrow> entity) \<Rightarrow> entity \<Rightarrow> nat \<Rightarrow> world \<Rightarrow>
    (chunk_slice list \<times> world) option" where
  "instantiate pfu pfn gen stack src n w = do {
     gd \<leftarrow> entity_group w src;
     case gd of
       None \<Rightarrow> instantiate_single (gen 0) src n w
     | Some g \<Rightarrow> instantiate_group pfu pfn gen stack g n w
   }"

section \<open>Destruction of groups\<close>

text \<open>\<open>destroy(slice)\<close>.  The loop over a row's members looks at table entry \<open>i\<close>, the number of
  the row, once per member; the rows are addressed from the start of the chunk with the size
  of component \<open>i\<close>.  The recursion is cut off by fuel.\<close>

primrec destroy_slice :: "nat \<Rightarrow> chunk_slice \<Rightarrow> world \<Rightarrow> world option" where
  "destroy_slice 0 s w = None"
| "destroy_slice (Suc fuel) s w =
     (let c = sl_c s; g = chunk_arch w c; k = arch_index g (group_id (w_ctx w)) in
      if c = 0 then None else Option.bind
        (if k \<noteq> InvalidIndex then
           for_up_opt (\<lambda>i w'.
             let at = offsets g (c_ct (chunks w c)) k + i * sizes g ! i;
                 members = u16 (group_count w' (c, at))
             in for_up_opt (\<lambda>j w''.
                  let data = data_of w'' i
                  in destroy_slice fuel \<lparr>sl_c = ed_c data, sl_start = ed_i data, sl_count = 1\<rparr> w'') 1 members w')
             0 (sl_count s) w
         else Some w)
        (destroy_single s))"

text \<open>\<open>destroy(ents, count)\<close>: the batches are computed while the rows change, from the table as
  it is when the iterator advances.\<close>

primrec destroy_batches :: "nat \<Rightarrow> entity list \<Rightarrow> batch_iter \<Rightarrow> world \<Rightarrow> world option" where
  "destroy_batches 0 es it w = None"
| "destroy_batches (Suc fuel) es it w = do {
     w1 \<leftarrow> destroy_slice fuel (bi_s it) w;
     let (valid, it') = batch_next w1 es it;
     if valid then destroy_batches fuel es it' w1 else Some w1
   }"

definition destroy_entities :: "nat \<Rightarrow> entity list \<Rightarrow> world \<Rightarrow> world option" where
  "destroy_entities fuel es w = destroy_batches fuel es (batch_iter_init w es) w"

section \<open>References\<close>

text \<open>\<open>gather_reference\<close>: collects every entity the entity or the members of its group refer to,
  the members themselves excepted.\<close>

definition gather_patcher :: "(entity \<Rightarrow> bool) \<Rightarrow> entity list patcher" where
  "gather_patcher own = \<lparr>p_patch = (\<lambda>e ents. (e, if own e then ents else ents @ [e])), p_move = (\<lambda>s. s), p_reset = (\<lambda>s. s)\<rparr>"

definition gather_entity :: "entity list patch_funs \<Rightarrow> entity list patcher \<Rightarrow> entity \<Rightarrow> world \<times> entity list \<Rightarrow> world \<times> entity list" where
  "gather_entity pf p e ws =
     (let (w, ents) = ws; data = data_of w (e_id e); g = chunk_arch w (ed_c data);
          ents1 = fold (\<lambda>m s. snd (p_patch p m s)) (take (metaCount g) (metatypes g)) ents
      in chunk_patch pf p \<lparr>sl_c = ed_c data, sl_start = ed_i data, sl_count = 1\<rparr> (w, ents1))"

definition gather_reference :: "entity list patch_funs \<Rightarrow> entity \<Rightarrow> world \<Rightarrow> (entity list \<times> world) option" where
  "gather_reference pf e w = do {
     gd \<leftarrow> entity_group w e;
     Some (prod.swap (case gd of
       None \<Rightarrow> gather_entity pf (gather_patcher (\<lambda>x. x = e)) e (w, [])
     | Some g \<Rightarrow> (let members = map (group_member w g) [0..<group_count w g]
                 in fold (gather_entity pf (gather_patcher (\<lambda>x. x \<in> set members))) members (w, []))))
   }"

end
