(* ===== verification/World_Life.thy ===== *)
theory World_Life
  imports Prefab
begin

text \<open>
  Operations on whole worlds (\<open>Dots/Database.cpp\<close>): merging the chunks of an archetype, removing
  dead meta entities, clearing, copying and moving a world, and moving the contents of one
  world into another.

  Two worlds share the memory: the chunks, archetypes, blocks, bins and the context.  An
  operation on two worlds takes the memory from the first and ignores that of the second.
\<close>

section \<open>merge\_chunks\<close>

text \<open>The insertion of \<open>toSort\<close> before the first chunk that is smaller or emptier.\<close>

definition insert_before :: "ptr \<Rightarrow> ptr \<Rightarrow> ptr \<Rightarrow> world \<Rightarrow> world" where
  "insert_before g toSort iter w =
     (let w1 = chunk_unlink toSort w;
          pv = c_prev (chunks w1 iter);
          w2 = upd_chunk toSort (\<lambda>ch. ch\<lparr>c_prev := pv, c_next := iter\<rparr>) w1
      in if pv \<noteq> 0 then upd_chunk iter (\<lambda>ch. ch\<lparr>c_prev := toSort\<rparr>) (upd_chunk pv (\<lambda>ch. ch\<lparr>c_next := toSort\<rparr>) w2)
         else upd_arch g (\<lambda>a. a\<lparr>firstChunk := toSort\<rparr>) (upd_chunk iter (\<lambda>ch. ch\<lparr>c_prev := toSort\<rparr>) w2))"

partial_function (option) sort_place :: "ptr \<Rightarrow> ptr \<Rightarrow> ptr \<Rightarrow> ptr \<Rightarrow> world \<Rightarrow> world option" where
  "sort_place g toSort unsorted iter w =
     (if iter \<noteq> unsorted then
        (let a = chunks w iter; b = chunks w toSort in
         if iter = 0 then None
         else if c_ct a < c_ct b \<or> c_count a < c_count b then Some (insert_before g toSort iter w)
         else sort_place g toSort unsorted (c_next a) w)
      else Some w)"

partial_function (option) sort_chunks :: "ptr \<Rightarrow> ptr \<Rightarrow> ptr \<Rightarrow> world \<Rightarrow> (ptr \<times> world) option" where
  "sort_chunks g toSort unsorted w =
     (if unsorted \<noteq> 0 then
        (let toSort' = unsorted; unsorted' = c_next (chunks w unsorted) in
         Option.bind (sort_place g toSort' unsorted' (firstChunk (archs w g)) w)
           (\<lambda>w'. sort_chunks g toSort' unsorted' w'))
      else Some (toSort, w))"

text \<open>The loop over the large chunks does not advance its iterator.\<close>

partial_function (option) skip_large :: "world \<Rightarrow> ptr \<Rightarrow> nat \<Rightarrow> nat \<Rightarrow> nat option" where
  "skip_large w iter largeSize mergeable =
     (if c_ct (chunks w iter) = largebin
      then skip_large w iter largeSize (if mergeable > largeSize then sub32 mergeable largeSize else 0)
      else Some mergeable)"

text \<open>New large chunks replace the list's head; the chunks of the list are not kept.\<close>

partial_function (option) make_large :: "ptr \<Rightarrow> nat \<Rightarrow> nat \<Rightarrow> world \<Rightarrow> world option" where
  "make_large g largeSize mergeable w =
     (if mergeable > largeSize then
        (let (c, w1) = malloc_chunk largebin w
         in make_large g largeSize (sub32 mergeable largeSize) (upd_arch g (\<lambda>a. a\<lparr>firstChunk := c\<rparr>) w1))
      else Some w)"

text \<open>Moving the rows of the last chunk into the first ones.  A chunk that was released has no
  archetype.\<close>

partial_function (option) merge_rows :: "ptr \<Rightarrow> ptr \<Rightarrow> world \<Rightarrow> (ptr \<times> world) option" where
  "merge_rows g dst w =
     (if dst \<noteq> lastChunk (archs w g) then
        (let src = lastChunk (archs w g); fullSize = chunk_capacity w g dst; n = c_count (chunks w dst);
             moveSize = min (sub32 fullSize n) (c_count (chunks w src));
             from = sub32 (c_count (chunks w src)) moveSize;
             s = \<lparr>sl_c = dst, sl_start = n, sl_count = moveSize\<rparr>;
             w1 = move_entities s src from (chunk_move s src from w);
             w2 = upd_chunk dst (\<lambda>ch. ch\<lparr>c_count := u32 (c_count ch + moveSize)\<rparr>) w1;
             w3 = upd_chunk src (\<lambda>ch. ch\<lparr>c_count := sub32 (c_count ch) moveSize\<rparr>) w2;
             dst' = (if c_count (chunks w3 dst) = fullSize then c_next (chunks w3 dst) else dst)
         in if c_type (chunks w dst) = 0 then None
            else Option.bind (if c_count (chunks w3 src) = 0 then destroy_chunk g src w3 else Some w3)
                   (\<lambda>w4. merge_rows g dst' w4))
      else Some (dst, w))"

definition merge_chunks :: "ptr \<Rightarrow> world \<Rightarrow> world option" where
  "merge_chunks g w =
     (let a = archs w g in
      if firstChunk a = 0 \<or> c_next (chunks w (firstChunk a)) = 0 then Some w
      else do {
        let unsorted = c_next (chunks w (firstChunk a));
        (toSort, w1) \<leftarrow> sort_chunks g unsorted unsorted w;
        let w2 = (if toSort \<noteq> 0 then upd_arch g (\<lambda>a. a\<lparr>lastChunk := toSort\<rparr>) w1 else w1);
        let largeSize = chunkCapacity (archs w2 g) largebin;
        mergeable \<leftarrow> skip_large w2 (firstChunk (archs w2 g)) largeSize (g_size (archs w2 g));
        w3 \<leftarrow> make_large g largeSize mergeable w2;
        (dst, w4) \<leftarrow> merge_rows g (firstChunk (archs w3 g)) w3;
        Some (upd_arch g (\<lambda>a. a\<lparr>firstFree := (if c_count (chunks w4 dst) \<noteq> chunk_capacity w4 g dst then dst else 0)\<rparr>) w4)
      })"

fun merge_all :: "ptr list \<Rightarrow> world \<Rightarrow> world option" where
  "merge_all [] w = Some w"
| "merge_all (g # gs) w = Option.bind (merge_chunks g w) (merge_all gs)"

definition merge_world_chunks :: "world \<Rightarrow> world option" where
  "merge_world_chunks w = merge_all (map snd (archetypes w)) w"

section \<open>gc\_meta\<close>

definition gc_archetype :: "ptr \<Rightarrow> world \<Rightarrow> world" where
  "gc_archetype g w =
     (let a = archs w g in
      if list_ex (\<lambda>m. \<not> entity_exist w m) (take (metaCount a) (metatypes a)) then
        let w1 = archetypes_erase (arch_type a) w;
            (mt, n) = gc_meta_loop (entity_exist w) 0 (metatypes a, metaCount a);
            w2 = upd_arch g (\<lambda>a. a\<lparr>metatypes := take n mt, metaCount := n\<rparr>) w1
        in archetypes_insert (arch_type (archs w2 g)) g w2
      else w)"

text \<open>The loop changes the map it runs over; here it runs over the archetypes there were.\<close>

definition gc_meta :: "world \<Rightarrow> world" where
  "gc_meta w = fold gc_archetype (map snd (archetypes w)) w"

section \<open>clear\<close>

partial_function (option) clear_chunks :: "ptr \<Rightarrow> world \<Rightarrow> world option" where
  "clear_chunks c w =
     (if c \<noteq> 0 then
        (let nx = c_next (chunks w c);
             w1 = chunk_destruct \<lparr>sl_c = c, sl_start = 0, sl_count = c_count (chunks w c)\<rparr> w
         in clear_chunks nx (recycle_chunk c w1))
      else Some w)"

fun clear_archetypes :: "ptr list \<Rightarrow> world \<Rightarrow> world option" where
  "clear_archetypes [] w = Some w"
| "clear_archetypes (g # gs) w = do {
     w1 \<leftarrow> clear_chunks (firstChunk (archs w g)) w;
     clear_archetypes gs (w1\<lparr>arch_events := arch_events w1 @ [(g, False)]\<rparr>)
   }"

definition clear :: "world \<Rightarrow> world option" where
  "clear w = do {
     let w0 = w\<lparr>typeTimestamps := (\<lambda>i. if i < typeCapacity w then 0 else typeTimestamps w i)\<rparr>;
     w1 \<leftarrow> clear_archetypes (map snd (archetypes w0)) w0;
     Some ((ents_clear w1)\<lparr>queries := [], archetypes := []\<rparr>)
   }"

section \<open>Copy and move of a world\<close>

definition with_memory :: "world \<Rightarrow> world \<Rightarrow> world" where
  "with_memory m w = w\<lparr>chunks := chunks m, archs := archs m, bheap := bheap m, next_ptr := next_ptr m,
     bins := bins m, bin_room := bin_room m, w_ctx := w_ctx m\<rparr>"

text \<open>The copy constructor.  The copied archetype keeps the pointer to the source's type array,
  so marking the copying stage changes both; the chunk that is added is the source's.\<close>

partial_function (option) copy_chunks :: "ptr \<Rightarrow> ptr \<Rightarrow> world \<Rightarrow> world option" where
  "copy_chunks newG c w =
     (if c \<noteq> 0 then
        (let (newC, w1) = malloc_chunk (c_ct (chunks w c)) w;
             w2 = add_chunk newG c (chunk_clone c newC w1)
         in copy_chunks newG (c_next (chunks w2 c)) w2)
      else Some w)"

definition copy_archetype :: "ptr \<Rightarrow> world \<Rightarrow> world option" where
  "copy_archetype g w =
     (let a = archs w g in
      if cleaning a then Some w
      else
        let newG = next_ptr w;
            ts = start_copying (w_ctx w) (g_types a);
            w1 = upd_arch g (\<lambda>a. a\<lparr>g_types := ts\<rparr>) (w\<lparr>next_ptr := Suc newG\<rparr>);
            w2 = upd_arch newG (\<lambda>_. a\<lparr>g_types := ts, firstChunk := 0, firstFree := 0, lastChunk := 0\<rparr>) w1
        in Option.bind (copy_chunks newG (firstChunk a) w2) (add_archetype newG))"

fun copy_archetypes :: "ptr list \<Rightarrow> world \<Rightarrow> world option" where
  "copy_archetypes [] w = Some w"
| "copy_archetypes (g # gs) w = Option.bind (copy_archetype g w) (copy_archetypes gs)"

definition world_copy :: "world \<Rightarrow> world option" where
  "world_copy src = copy_archetypes (map snd (archetypes src))
     (src\<lparr>archetypes := [], queries := [], arch_events := [], ents := ents_clone src, typeTimestamps := (\<lambda>_. 0)\<rparr>)"

text \<open>The move constructor and the move assignment: the new world and the one moved from.\<close>

definition world_move :: "world \<Rightarrow> world \<times> world" where
  "world_move other = (other\<lparr>arch_events := []\<rparr>,
     other\<lparr>archetypes := [], queries := [], ents := \<lparr>datas = [], free_head = free_head (ents other)\<rparr>\<rparr>)"

section \<open>move\_context\<close>

definition patch_chunk :: "unit patch_funs \<Rightarrow> unit patcher \<Rightarrow> chunk_slice \<Rightarrow> world \<Rightarrow> world" where
  "patch_chunk pf p s w =
     (let w1 = upd_chunk (sl_c s) (\<lambda>ch. ch\<lparr>c_ents := for_up (\<lambda>i es. es(sl_start s + i := fst (p_patch p (es (sl_start s + i)) ())))
                  0 (sl_count s) (c_ents ch)\<rparr>) w
      in fst (chunk_patch pf p s (w1, ())))"

definition move_patcher :: "(nat \<Rightarrow> entity) \<Rightarrow> nat \<Rightarrow> unit patcher" where
  "move_patcher target n =
     \<lparr>p_patch = (\<lambda>e s. (if e_id e < 0 \<or> e_id e > 0 + n then NullEntity else target (e_id e - 0), s)),
      p_move = (\<lambda>s. s), p_reset = (\<lambda>s. s)\<rparr>"

text \<open>The handles that replace the old ones: a new one for every slot of the source whose pointer
  is not null, in order; \<open>stack\<close> is the memory of the array.\<close>

fun move_targets :: "edata list \<Rightarrow> nat \<Rightarrow> entity list \<Rightarrow> (nat \<Rightarrow> entity) \<Rightarrow> (nat \<Rightarrow> entity)" where
  "move_targets [] i new tgt = tgt"
| "move_targets (d # ds) i new tgt =
     (if ed_c d \<noteq> 0 then move_targets ds (i + 1) (tl new) (tgt(i := hd new)) else move_targets ds (i + 1) new tgt)"

partial_function (option) move_chunks :: "unit patch_funs \<Rightarrow> unit patcher \<Rightarrow> ptr \<Rightarrow> ptr \<Rightarrow> world \<Rightarrow> world option" where
  "move_chunks pf p dstG c w =
     (if c \<noteq> 0 then
        (let nx = c_next (chunks w c);
             w1 = add_chunk dstG c w
         in move_chunks pf p dstG nx (patch_chunk pf p (slice_of_chunk w1 c) w1))
      else Some w)"

fun move_archetypes :: "unit patch_funs \<Rightarrow> unit patcher \<Rightarrow> ptr list \<Rightarrow> world \<Rightarrow> world \<Rightarrow> (world \<times> world) option" where
  "move_archetypes pf p [] src w = Some (w, src)"
| "move_archetypes pf p (g # gs) src w = do {
     (dstG, w1) \<leftarrow> get_archetype (arch_type (archs w g)) w;
     w2 \<leftarrow> move_chunks pf p dstG (firstChunk (archs w1 g)) w1;
     src' \<leftarrow> update_queries g False (with_memory w2 src);
     move_archetypes pf p gs src' w2
   }"

definition move_context :: "unit patch_funs \<Rightarrow> (nat \<Rightarrow> entity) \<Rightarrow> world \<Rightarrow> world \<Rightarrow> (world \<times> world) option" where
  "move_context pf stack src w = do {
     let ds = datas (ents src);
     let (new, w1) = new_entity_array (length (filter (\<lambda>d. ed_c d \<noteq> 0) ds)) w;
     let p = move_patcher (move_targets ds 0 new stack) (length ds);
     (w2, src2) \<leftarrow> move_archetypes pf p (map snd (archetypes src)) (ents_clear src) w1;
     Some (w2, src2\<lparr>archetypes := []\<rparr>)
   }"

end
