(* ===== verification/Pipeline.thy ===== *)
theory Pipeline
  imports World_Life
begin

text \<open>
  The pipeline (\<open>Dots/Codebase.h\<close>, \<open>Dots/CodebaseImpl.hpp\<close>, \<open>Dots/Codebase.cpp\<close>): passes over the
  archetypes of a world and the dependencies between them.  Every component of every archetype
  has a dependency entry: the last pass that writes it and the passes that read it since; one
  more entry per archetype stands for its entities.  Entries of resources that are shared
  between passes (\<open>shared_resource\<close>) work the same way.

  A pass is its number.  A \<open>std::weak_ptr\<close> to it is expired when the pass is not in \<open>pl_alive\<close>.
  The set of dependencies is a list without repetitions; its order in memory is not specified.
  \<open>pl_synced\<close> records the calls of the virtual function \<open>sync_dependencies\<close>.
\<close>

section \<open>Bit sets\<close>

definition set_bit_at :: "nat \<Rightarrow> (nat \<Rightarrow> 32 word) \<Rightarrow> (nat \<Rightarrow> 32 word)" where
  "set_bit_at index s = s(index div 32 := s (index div 32) OR push_bit (index mod 32) 1)"

definition check_bit :: "(nat \<Rightarrow> 32 word) \<Rightarrow> nat \<Rightarrow> bool" where
  "check_bit s index \<longleftrightarrow> s (index div 32) AND push_bit (index mod 32) 1 \<noteq> 0"

section \<open>Dependency entries\<close>

record dependency_entry =
  owned :: "nat option"
  shared :: "nat list"

definition no_entry :: dependency_entry where
  "no_entry = \<lparr>owned = None, shared = []\<rparr>"

definition expired :: "nat set \<Rightarrow> nat option \<Rightarrow> bool" where
  "expired alive o' = (case o' of None \<Rightarrow> True | Some p \<Rightarrow> p \<notin> alive)"

definition add_owner :: "nat set \<Rightarrow> dependency_entry \<Rightarrow> nat list \<Rightarrow> nat list" where
  "add_owner alive e deps = (case owned e of None \<Rightarrow> deps | Some p \<Rightarrow> if p \<in> alive then List.insert p deps else deps)"

text \<open>Pass \<open>k\<close> reads or writes an entry.  \<open>checked\<close> tells whether readers that are gone are left
  out, as \<open>setup_pass_dependency\<close> does and \<open>setup_shared_dependency\<close> does not.\<close>

definition read_entry :: "nat set \<Rightarrow> nat \<Rightarrow> dependency_entry \<times> nat list \<Rightarrow> dependency_entry \<times> nat list" where
  "read_entry alive k = (\<lambda>(e, deps).
     (e\<lparr>shared := filter (\<lambda>p. p \<in> alive) (shared e) @ [k]\<rparr>, add_owner alive e deps))"

definition write_entry :: "bool \<Rightarrow> nat set \<Rightarrow> nat \<Rightarrow> dependency_entry \<times> nat list \<Rightarrow> dependency_entry \<times> nat list" where
  "write_entry checked alive k = (\<lambda>(e, deps).
     let deps1 = fold List.insert (if checked then filter (\<lambda>p. p \<in> alive) (shared e) else shared e) deps;
         deps2 = (if shared e = [] then add_owner alive e deps1 else deps1)
     in (\<lparr>owned = Some k, shared = []\<rparr>, deps2))"

definition touch_entry :: "bool \<Rightarrow> nat set \<Rightarrow> nat \<Rightarrow> bool \<Rightarrow> dependency_entry \<times> nat list \<Rightarrow> dependency_entry \<times> nat list" where
  "touch_entry checked alive k readonly = (if readonly then read_entry alive k else write_entry checked alive k)"

text \<open>\<open>setup_shared_dependency\<close>: the entries are references, here names of a store.\<close>

definition setup_shared_dependency :: "nat set \<Rightarrow> nat \<Rightarrow> (bool \<times> nat) list \<Rightarrow> (nat \<Rightarrow> dependency_entry) \<times> nat list \<Rightarrow>
    (nat \<Rightarrow> dependency_entry) \<times> nat list" where
  "setup_shared_dependency alive k es sd =
     fold (\<lambda>(readonly, r) (store, deps).
       let (e, deps') = touch_entry False alive k readonly (store r, deps) in (store(r := e), deps')) es sd"

section \<open>The pipeline\<close>

record pass =
  ps_index :: nat
  ps_archetypes :: "ptr list"
  ps_matched :: "mask list"
  ps_localType :: "nat list"
  ps_types :: "type_index list"
  ps_readonly :: "nat \<Rightarrow> 32 word"
  ps_randomAccess :: "nat \<Rightarrow> 32 word"
  ps_hasRandomWrite :: bool
  ps_chunkFilter :: chunk_filter
  ps_dependencies :: "nat list"

record pipeline =
  pl_world :: world
  pl_entries :: "(ptr \<times> (nat \<Rightarrow> dependency_entry)) list"
  pl_resources :: "nat \<Rightarrow> dependency_entry"
  pl_index :: nat
  pl_alive :: "nat set"
  pl_synced :: "nat list list"

definition update_archetype :: "ptr \<Rightarrow> bool \<Rightarrow> pipeline \<Rightarrow> pipeline" where
  "update_archetype at add pl =
     (if add then (if map_of (pl_entries pl) at = None then pl\<lparr>pl_entries := pl_entries pl @ [(at, \<lambda>_. no_entry)]\<rparr> else pl)
      else pl\<lparr>pl_entries := filter (\<lambda>(a, _). a \<noteq> at) (pl_entries pl)\<rparr>)"

definition pipeline_ctor :: "world \<Rightarrow> pipeline" where
  "pipeline_ctor ctx = \<lparr>pl_world = ctx, pl_entries = map (\<lambda>at. (at, \<lambda>_. no_entry)) (get_archetypes ctx),
     pl_resources = (\<lambda>_. no_entry), pl_index = 0, pl_alive = {}, pl_synced = []\<rparr>"

text \<open>What the callback \<open>on_archetype_update\<close> did to the entries while the world was changed by
  \<open>f\<close>: the events that \<open>f\<close> added to the log.\<close>

definition with_world :: "world \<Rightarrow> pipeline \<Rightarrow> pipeline" where
  "with_world w pl =
     fold (\<lambda>(at, add). update_archetype at add) (drop (length (arch_events (pl_world pl))) (arch_events w)) (pl\<lparr>pl_world := w\<rparr>)"

text \<open>Waiting for the passes of an entry: its readers, or its writer when it has none.\<close>

definition entry_passes :: "nat set \<Rightarrow> dependency_entry \<Rightarrow> nat list" where
  "entry_passes alive e =
     (if shared e = [] then (case owned e of None \<Rightarrow> [] | Some p \<Rightarrow> if p \<in> alive then [p] else []) else shared e)"

definition sync_range :: "ptr \<Rightarrow> nat list \<Rightarrow> pipeline \<Rightarrow> pipeline option" where
  "sync_range at is pl =
     (case map_of (pl_entries pl) at of
        None \<Rightarrow> None
      | Some entries \<Rightarrow>
          let deps = concat (map (\<lambda>i. entry_passes (pl_alive pl) (entries i)) is);
              entries' = (\<lambda>i. if i \<in> set is then no_entry else entries i)
          in Some (pl\<lparr>pl_entries := map (\<lambda>(a, es). if a = at then (a, entries') else (a, es)) (pl_entries pl),
                      pl_synced := pl_synced pl @ [deps]\<rparr>))"

definition sync_archetype :: "ptr \<Rightarrow> pipeline \<Rightarrow> pipeline option" where
  "sync_archetype at pl = sync_range at [0..<firstTag (archs (pl_world pl) at) + 1] pl"

definition sync_entry :: "ptr \<Rightarrow> type_index \<Rightarrow> pipeline \<Rightarrow> pipeline option" where
  "sync_entry at type pl = sync_range at [arch_index (archs (pl_world pl) at) type] pl"

definition sync_all_ro :: "pipeline \<Rightarrow> pipeline" where
  "sync_all_ro pl =
     (let ft = (\<lambda>at. firstTag (archs (pl_world pl) at));
          deps = concat (map (\<lambda>(at, es). concat (map (\<lambda>i. add_owner (pl_alive pl) (es i) []) [0..<ft at])) (pl_entries pl))
      in pl\<lparr>pl_entries := map (\<lambda>(at, es). (at, \<lambda>i. if i < ft at then (es i)\<lparr>owned := None\<rparr> else es i)) (pl_entries pl),
            pl_synced := pl_synced pl @ [deps]\<rparr>)"

section \<open>Dependencies of a pass\<close>

definition upd_entry :: "ptr \<Rightarrow> nat \<Rightarrow> (dependency_entry \<times> nat list \<Rightarrow> dependency_entry \<times> nat list) \<Rightarrow>
    pipeline \<times> nat list \<Rightarrow> pipeline \<times> nat list" where
  "upd_entry at i f = (\<lambda>(pl, deps).
     case map_of (pl_entries pl) at of
       None \<Rightarrow> (pl, deps)
     | Some es \<Rightarrow>
         let (e, deps') = f (es i, deps)
         in (pl\<lparr>pl_entries := map (\<lambda>(a, es'). if a = at then (a, es'(i := e)) else (a, es')) (pl_entries pl)\<rparr>, deps'))"

partial_function (option) owning_loop :: "world \<Rightarrow> ptr \<Rightarrow> type_index \<Rightarrow> nat \<Rightarrow> ptr option" where
  "owning_loop w sharing type i =
     (if i < metaCount (archs w sharing) then
        (let g = get_archetype_of w (metatypes (archs w sharing) ! i) in
         if g = 0 then None
         else Option.bind (if arch_index (archs w g) type \<noteq> InvalidIndex then Some g else owning_loop w g type 0)
                (\<lambda>r. if r \<noteq> 0 then Some r else owning_loop w sharing type (i + 1)))
      else Some 0)"

definition get_owning_archetype :: "world \<Rightarrow> ptr \<Rightarrow> type_index \<Rightarrow> ptr option" where
  "get_owning_archetype w sharing type =
     (if arch_index (archs w sharing) type \<noteq> InvalidIndex then Some sharing else owning_loop w sharing type 0)"

text \<open>The state of \<open>setup_pass_dependency\<close>: the pipeline, the dependencies found and the entries
  already visited.\<close>

type_synonym setup_state = "pipeline \<times> nat list \<times> (ptr \<times> nat) list"

definition setup_entry :: "nat \<Rightarrow> ptr \<Rightarrow> nat \<Rightarrow> bool \<Rightarrow> setup_state \<Rightarrow> setup_state" where
  "setup_entry k at localType readonly = (\<lambda>(pl, deps, synced).
     if (at, localType) \<in> set synced then (pl, deps, synced)
     else
       let synced' = (at, localType) # synced in
       if map_of (pl_entries pl) at = None then (pl, deps, synced')
       else if localType \<ge> firstTag (archs (pl_world pl) at) \<or> localType = InvalidIndex then (pl, deps, synced')
       else let (pl', deps') = upd_entry at localType (touch_entry True (pl_alive pl) k readonly) (pl, deps)
            in (pl', deps', synced'))"

text \<open>\<open>sync_type\<close> stops at the first archetype that does not have the type.\<close>

fun setup_type :: "nat \<Rightarrow> type_index \<Rightarrow> bool \<Rightarrow> ptr list \<Rightarrow> pipeline \<times> nat list \<Rightarrow> pipeline \<times> nat list" where
  "setup_type k type readonly [] pd = pd"
| "setup_type k type readonly (at # ats) pd =
     (let localType = arch_index (archs (pl_world (fst pd)) at) type in
      if localType \<ge> firstTag (archs (pl_world (fst pd)) at) \<or> localType = InvalidIndex then pd
      else setup_type k type readonly ats
             (upd_entry at localType (touch_entry True (pl_alive (fst pd)) k readonly) pd))"

definition setup_entities :: "nat \<Rightarrow> ptr \<Rightarrow> pipeline \<Rightarrow> pipeline" where
  "setup_entities k at pl =
     fst (upd_entry at (firstTag (archs (pl_world pl) at))
       (\<lambda>(e, deps). (e\<lparr>shared := filter (\<lambda>p. p \<in> pl_alive pl) (shared e) @ [k]\<rparr>, deps)) (pl, []))"

definition setup_param :: "pass \<Rightarrow> nat \<Rightarrow> nat \<Rightarrow> setup_state \<Rightarrow> setup_state option" where
  "setup_param k i j st =
     (let (pl, deps, synced) = st; at = ps_archetypes k ! i; type = ps_types k ! j in
      if check_bit (ps_randomAccess k) j then
        let (pl', deps') = setup_type (ps_index k) type (check_bit (ps_readonly k) j) (map fst (pl_entries pl)) (pl, deps)
        in Some (pl', deps', synced)
      else
        let localType = ps_localType k ! (i * length (ps_types k) + j) in
        if localType = InvalidIndex then do {
          oat \<leftarrow> get_owning_archetype (pl_world pl) at type;
          if oat = 0 then Some st
          else Some (setup_entry (ps_index k) oat (arch_index (archs (pl_world pl) oat) type) True st)
        }
        else Some (setup_entry (ps_index k) at localType (check_bit (ps_readonly k) j) st))"

definition setup_archetype :: "pass \<Rightarrow> nat \<Rightarrow> setup_state \<Rightarrow> setup_state option" where
  "setup_archetype k i st =
     (let at = ps_archetypes k ! i in do {
        (pl1, deps1, synced1) \<leftarrow> for_up_opt (setup_param k i) 0 (length (ps_types k)) st;
        let pl2 = setup_entities (ps_index k) at pl1;
        Some (fold (\<lambda>t st. setup_entry (ps_index k) at (arch_index (archs (pl_world pl2) at) t) True st)
                (changed (ps_chunkFilter k)) (pl2, deps1, synced1))
      })"

definition setup_pass_dependency :: "(bool \<times> nat) list \<Rightarrow> pass \<Rightarrow> pipeline \<Rightarrow> (pass \<times> pipeline) option" where
  "setup_pass_dependency es k pl =
     (let (store, deps) = setup_shared_dependency (pl_alive pl) (ps_index k) es (pl_resources pl, []) in do {
        (pl', deps', _) \<leftarrow> for_up_opt (setup_archetype k) 0 (length (ps_archetypes k)) (pl\<lparr>pl_resources := store\<rparr>, deps, []);
        Some (k\<lparr>ps_dependencies := deps'\<rparr>, pl')
      })"

text \<open>\<open>create_custom_pass\<close>: the new pass is alive while its dependencies are set up.\<close>

definition create_custom_pass :: "(bool \<times> nat) list \<Rightarrow> pipeline \<Rightarrow> nat list \<times> nat \<times> pipeline" where
  "create_custom_pass es pl =
     (let k = pl_index pl; pl1 = pl\<lparr>pl_index := k + 1, pl_alive := insert k (pl_alive pl)\<rparr>;
          (store, deps) = setup_shared_dependency (pl_alive pl1) k es (pl_resources pl1, [])
      in (deps, k, pl1\<lparr>pl_resources := store\<rparr>))"

record param =
  pm_type :: type_index
  pm_readonly :: bool
  pm_randomAccess :: bool

fun apply_all :: "world \<Rightarrow> entity_filter \<Rightarrow> matched_archetype list \<Rightarrow> matched_archetype list option" where
  "apply_all w ef [] = Some []"
| "apply_all w ef (m # ms) = do { m' \<leftarrow> ef_apply w ef m; ms' \<leftarrow> apply_all w ef ms; Some (m' # ms') }"

definition create_pass :: "archetype_filter \<Rightarrow> chunk_filter \<Rightarrow> entity_filter \<Rightarrow> param list \<Rightarrow> (bool \<times> nat) list \<Rightarrow> pipeline \<Rightarrow>
    (pass \<times> pipeline) option" where
  "create_pass af cf ef params es pl = do {
     (found, w) \<leftarrow> query_archetypes af (pl_world pl);
     let pl0 = with_world w pl;
     let k = pl_index pl0;
     let bits = (\<lambda>P. for_up (\<lambda>t s. if P (params ! t) then set_bit_at t s else s) 0 (length params) (\<lambda>_. 0));
     masks \<leftarrow> apply_all w ef found;
     let p = \<lparr>ps_index = k, ps_archetypes = map m_type found, ps_matched = map matched masks,
              ps_localType = concat (map (\<lambda>m. map (\<lambda>q. arch_index (archs w (m_type m)) (pm_type q)) params) found),
              ps_types = map pm_type params, ps_readonly = bits pm_readonly, ps_randomAccess = bits pm_randomAccess,
              ps_hasRandomWrite = list_ex (\<lambda>q. pm_randomAccess q \<and> \<not> pm_readonly q) params,
              ps_chunkFilter = cf, ps_dependencies = []\<rparr>;
     setup_pass_dependency es p (pl0\<lparr>pl_index := k + 1, pl_alive := insert k (pl_alive pl0)\<rparr>)
   }"

section \<open>Tasks\<close>

record task =
  tk_gid :: nat
  tk_index :: nat
  tk_slice :: chunk_slice

record task_state =
  ts_index :: nat
  ts_batch :: nat
  ts_tasks :: "task list"
  ts_groups :: "(nat \<times> nat) list"
  ts_group :: "nat \<times> nat"

text \<open>The loop that cuts a chunk of \<open>n\<close> rows into tasks; a batch size of 0 makes no progress.\<close>

partial_function (option) cut_chunk :: "nat \<Rightarrow> nat \<Rightarrow> ptr \<Rightarrow> nat \<Rightarrow> nat \<Rightarrow> task_state \<Rightarrow> task_state option" where
  "cut_chunk batchCount gid c n allocated st =
     (if allocated \<noteq> n then
        (let sliceCount = min (n - allocated) (ts_batch st);
             t = \<lparr>tk_gid = gid, tk_index = ts_index st, tk_slice = \<lparr>sl_c = c, sl_start = allocated, sl_count = sliceCount\<rparr>\<rparr>;
             st1 = st\<lparr>ts_index := ts_index st + sliceCount, ts_batch := ts_batch st - sliceCount, ts_tasks := ts_tasks st @ [t]\<rparr>;
             size' = length (ts_tasks st1);
             st2 = (if ts_batch st1 = 0
                    then st1\<lparr>ts_groups := ts_groups st1 @ [(fst (ts_group st1), size')], ts_group := (size', size'), ts_batch := batchCount\<rparr>
                    else st1)
         in cut_chunk batchCount gid c n (allocated + sliceCount) st2)
      else Some st)"

fun cut_chunks :: "world \<Rightarrow> nat \<Rightarrow> nat \<Rightarrow> ptr list \<Rightarrow> task_state \<Rightarrow> task_state option" where
  "cut_chunks w batchCount gid [] st = Some st"
| "cut_chunks w batchCount gid (c # cs) st =
     Option.bind (cut_chunk batchCount gid c (c_count (chunks w c)) 0 st) (cut_chunks w batchCount gid cs)"

fun cut_archetypes :: "world \<Rightarrow> chunk_filter \<Rightarrow> nat \<Rightarrow> nat \<Rightarrow> ptr list \<Rightarrow> task_state \<Rightarrow> task_state option" where
  "cut_archetypes w f batchCount gid [] st = Some st"
| "cut_archetypes w f batchCount gid (at # ats) st = do {
     cs \<leftarrow> query_chunks w at f;
     st1 \<leftarrow> cut_chunks w batchCount gid cs st;
     cut_archetypes w f batchCount (gid + 1) ats st1
   }"

definition create_tasks :: "world \<Rightarrow> pass \<Rightarrow> nat \<Rightarrow> (task list \<times> (nat \<times> nat) list) option" where
  "create_tasks w k batchCount =
     map_option (\<lambda>st. (ts_tasks st,
         if snd (ts_group st) \<noteq> length (ts_tasks st) then ts_groups st @ [(fst (ts_group st), length (ts_tasks st))] else ts_groups st))
       (cut_archetypes w (ps_chunkFilter k) batchCount 0 (ps_archetypes k)
         \<lparr>ts_index = 0, ts_batch = batchCount, ts_tasks = [], ts_groups = [], ts_group = (0, 0)\<rparr>)"

fun sync_archetypes :: "ptr list \<Rightarrow> pipeline \<Rightarrow> pipeline option" where
  "sync_archetypes [] pl = Some pl"
| "sync_archetypes (at # ats) pl = Option.bind (sync_archetype at pl) (sync_archetypes ats)"

fun count_rows :: "world \<Rightarrow> chunk_filter \<Rightarrow> ptr list \<Rightarrow> nat \<Rightarrow> nat option" where
  "count_rows w f [] n = Some n"
| "count_rows w f (at # ats) n = do {
     cs \<leftarrow> query_chunks w at f;
     count_rows w f ats (fold (\<lambda>c n. u32 (n + c_count (chunks w c))) cs n)
   }"

definition calc_size :: "pass \<Rightarrow> pipeline \<Rightarrow> (nat \<times> pipeline) option" where
  "calc_size k pl = do {
     pl1 \<leftarrow> (if changed (ps_chunkFilter k) \<noteq> [] then sync_archetypes (ps_archetypes k) pl else Some pl);
     n \<leftarrow> count_rows (pl_world pl1) (ps_chunkFilter k) (ps_archetypes k) 0;
     Some (n, pl1)
   }"

section \<open>World operations of the pipeline\<close>

text \<open>Each operation waits for the passes of the archetypes it touches, then calls the world's.\<close>

definition run_world :: "(world \<Rightarrow> ('a \<times> world) option) \<Rightarrow> pipeline \<Rightarrow> ('a \<times> pipeline) option" where
  "run_world f pl = map_option (\<lambda>(r, w). (r, with_world w pl)) (f (pl_world pl))"

definition pl_allocate :: "ptr \<Rightarrow> nat \<Rightarrow> pipeline \<Rightarrow> (chunk_slice list \<times> pipeline) option" where
  "pl_allocate g n pl = Option.bind (sync_archetype g pl) (run_world (allocate g n))"

definition pl_allocate_type :: "entity_type \<Rightarrow> nat \<Rightarrow> pipeline \<Rightarrow> (chunk_slice list \<times> pipeline) option" where
  "pl_allocate_type type n pl = Option.bind (run_world (get_archetype type) pl) (\<lambda>(g, pl1). pl_allocate g n pl1)"

definition pl_destroy :: "nat \<Rightarrow> chunk_slice \<Rightarrow> pipeline \<Rightarrow> pipeline option" where
  "pl_destroy fuel s pl = do {
     pl1 \<leftarrow> sync_archetype (c_type (chunks (pl_world pl) (sl_c s))) pl;
     map_option snd (run_world (\<lambda>w. map_option (\<lambda>w'. ((), w')) (destroy_slice fuel s w)) pl1)
   }"

definition pl_cast :: "chunk_slice \<Rightarrow> ptr \<Rightarrow> pipeline \<Rightarrow> (chunk_slice list \<times> pipeline) option" where
  "pl_cast s g pl = do {
     pl1 \<leftarrow> sync_archetype (c_type (chunks (pl_world pl) (sl_c s))) pl;
     pl2 \<leftarrow> sync_archetype g pl1;
     run_world (cast_to s g) pl2
   }"

definition pl_cast_diff :: "chunk_slice \<Rightarrow> type_diff \<Rightarrow> pipeline \<Rightarrow> (chunk_slice list \<times> pipeline) option" where
  "pl_cast_diff s diff pl =
     Option.bind (run_world (get_casted (c_type (chunks (pl_world pl) (sl_c s))) diff False) pl) (\<lambda>(g, pl1). pl_cast s g pl1)"

definition pl_cast_type :: "chunk_slice \<Rightarrow> entity_type \<Rightarrow> pipeline \<Rightarrow> (chunk_slice list \<times> pipeline) option" where
  "pl_cast_type s type pl = Option.bind (run_world (get_archetype type) pl) (\<lambda>(g, pl1). pl_cast s g pl1)"

definition pl_query :: "ptr \<Rightarrow> chunk_filter \<Rightarrow> pipeline \<Rightarrow> (ptr list \<times> pipeline) option" where
  "pl_query g f pl = do {
     pl1 \<leftarrow> (if changed f \<noteq> [] then sync_archetype g pl else Some pl);
     cs \<leftarrow> query_chunks (pl_world pl1) g f;
     Some (cs, pl1)
   }"

definition pl_owned_ro :: "entity \<Rightarrow> type_index \<Rightarrow> pipeline \<Rightarrow> (place option \<times> pipeline) option" where
  "pl_owned_ro e t pl =
     (let w = pl_world pl in
      case get_owned_ro w e t of
        None \<Rightarrow> Some (None, pl)
      | Some p \<Rightarrow> map_option (\<lambda>pl1. (Some p, pl1)) (sync_entry (arch_of_entity w e) t pl))"

definition pl_owned_rw :: "entity \<Rightarrow> type_index \<Rightarrow> pipeline \<Rightarrow> (place option \<times> pipeline) option" where
  "pl_owned_rw e t pl =
     (let w = pl_world pl; (p, w') = get_owned_rw e t w in
      if p = None then Some (None, pl)
      else map_option (\<lambda>pl1. (p, pl1\<lparr>pl_world := w'\<rparr>)) (sync_entry (arch_of_entity w e) t pl))"

definition pl_update_mask :: "(entity \<Rightarrow> type_index list \<Rightarrow> world \<Rightarrow> world option) \<Rightarrow> entity \<Rightarrow> type_index list \<Rightarrow> pipeline \<Rightarrow>
    pipeline option" where
  "pl_update_mask f e T pl =
     (let w = pl_world pl; g = arch_of_entity w e in
      if \<not> entity_exist w e \<or> \<not> withMask (archs w g) then Some pl
      else do {
        w' \<leftarrow> f e T w;
        pl1 \<leftarrow> sync_entry g (mask_id (w_ctx w)) pl;
        Some (pl1\<lparr>pl_world := w'\<rparr>)
      })"

end
