(* ===== verification/Serialize.thy ===== *)
theory Serialize
  imports World_Life
begin

text \<open>
  Serialization (\<open>Dots/Database.cpp\<close>): slices, archetypes, single entities, groups and whole
  worlds.  A \<open>serializer_i\<close> that writes appends to a list of bytes, one that reads takes bytes
  from the front of a list, as those of \<open>DotsTest/test.cpp\<close> do; reading past the end is
  \<open>None\<close>.  Integers are little-endian.
\<close>

section \<open>Bytes\<close>

definition put_int :: "nat \<Rightarrow> nat \<Rightarrow> byte list" where
  "put_int n v = map (\<lambda>i. of_nat (v div 256 ^ i)) [0..<n]"

fun bytes_nat :: "byte list \<Rightarrow> nat" where
  "bytes_nat [] = 0"
| "bytes_nat (b # bs) = unat b + 256 * bytes_nat bs"

definition get_bytes :: "nat \<Rightarrow> byte list \<Rightarrow> (byte list \<times> byte list) option" where
  "get_bytes n bs = (if n \<le> length bs then Some (take n bs, drop n bs) else None)"

definition get_int :: "nat \<Rightarrow> byte list \<Rightarrow> (nat \<times> byte list) option" where
  "get_int n bs = map_option (\<lambda>(xs, rest). (bytes_nat xs, rest)) (get_bytes n bs)"

primrec get_list :: "(byte list \<Rightarrow> ('a \<times> byte list) option) \<Rightarrow> nat \<Rightarrow> byte list \<Rightarrow> ('a list \<times> byte list) option" where
  "get_list f 0 bs = Some ([], bs)"
| "get_list f (Suc n) bs = do {
     (x, bs1) \<leftarrow> f bs;
     (xs, bs2) \<leftarrow> get_list f n bs1;
     Some (x # xs, bs2)
   }"

text \<open>Bytes between a memory and the stream.\<close>

definition mem_bytes :: "bmem \<Rightarrow> nat \<Rightarrow> nat \<Rightarrow> byte list" where
  "mem_bytes m a n = map (\<lambda>i. m (a + i)) [0..<n]"

definition put_mem :: "nat \<Rightarrow> byte list \<Rightarrow> bmem \<Rightarrow> bmem" where
  "put_mem a bs m = (\<lambda>x. if a \<le> x \<and> x < a + length bs then bs ! (x - a) else m x)"

section \<open>Rows\<close>

definition write_buffers :: "world \<Rightarrow> chunk_slice \<Rightarrow> nat \<Rightarrow> byte list" where
  "write_buffers w s i =
     (let c = sl_c s; m = bytes_of w c in
      concat (map (\<lambda>j. let b = cell_addr w c i (sl_start s + j)
                       in map (buf_data m (bheap w) b) [0..<buf_size m b]) [0..<sl_count s]))"

definition chunk_write :: "world \<Rightarrow> chunk_slice \<Rightarrow> bool \<Rightarrow> byte list" where
  "chunk_write w s withEntities =
     (let c = sl_c s; g = chunk_arch w c; m = bytes_of w c in
      (if withEntities then concat (map (\<lambda>j. put_int 4 (c_ents (chunks w c) (sl_start s + j))) [0..<sl_count s]) else [])
      @ concat (map (\<lambda>i. mem_bytes m (cell_addr w c i (sl_start s)) (sizes g ! i * sl_count s)) [0..<firstTag g])
      @ concat (map (write_buffers w s) [firstBuffer g..<firstManaged g]))"

text \<open>Reading: a buffer whose bytes say that it has a block gets a new block of its own.\<close>

definition read_column :: "chunk_slice \<Rightarrow> nat \<Rightarrow> byte list \<times> world \<Rightarrow> (byte list \<times> world) option" where
  "read_column s i bw =
     (let (bs, w) = bw; c = sl_c s; g = chunk_arch w c in do {
        (xs, rest) \<leftarrow> get_bytes (sizes g ! i * sl_count s) bs;
        Some (rest, on_mem c (put_mem (cell_addr w c i (sl_start s)) xs) w)
      })"

definition read_buffer :: "ptr \<Rightarrow> nat \<Rightarrow> byte list \<times> world \<Rightarrow> (byte list \<times> world) option" where
  "read_buffer c b bw =
     (let (bs, w) = bw;
          w1 = (if buf_d (bytes_of w c) b \<noteq> 0
                then on_bytes c (\<lambda>(m, h). let (p, h1) = buffer_malloc h in (set_buf_d b p m, h1)) w else w) in do {
        (xs, rest) \<leftarrow> get_bytes (buf_size (bytes_of w1 c) b) bs;
        Some (rest, on_bytes c (buf_write b 0 (\<lambda>k. xs ! k) (length xs)) w1)
      })"

definition read_buffers :: "chunk_slice \<Rightarrow> nat \<Rightarrow> byte list \<times> world \<Rightarrow> (byte list \<times> world) option" where
  "read_buffers s i bw =
     for_up_opt (\<lambda>j bw. read_buffer (sl_c s) (cell_addr (snd bw) (sl_c s) i (sl_start s + j)) bw) 0 (sl_count s) bw"

definition read_entities :: "chunk_slice \<Rightarrow> byte list \<times> world \<Rightarrow> (byte list \<times> world) option" where
  "read_entities s bw =
     (let (bs, w) = bw in do {
        (es, rest) \<leftarrow> get_list (get_int 4) (sl_count s) bs;
        Some (rest, copy_rows (sl_c s) (sl_start s) ((!) es) 0 (sl_count s) w)
      })"

definition chunk_read :: "chunk_slice \<Rightarrow> bool \<Rightarrow> byte list \<times> world \<Rightarrow> (byte list \<times> world) option" where
  "chunk_read s withEntities bw =
     (let g = chunk_arch (snd bw) (sl_c s) in do {
        bw1 \<leftarrow> (if withEntities then read_entities s bw else Some bw);
        bw2 \<leftarrow> for_up_opt (read_column s) 0 (firstTag g) bw1;
        for_up_opt (read_buffers s) (firstBuffer g) (firstManaged g) bw2
      })"

definition write_slice :: "world \<Rightarrow> chunk_slice \<Rightarrow> byte list" where
  "write_slice w s = put_int 4 (sl_count s) @ chunk_write w s True"

section \<open>Archetypes\<close>

definition put_guid :: "GUID \<Rightarrow> byte list" where
  "put_guid g = map of_nat (guid_bytes g)"

definition guid_of_bytes :: "byte list \<Rightarrow> GUID" where
  "guid_of_bytes bs = \<lparr>Data1 = bytes_nat (take 4 bs), Data2 = bytes_nat (take 2 (drop 4 bs)),
     Data3 = bytes_nat (take 2 (drop 6 bs)), Data4 = map unat (take 8 (drop 8 bs))\<rparr>"

definition get_guid :: "byte list \<Rightarrow> (GUID \<times> byte list) option" where
  "get_guid bs = map_option (\<lambda>(xs, rest). (guid_of_bytes xs, rest)) (get_bytes 16 bs)"

definition write_archetype :: "world \<Rightarrow> ptr \<Rightarrow> byte list" where
  "write_archetype w g =
     (let a = archs w g; t = arch_type a in
      put_int 4 (g_size a) @ put_int 2 (length (et_types t))
      @ concat (map (\<lambda>t. put_guid (r_GUID (infos (w_ctx w) ! ti_index t))) (et_types t))
      @ put_int 2 (length (et_metas t)) @ concat (map (put_int 4) (et_metas t)))"

text \<open>\<open>hash2type[uu]\<close>: an unknown GUID is inserted with type 0.\<close>

definition lookup_type :: "GUID \<Rightarrow> dots_context \<Rightarrow> type_index \<times> dots_context" where
  "lookup_type uu ctx =
     (case hash2type ctx uu of Some t \<Rightarrow> (t, ctx) | None \<Rightarrow> (0, ctx\<lparr>hash2type := (hash2type ctx)(uu \<mapsto> 0)\<rparr>))"

definition lookup_types :: "GUID list \<Rightarrow> dots_context \<Rightarrow> type_index list \<times> dots_context" where
  "lookup_types us ctx = fold (\<lambda>u (ts, c). let (t, c') = lookup_type u c in (ts @ [t], c')) us ([], ctx)"

text \<open>Dead meta entities are replaced by the last one.\<close>

function drop_invalid :: "(entity \<Rightarrow> bool) \<Rightarrow> nat \<Rightarrow> entity list \<Rightarrow> entity list" where
  "drop_invalid ex i mt =
     (if i < length mt then
        (if \<not> ex (mt ! i) then drop_invalid ex i (butlast (mt[i := last mt]))
         else drop_invalid ex (i + 1) mt)
      else mt)"
  by auto
termination
  by (relation "measure (\<lambda>(ex, i, mt). length mt - i)") auto

declare drop_invalid.simps [simp del]

definition read_archetype :: "'s patcher option \<Rightarrow> bool \<Rightarrow> byte list \<times> world \<times> 's \<Rightarrow> (ptr \<times> byte list \<times> world \<times> 's) option" where
  "read_archetype patcher createNew = (\<lambda>(bs, w, st). do {
     (sz, bs1) \<leftarrow> get_int 4 bs;
     if sz = 0 then Some (0, bs1, w, st)
     else do {
       (tlength, bs2) \<leftarrow> get_int 2 bs1;
       (guids, bs3) \<leftarrow> get_list get_guid tlength bs2;
       let (types, ctx) = lookup_types guids (w_ctx w);
       let w1 = w\<lparr>w_ctx := ctx\<rparr>;
       (mlength, bs4) \<leftarrow> get_int 2 bs3;
       (metas, bs5) \<leftarrow> get_list (get_int 4) mlength bs4;
       let (metas1, st1) = (case patcher of None \<Rightarrow> (metas, st)
                            | Some p \<Rightarrow> fold (\<lambda>m (ms, s). let (m', s') = p_patch p m s in (ms @ [m'], s')) metas ([], st));
       let metas2 = (if \<not> createNew then drop_invalid (entity_exist w1) 0 metas1 else metas1);
       let key = \<lparr>et_types = sort types, et_metas = sort metas2\<rparr>;
       (g, w2) \<leftarrow> (if createNew then Some (construct_archetype key w1) else get_archetype key w1);
       Some (g, bs5, upd_arch g (\<lambda>a. a\<lparr>g_size := u32 (g_size a + sz)\<rparr>) w2, st1)
     }
   })"

section \<open>Slices\<close>

text \<open>The first chunk of the free part with room for \<open>n\<close> rows.\<close>

partial_function (option) find_room :: "world \<Rightarrow> ptr \<Rightarrow> nat \<Rightarrow> ptr \<Rightarrow> ptr option" where
  "find_room w g n c =
     (if c \<noteq> 0 \<and> u32 (c_count (chunks w c) + n) > chunk_capacity w g c then find_room w g n (c_next (chunks w c))
      else Some c)"

definition read_slice :: "ptr \<Rightarrow> byte list \<times> world \<Rightarrow> (chunk_slice option \<times> byte list \<times> world) option" where
  "read_slice g bw = (let (bs, w) = bw in do {
     (n, bs1) \<leftarrow> get_int 4 bs;
     if n = 0 then Some (None, bs1, w)
     else do {
       c0 \<leftarrow> find_room w g n (firstFree (archs w g));
       let (c, w1) = (if c0 = 0 then
              let sz = u32 (n * entitySize (archs w g));
                  ct = (if chunkCount (archs w g) < kSmallBinThreshold \<and> sz < kSmallBinSize then smallbin
                        else if sz > kFastBinSize then largebin else fastbin);
                  (c, w1) = malloc_chunk ct w
              in (c, add_chunk g c w1)
            else (c0, w));
       let start = c_count (chunks w1 c);
       w2 \<leftarrow> resize_chunk c (u32 (start + n)) w1;
       let slice = \<lparr>sl_c = c, sl_start = start, sl_count = n\<rparr>;
       (bs2, w3) \<leftarrow> chunk_read slice True (bs1, w2);
       Some (Some slice, bs2, w3)
     }
   })"

section \<open>Single entities and groups\<close>

definition write_single :: "world \<Rightarrow> entity \<Rightarrow> byte list" where
  "write_single w src =
     (let data = data_of w (e_id src) in
      write_archetype w (c_type (chunks w (ed_c data)))
      @ write_slice w \<lparr>sl_c = ed_c data, sl_start = ed_i data, sl_count = 1\<rparr>)"

definition write_group :: "unit patch_funs \<Rightarrow> (nat \<Rightarrow> entity) \<Rightarrow> place \<Rightarrow> world \<Rightarrow> (byte list \<times> world) option" where
  "write_group pf stack g w = do {
     members \<leftarrow> flatten_group_impl w g;
     let w1 = group_to_prefab pf members False w;
     Some (concat (map (write_single w1) members),
           prefab_to_group pf (\<lambda>i. if i < length members then members ! i else stack i) (length members) w1)
   }"

definition write_entity :: "unit patch_funs \<Rightarrow> (nat \<Rightarrow> entity) \<Rightarrow> entity \<Rightarrow> world \<Rightarrow> (byte list \<times> world) option" where
  "write_entity pf stack src w = do {
     gd \<leftarrow> entity_group w src;
     case gd of None \<Rightarrow> Some (write_single w src, w) | Some g \<Rightarrow> write_group pf stack g w
   }"

text \<open>A slice that is not there (\<open>deserialize_slice\<close> returned false) is an uninitialised one.\<close>

definition read_single :: "'s patch_funs \<Rightarrow> 's patcher option \<Rightarrow> byte list \<times> world \<times> 's \<Rightarrow>
    (chunk_slice \<times> byte list \<times> world \<times> 's) option" where
  "read_single pf patcher bws = do {
     (g, bs, w, st) \<leftarrow> read_archetype patcher False bws;
     if g = 0 then None
     else do {
       (so, bs1, w1) \<leftarrow> read_slice g (bs, w);
       slice \<leftarrow> so;
       let w2 = new_entities slice w1;
       let (w3, st1) = (case patcher of None \<Rightarrow> (w2, st) | Some p \<Rightarrow> chunk_patch pf p slice (w2, st));
       Some (slice, bs1, w3, st1)
     }
   }"

partial_function (option) read_members :: "'s patch_funs \<Rightarrow> 's patcher option \<Rightarrow> nat \<Rightarrow> nat \<Rightarrow>
    byte list \<times> world \<times> 's \<Rightarrow> entity list \<Rightarrow> ((byte list \<times> world \<times> 's) \<times> entity list) option" where
  "read_members pf patcher i n bws result =
     (if i < n then
        Option.bind (read_single pf patcher bws) (\<lambda>(slice, bs1, w1, st1).
        Option.bind (slice_component_ro w1 slice (group_id (w_ctx w1))) (\<lambda>gd.
        Option.bind (case gd of
              None \<Rightarrow> Some ((bs1, w1, st1), result @ [first_entity w1 slice])
            | Some p \<Rightarrow> read_members pf patcher 1 (group_count w1 p) (bs1, w1, st1)
                           (result @ [first_entity w1 slice]))
          (\<lambda>(bws', result'). read_members pf patcher (i + 1) n bws' result')))
      else Some (bws, result))"

definition read_prefab :: "'s patch_funs \<Rightarrow> 's patcher option \<Rightarrow> place \<Rightarrow> byte list \<times> world \<times> 's \<Rightarrow> entity list \<Rightarrow>
    ((byte list \<times> world \<times> 's) \<times> entity list) option" where
  "read_prefab pf patcher g bws result =
     read_members pf patcher 1 (group_count (fst (snd bws)) g) bws result"

definition read_entity :: "'s patch_funs \<Rightarrow> unit patch_funs \<Rightarrow> 's patcher option \<Rightarrow> (nat \<Rightarrow> entity) \<Rightarrow> byte list \<times> world \<times> 's \<Rightarrow>
    (entity \<times> byte list \<times> world \<times> 's) option" where
  "read_entity pf pfu patcher stack bws = do {
     (root, bs, w, st) \<leftarrow> read_single pf patcher bws;
     gd \<leftarrow> slice_component_ro w root (group_id (w_ctx w));
     let result = first_entity w root;
     case gd of
       None \<Rightarrow> Some (result, bs, w, st)
     | Some g \<Rightarrow> do {
         ((bs1, w1, st1), prefab) \<leftarrow> read_prefab pf patcher g (bs, w, st) [result];
         Some (result, bs1, prefab_to_group pfu (\<lambda>i. if i < length prefab then prefab ! i else stack i) (length prefab) w1, st1)
       }
   }"

section \<open>Worlds\<close>

partial_function (option) write_chunks :: "world \<Rightarrow> ptr \<Rightarrow> byte list \<Rightarrow> byte list option" where
  "write_chunks w c out =
     (if c \<noteq> 0 then write_chunks w (c_next (chunks w c)) (out @ write_slice w (slice_of_chunk w c)) else Some out)"

fun write_archetype_chunks :: "world \<Rightarrow> ptr list \<Rightarrow> byte list option" where
  "write_archetype_chunks w [] = Some []"
| "write_archetype_chunks w (g # gs) = do {
     out \<leftarrow> write_chunks w (firstChunk (archs w g)) [];
     rest \<leftarrow> write_archetype_chunks w gs;
     Some (out @ put_int 4 0 @ rest)
   }"

definition write_world :: "world \<Rightarrow> byte list option" where
  "write_world w =
     (let ats = filter (\<lambda>g. \<not> cleaning (archs w g)) (map snd (archetypes w)) in
      map_option (\<lambda>out. put_int 8 (length (datas (ents w))) @ concat (map (write_archetype w) ats) @ put_int 4 0 @ out)
        (write_archetype_chunks w ats))"

text \<open>Reading a world.  The table entries are written at their ids, the free list is rebuilt in
  ascending order of the slots.\<close>

definition place_read :: "chunk_slice \<Rightarrow> world \<Rightarrow> world" where
  "place_read sl = (\<lambda>w. for_up (\<lambda>i w.
     let index = i + sl_start sl; e = c_ents (chunks w (sl_c sl)) index
     in set_data (e_id e) (\<lambda>d. (set_ed_i index (set_ed_c (sl_c sl) d))\<lparr>ed_v := e_version e\<rparr>) w) 0 (sl_count sl) w)"

partial_function (option) read_slices :: "ptr \<Rightarrow> byte list \<times> world \<Rightarrow> (byte list \<times> world) option" where
  "read_slices g bw =
     Option.bind (read_slice g bw) (\<lambda>(so, bs1, w1).
       case so of None \<Rightarrow> Some (bs1, w1) | Some s \<Rightarrow> read_slices g (bs1, place_read s w1))"

fun read_all_slices :: "ptr list \<Rightarrow> byte list \<times> world \<Rightarrow> (byte list \<times> world) option" where
  "read_all_slices [] bw = Some bw"
| "read_all_slices (g # gs) bw = Option.bind (read_slices g bw) (read_all_slices gs)"

partial_function (option) read_archetypes :: "ptr list \<Rightarrow> byte list \<times> world \<Rightarrow> (ptr list \<times> byte list \<times> world) option" where
  "read_archetypes ats bw =
     Option.bind (read_archetype (None :: unit patcher option) True (fst bw, snd bw, ())) (\<lambda>(g, bs1, w1, _).
       if g = 0 then Some (ats, bs1, w1) else read_archetypes (ats @ [g]) (bs1, w1))"

definition relink_free :: "world \<Rightarrow> world" where
  "relink_free w = for_up (\<lambda>i w. if ed_c (data_of w i) = 0
      then set_free (u32 i) (set_data i (set_ed_nextFree (free_head (ents w))) w) else w) 0 (length (datas (ents w))) w"

fun add_archetypes :: "ptr list \<Rightarrow> world \<Rightarrow> world option" where
  "add_archetypes [] w = Some w"
| "add_archetypes (g # gs) w = Option.bind (add_archetype g w) (add_archetypes gs)"

definition read_world :: "byte list \<times> world \<Rightarrow> (byte list \<times> world) option" where
  "read_world bw = do {
     w0 \<leftarrow> clear (snd bw);
     (sz, bs1) \<leftarrow> get_int 8 (fst bw);
     let w1 = upd_ents (\<lambda>es. es\<lparr>datas := replicate sz \<lparr>ed_u = 0, ed_i = 0, ed_v = 0\<rparr>\<rparr>) w0;
     (ats, bs2, w2) \<leftarrow> read_archetypes [] (bs1, w1);
     (bs3, w3) \<leftarrow> read_all_slices ats (bs2, w2);
     w4 \<leftarrow> add_archetypes ats (relink_free w3);
     Some (bs3, w4)
   }"

end
