(* ===== verification/Pipeline_Ops.thy ===== *)
theory Pipeline_Ops
  imports Pipeline Serialize
begin

text \<open>
  The access, instantiation and serialization functions of the pipeline
  (\<open>Dots/Codebase.cpp\<close>), which wait for the passes that use what they touch before they call
  the world's, and the parameters an \<open>operation\<close> hands to the body of a pass
  (\<open>Dots/CodebaseImpl.hpp\<close>).

  \<open>sync_all\<close> is virtual; the class itself gives it an empty body, which is the one modelled.
\<close>

section \<open>Components\<close>

text \<open>A component that is found in column \<open>k\<close> of archetype \<open>g\<close>: wait for its entry.\<close>

definition sync_found :: "ptr \<Rightarrow> type_index \<Rightarrow> place \<Rightarrow> pipeline \<Rightarrow> (place option \<times> pipeline) option" where
  "sync_found g t p pl = map_option (\<lambda>pl1. (Some p, pl1)) (sync_entry g t pl)"

text \<open>\<open>get_shared_ro\<close> of an archetype from its meta entity \<open>i\<close> on; \<open>get_component_ro\<close> of an
  entity is unfolded in it.\<close>

partial_function (option) pl_shared_loop :: "ptr \<Rightarrow> type_index \<Rightarrow> nat \<Rightarrow> pipeline \<Rightarrow> (place option \<times> pipeline) option" where
  "pl_shared_loop g t i pl =
     (let w = pl_world pl in
      if i < metaCount (archs w g) then
        (let m = metatypes (archs w g) ! i; s = as_slice w m; g' = c_type (chunks w (sl_c s));
             k = arch_index (archs w g') t
         in Option.bind
              (if \<not> entity_exist w m then Some (None, pl)
               else if k \<ge> firstTag (archs w g') then Some (None, pl)
               else if k = InvalidIndex then pl_shared_loop g' t 0 pl
               else sync_found g' t (sl_c s, cell_addr w (sl_c s) k (sl_start s)) pl)
              (\<lambda>(r, pl1). if r \<noteq> None then Some (r, pl1) else pl_shared_loop g t (i + 1) pl1))
      else Some (None, pl))"

definition pl_arch_shared_ro :: "ptr \<Rightarrow> type_index \<Rightarrow> pipeline \<Rightarrow> (place option \<times> pipeline) option" where
  "pl_arch_shared_ro g t pl = pl_shared_loop g t 0 pl"

definition pl_shared_ro :: "entity \<Rightarrow> type_index \<Rightarrow> pipeline \<Rightarrow> (place option \<times> pipeline) option" where
  "pl_shared_ro e t pl =
     (let g = get_archetype_of (pl_world pl) e in if g = 0 then None else pl_arch_shared_ro g t pl)"

definition pl_chunk_component_ro :: "chunk_slice \<Rightarrow> type_index \<Rightarrow> pipeline \<Rightarrow> (place option \<times> pipeline) option" where
  "pl_chunk_component_ro s t pl =
     (let w = pl_world pl; c = sl_c s; g = c_type (chunks w c); k = arch_index (archs w g) t in
      if k \<ge> firstTag (archs w g) then Some (None, pl)
      else if k = InvalidIndex then pl_arch_shared_ro g t pl
      else sync_found g t (c, cell_addr w c k (sl_start s)) pl)"

definition pl_component_ro :: "entity \<Rightarrow> type_index \<Rightarrow> pipeline \<Rightarrow> (place option \<times> pipeline) option" where
  "pl_component_ro e t pl =
     (if \<not> entity_exist (pl_world pl) e then Some (None, pl)
      else pl_chunk_component_ro (as_slice (pl_world pl) e) t pl)"

definition pl_chunk_owned_ro :: "ptr \<Rightarrow> type_index \<Rightarrow> pipeline \<Rightarrow> (place option \<times> pipeline) option" where
  "pl_chunk_owned_ro c t pl =
     (let w = pl_world pl in
      case slice_owned_ro w (slice_of_chunk w c) t of
        None \<Rightarrow> Some (None, pl)
      | Some p \<Rightarrow> sync_found (c_type (chunks w c)) t p pl)"

definition pl_chunk_shared_ro :: "ptr \<Rightarrow> type_index \<Rightarrow> pipeline \<Rightarrow> (place option \<times> pipeline) option" where
  "pl_chunk_shared_ro c t pl = pl_arch_shared_ro (c_type (chunks (pl_world pl) c)) t pl"

definition pl_chunk_owned_rw :: "ptr \<Rightarrow> type_index \<Rightarrow> pipeline \<Rightarrow> (place option \<times> pipeline) option" where
  "pl_chunk_owned_rw c t pl =
     (let w = pl_world pl; (p, w') = slice_owned_rw (slice_of_chunk w c) t w in
      if p = None then Some (None, pl)
      else map_option (\<lambda>pl1. (p, pl1\<lparr>pl_world := w'\<rparr>)) (sync_entry (c_type (chunks w c)) t pl))"

definition pl_component_enabled :: "entity \<Rightarrow> type_index list \<Rightarrow> pipeline \<Rightarrow> (bool \<times> pipeline) option" where
  "pl_component_enabled e T pl =
     (let w = pl_world pl; g = arch_of_entity w e in
      if \<not> entity_exist w e then Some (False, pl)
      else if \<not> withMask (archs w g) then Some (True, pl)
      else do {
        b \<leftarrow> is_component_enabled w e T;
        pl1 \<leftarrow> sync_entry g (mask_id (w_ctx w)) pl;
        Some (b, pl1)
      })"

definition pl_enable_component :: "entity \<Rightarrow> type_index list \<Rightarrow> pipeline \<Rightarrow> pipeline option" where
  "pl_enable_component = pl_update_mask enable_component"

definition pl_disable_component :: "entity \<Rightarrow> type_index list \<Rightarrow> pipeline \<Rightarrow> pipeline option" where
  "pl_disable_component = pl_update_mask disable_component"

section \<open>Groups\<close>

fun sync_members :: "(ptr \<Rightarrow> pipeline \<Rightarrow> pipeline option) \<Rightarrow> entity list \<Rightarrow> pipeline \<Rightarrow> pipeline option" where
  "sync_members f [] pl = Some pl"
| "sync_members f (e # es) pl = Option.bind (f (get_archetype_of (pl_world pl) e) pl) (sync_members f es)"

text \<open>Waiting for an archetype and for the one its copies are made in.\<close>

definition sync_instance :: "ptr \<Rightarrow> pipeline \<Rightarrow> pipeline option" where
  "sync_instance g pl = do {
     pl1 \<leftarrow> sync_archetype g pl;
     (g', pl2) \<leftarrow> run_world (get_casted g \<lparr>td_extend = EmptyType, td_shrink = EmptyType\<rparr> True) pl1;
     sync_archetype g' pl2
   }"

definition pl_members :: "place \<Rightarrow> pipeline \<Rightarrow> entity list" where
  "pl_members p pl = map (group_member (pl_world pl) p) [0..<group_count (pl_world pl) p]"

definition pl_instantiate :: "unit patch_funs \<Rightarrow> nat patch_funs \<Rightarrow> (nat \<Rightarrow> nat \<Rightarrow> GUID) \<Rightarrow> (nat \<Rightarrow> entity) \<Rightarrow> entity \<Rightarrow> nat \<Rightarrow>
    pipeline \<Rightarrow> (chunk_slice list \<times> pipeline) option" where
  "pl_instantiate pfu pfn gen stack src n pl = do {
     (gd, pl1) \<leftarrow> pl_component_ro src (group_id (w_ctx (pl_world pl))) pl;
     case gd of
       None \<Rightarrow> Option.bind (sync_instance (get_archetype_of (pl_world pl1) src) pl1) (run_world (instantiate_single (gen 0) src n))
     | Some p \<Rightarrow> Option.bind (sync_members sync_instance (pl_members p pl1) pl1)
                   (run_world (instantiate_group pfu pfn gen stack p n))
   }"

definition pl_gather_reference :: "entity list patch_funs \<Rightarrow> entity \<Rightarrow> pipeline \<Rightarrow> (entity list \<times> pipeline) option" where
  "pl_gather_reference pf e pl =
     Option.bind (sync_archetype (get_archetype_of (pl_world pl) e) pl) (run_world (gather_reference pf e))"

section \<open>Serialization\<close>

definition pl_serialize :: "unit patch_funs \<Rightarrow> (nat \<Rightarrow> entity) \<Rightarrow> entity \<Rightarrow> pipeline \<Rightarrow> (byte list \<times> pipeline) option" where
  "pl_serialize pf stack e pl = do {
     (gd, pl1) \<leftarrow> pl_component_ro e (group_id (w_ctx (pl_world pl))) pl;
     case gd of
       None \<Rightarrow> map_option (\<lambda>pl2. (write_single (pl_world pl2) e, pl2)) (sync_archetype (get_archetype_of (pl_world pl1) e) pl1)
     | Some p \<Rightarrow> Option.bind (sync_members sync_archetype (pl_members p pl1) pl1) (run_world (write_group pf stack p))
   }"

text \<open>The result of \<open>deserialize_slice\<close> is not looked at: the slice it did not set is an
  uninitialised one.\<close>

definition pl_read_single :: "'s patch_funs \<Rightarrow> 's patcher option \<Rightarrow> byte list \<times> pipeline \<times> 's \<Rightarrow>
    (chunk_slice \<times> byte list \<times> pipeline \<times> 's) option" where
  "pl_read_single pf patcher = (\<lambda>(bs, pl, st). do {
     (g, bs1, w1, st1) \<leftarrow> read_archetype patcher False (bs, pl_world pl, st);
     pl1 \<leftarrow> sync_archetype g (with_world w1 pl);
     (so, bs2, w2) \<leftarrow> read_slice g (bs1, pl_world pl1);
     slice \<leftarrow> so;
     let w3 = new_entities slice w2;
     let (w4, st2) = (case patcher of None \<Rightarrow> (w3, st1) | Some p \<Rightarrow> chunk_patch pf p slice (w3, st1));
     Some (slice, bs2, with_world w4 pl1, st2)
   })"

primrec pl_read_members :: "'s patch_funs \<Rightarrow> 's patcher option \<Rightarrow> nat \<Rightarrow> byte list \<times> pipeline \<times> 's \<Rightarrow>
    (entity list \<times> byte list \<times> pipeline \<times> 's) option" where
  "pl_read_members pf patcher 0 st = Some ([], st)"
| "pl_read_members pf patcher (Suc n) st = do {
     (s, bs1, pl1, st1) \<leftarrow> pl_read_single pf patcher st;
     (ms, st') \<leftarrow> pl_read_members pf patcher n (bs1, pl1, st1);
     Some (first_entity (pl_world pl1) s # ms, st')
   }"

definition pl_deserialize :: "'s patch_funs \<Rightarrow> unit patch_funs \<Rightarrow> 's patcher option \<Rightarrow> (nat \<Rightarrow> entity) \<Rightarrow> byte list \<times> pipeline \<times> 's \<Rightarrow>
    (entity \<times> byte list \<times> pipeline \<times> 's) option" where
  "pl_deserialize pf pfu patcher heap st = do {
     (slice, bs1, pl1, st1) \<leftarrow> pl_read_single pf patcher st;
     let src = first_entity (pl_world pl1) slice;
     (gd, pl2) \<leftarrow> pl_component_ro src (group_id (w_ctx (pl_world pl1))) pl1;
     case gd of
       None \<Rightarrow> Some (src, bs1, pl2, st1)
     | Some p \<Rightarrow> do {
         let n = group_count (pl_world pl2) p;
         (rest, bs2, pl3, st2) \<leftarrow> pl_read_members pf patcher (n - 1) (bs1, pl2, st1);
         let members = src # rest;
         Some (src, bs2,
           pl3\<lparr>pl_world := prefab_to_group pfu (\<lambda>i. if i < length members then members ! i else heap i) n (pl_world pl3)\<rparr>, st2)
       }
   }"

section \<open>Whole worlds\<close>

definition sync_all :: "pipeline \<Rightarrow> pipeline" where
  "sync_all pl = pl"

definition pl_move_context :: "unit patch_funs \<Rightarrow> (nat \<Rightarrow> entity) \<Rightarrow> world \<Rightarrow> pipeline \<Rightarrow> (world \<times> pipeline) option" where
  "pl_move_context pf stack src pl =
     run_world (\<lambda>w. map_option prod.swap (move_context pf stack src w)) (sync_all pl)"

definition pl_patch_chunk :: "unit patch_funs \<Rightarrow> unit patcher \<Rightarrow> ptr \<Rightarrow> pipeline \<Rightarrow> pipeline option" where
  "pl_patch_chunk pf p c pl =
     map_option (\<lambda>pl1. pl1\<lparr>pl_world := patch_chunk pf p (slice_of_chunk (pl_world pl1) c) (pl_world pl1)\<rparr>)
       (sync_archetype (c_type (chunks (pl_world pl) c)) pl)"

definition pl_write_world :: "pipeline \<Rightarrow> (byte list \<times> pipeline) option" where
  "pl_write_world pl = map_option (\<lambda>bs. (bs, sync_all pl)) (write_world (pl_world (sync_all pl)))"

definition pl_read_world :: "byte list \<Rightarrow> pipeline \<Rightarrow> (byte list \<times> pipeline) option" where
  "pl_read_world bs pl = run_world (\<lambda>w. read_world (bs, w)) (sync_all pl)"

definition pl_merge_chunks :: "pipeline \<Rightarrow> pipeline option" where
  "pl_merge_chunks pl = map_option (\<lambda>w. with_world w pl) (merge_world_chunks (pl_world (sync_all pl)))"

text \<open>Moving a pipeline: the new one starts with whatever number is in its \<open>passIndex\<close>.\<close>

definition pipeline_move :: "nat \<Rightarrow> pipeline \<Rightarrow> pipeline" where
  "pipeline_move garbage ppl = ppl\<lparr>pl_world := fst (world_move (pl_world ppl)), pl_index := garbage\<rparr>"

definition pipeline_release :: "pipeline \<Rightarrow> world" where
  "pipeline_release pl = fst (world_move (pl_world pl))"

section \<open>Parameters of an operation\<close>

definition op_local_type :: "pass \<Rightarrow> task \<Rightarrow> nat \<Rightarrow> nat" where
  "op_local_type k t j = ps_localType k ! (tk_gid t * length (ps_types k) + j)"

definition op_is_owned :: "pass \<Rightarrow> task \<Rightarrow> nat \<Rightarrow> bool" where
  "op_is_owned k t j \<longleftrightarrow> op_local_type k t j \<noteq> InvalidIndex"

definition op_get_mask :: "pass \<Rightarrow> task \<Rightarrow> mask" where
  "op_get_mask k t = ps_matched k ! tk_gid t"

text \<open>\<open>get_parameter<T>()\<close>: the row the slice starts at in the column of an owned component, the
  value itself when it is shared.  A writer does not get a shared value.\<close>

definition op_parameter :: "pass \<Rightarrow> task \<Rightarrow> nat \<Rightarrow> bool \<Rightarrow> world \<Rightarrow> (place option \<times> world) option" where
  "op_parameter k t j readonly w =
     (let localType = op_local_type k t j in
      if localType = InvalidIndex then
        (if readonly then map_option (\<lambda>p. (p, w)) (arch_shared_ro w (ps_archetypes k ! tk_gid t) (ps_types k ! j)) else Some (None, w))
      else if readonly then Some (Some (owned_ro_local w (tk_slice t) localType), w)
      else let (p, w') = owned_rw_local (tk_slice t) localType w in Some (Some p, w'))"

text \<open>\<open>get_parameter<T>(e)\<close>: random access by entity, without waiting.\<close>

definition op_parameter_entity :: "pass \<Rightarrow> nat \<Rightarrow> bool \<Rightarrow> entity \<Rightarrow> world \<Rightarrow> (place option \<times> world) option" where
  "op_parameter_entity k j readonly e w =
     (if readonly then map_option (\<lambda>p. (p, w)) (get_component_ro w e (ps_types k ! j))
      else Some (get_owned_rw e (ps_types k ! j) w))"

definition op_parameter_owned_entity :: "pass \<Rightarrow> nat \<Rightarrow> bool \<Rightarrow> entity \<Rightarrow> world \<Rightarrow> place option \<times> world" where
  "op_parameter_owned_entity k j readonly e w =
     (if readonly then (get_owned_ro w e (ps_types k ! j), w) else get_owned_rw e (ps_types k ! j) w)"

definition op_get_entities :: "task \<Rightarrow> world \<Rightarrow> nat \<Rightarrow> entity" where
  "op_get_entities t w = get_entities w (tk_slice t)"

end
