(* ===== verification/Command_Buffer.thy ===== *)
theory Command_Buffer
  imports Pipeline_Ops
begin

text \<open>
  Command buffers (\<open>command_buffer\<close> of \<open>Dots/Codebase.h\<close> and \<open>Dots/Codebase.cpp\<close>): every thread records
  allocations, instantiations, casts, component values and destructions in a \<open>local\<close>, with
  transient handles for the entities that do not exist yet; \<open>execute\<close> replays them on a pipeline.

  The chunk vectors of the commands are lists (theory \<open>Chunk_Vector\<close>), and the bytes of a component
  value are kept in the command.  \<open>local::cast\<close> leaves pointers to a thread-local scratch buffer in
  the commands and is not modelled; \<open>execute\<close> is, with casts.  \<open>None\<close> is a loop that does not end or
  an access outside of a vector.
\<close>

record cmd_local =
  lc_entities :: "entity list"
  lc_allocates :: "(nat \<times> entity_type) list"
  lc_instantiates :: "(nat \<times> entity) list"
  lc_casts :: "(nat \<times> type_diff) list"
  lc_destroies :: "entity list"
  lc_sets :: "(nat \<times> type_index \<times> byte list) list"
  lc_patches :: "(nat \<times> type_index) list"

record command_buffer =
  cb_allocates :: nat
  cb_locals :: "cmd_local list"

definition no_commands :: cmd_local where
  "no_commands = \<lparr>lc_entities = [], lc_allocates = [], lc_instantiates = [], lc_casts = [], lc_destroies = [], lc_sets = [], lc_patches = []\<rparr>"

section \<open>Recording\<close>

text \<open>The operations of a \<open>local\<close> on the shared counter and on the local itself.  The current entity
  is the last one.\<close>

definition current_entity :: "cmd_local \<Rightarrow> nat" where
  "current_entity l = (if lc_entities l = [] then 2 ^ 64 - 1 else length (lc_entities l) - 1)"

definition cmd_allocate :: "entity_type \<Rightarrow> nat \<times> cmd_local \<Rightarrow> entity \<times> nat \<times> cmd_local" where
  "cmd_allocate type = (\<lambda>(n, l). let e = make_transient n in
     (e, u32 (n + 1), l\<lparr>lc_entities := lc_entities l @ [e], lc_allocates := lc_allocates l @ [(length (lc_entities l), type)]\<rparr>))"

definition cmd_instantiate :: "entity \<Rightarrow> nat \<times> cmd_local \<Rightarrow> entity \<times> nat \<times> cmd_local" where
  "cmd_instantiate source = (\<lambda>(n, l). let e = make_transient n in
     (e, u32 (n + 1), l\<lparr>lc_entities := lc_entities l @ [e], lc_instantiates := lc_instantiates l @ [(length (lc_entities l), source)]\<rparr>))"

definition cmd_begin :: "entity \<Rightarrow> cmd_local \<Rightarrow> cmd_local" where
  "cmd_begin e l = l\<lparr>lc_entities := lc_entities l @ [e]\<rparr>"

definition cmd_destroy :: "entity \<Rightarrow> cmd_local \<Rightarrow> cmd_local" where
  "cmd_destroy e l = l\<lparr>lc_destroies := lc_destroies l @ [e]\<rparr>"

definition cmd_set :: "type_index \<Rightarrow> byte list \<Rightarrow> cmd_local \<Rightarrow> cmd_local" where
  "cmd_set type d l = l\<lparr>lc_sets := lc_sets l @ [(current_entity l, type, d)]\<rparr>"

definition cmd_patch :: "type_index \<Rightarrow> cmd_local \<Rightarrow> cmd_local" where
  "cmd_patch type l = l\<lparr>lc_patches := lc_patches l @ [(current_entity l, type)]\<rparr>"

text \<open>\<open>thread_storage::get\<close>: the slot of the calling thread, a new one for a new thread.\<close>

definition thread_slot :: "nat \<Rightarrow> 't \<Rightarrow> 't list \<times> cmd_local list \<Rightarrow> (nat \<times> 't list \<times> cmd_local list) option" where
  "thread_slot capacity t = (\<lambda>(ids, ls).
     let i = length (takeWhile (\<lambda>x. x \<noteq> t) ids) in
     if i < length ids then Some (i, ids, ls)
     else if i < capacity then Some (i, ids @ [t], ls @ [no_commands]) else None)"

section \<open>Execution\<close>

definition nth_opt :: "'a list \<Rightarrow> nat \<Rightarrow> 'a option" where
  "nth_opt xs i = (if i < length xs then Some (xs ! i) else None)"

text \<open>\<open>newEnts[loc.entities[(rb++)->e].id] = es[j]\<close> over the entities that were made.\<close>

fun store_new :: "entity list \<Rightarrow> nat list \<Rightarrow> entity list \<Rightarrow> entity list \<Rightarrow> entity list option" where
  "store_new loc rb [] newEnts = Some newEnts"
| "store_new loc [] (x # xs) newEnts = None"
| "store_new loc (i # rb) (x # xs) newEnts = do {
     t \<leftarrow> nth_opt loc i;
     if e_id t < length newEnts then store_new loc rb xs (newEnts[e_id t := x]) else None
   }"

definition made_entities :: "world \<Rightarrow> chunk_slice list \<Rightarrow> entity list" where
  "made_entities w ss = concat (map (\<lambda>s. map (get_entities w s) [0..<sl_count s]) ss)"

text \<open>The allocations of a local.  The inner loop does not advance its iterator, so it does not
  end when the next command asks for the same type; otherwise one entity is made at a time.\<close>

fun exec_allocates :: "entity list \<Rightarrow> (nat \<times> entity_type) list \<Rightarrow> entity list \<times> pipeline \<Rightarrow> (entity list \<times> pipeline) option" where
  "exec_allocates loc [] st = Some st"
| "exec_allocates loc ((i, type) # rest) st =
     (if rest \<noteq> [] \<and> et_equal (snd (hd rest)) type then None
      else do {
        (ss, pl1) \<leftarrow> pl_allocate_type type 1 (snd st);
        newEnts \<leftarrow> store_new loc (i # map fst rest) (made_entities (pl_world pl1) ss) (fst st);
        exec_allocates loc rest (newEnts, pl1)
      })"

text \<open>\<open>inst\<close> is \<open>pipeline::instantiate\<close>.\<close>

fun exec_instantiates :: "(entity \<Rightarrow> nat \<Rightarrow> pipeline \<Rightarrow> (chunk_slice list \<times> pipeline) option) \<Rightarrow> entity list \<Rightarrow>
    (nat \<times> entity) list \<Rightarrow> entity list \<times> pipeline \<Rightarrow> (entity list \<times> pipeline) option" where
  "exec_instantiates inst loc [] st = Some st"
| "exec_instantiates inst loc ((i, source) # rest) st =
     (if rest \<noteq> [] \<and> snd (hd rest) = source then None
      else do {
        (ss, pl1) \<leftarrow> inst source 1 (snd st);
        newEnts \<leftarrow> store_new loc (i # map fst rest) (made_entities (pl_world pl1) ss) (fst st);
        exec_instantiates inst loc rest (newEnts, pl1)
      })"

fun resolve_entities :: "entity list \<Rightarrow> entity list \<Rightarrow> entity list option" where
  "resolve_entities newEnts [] = Some []"
| "resolve_entities newEnts (e # es) = do {
     e' \<leftarrow> (if is_transient e then nth_opt newEnts (e_id e) else Some e);
     es' \<leftarrow> resolve_entities newEnts es;
     Some (e' # es')
   }"

text \<open>Adjacent rows are merged, but the iterator stays: the slice grows by one row at most, and
  the next command is executed on its own again.\<close>

definition grow_slice :: "chunk_slice \<Rightarrow> chunk_slice \<Rightarrow> chunk_slice" where
  "grow_slice s s2 =
     (if sl_c s2 = sl_c s \<and> sl_start s2 = sl_start s + sl_count s then s\<lparr>sl_count := sl_count s + 1\<rparr> else s)"

fun exec_casts :: "entity list \<Rightarrow> (nat \<times> type_diff) list \<Rightarrow> pipeline \<Rightarrow> pipeline option" where
  "exec_casts loc [] pl = Some pl"
| "exec_casts loc ((i, diff) # rest) pl = do {
     e \<leftarrow> nth_opt loc i;
     let s = as_slice (pl_world pl) e;
     s' \<leftarrow> (case rest of
              [] \<Rightarrow> Some s
            | (i2, diff2) # _ \<Rightarrow> map_option (\<lambda>e2. if td_equal diff diff2 then grow_slice s (as_slice (pl_world pl) e2) else s) (nth_opt loc i2));
     (_, pl1) \<leftarrow> pl_cast_diff s' diff pl;
     exec_casts loc rest pl1
   }"

fun exec_sets :: "entity list \<Rightarrow> (nat \<times> type_index \<times> byte list) list \<Rightarrow> pipeline \<Rightarrow> pipeline option" where
  "exec_sets loc [] pl = Some pl"
| "exec_sets loc ((i, type, d) # rest) pl = do {
     e \<leftarrow> nth_opt loc i;
     (p, pl1) \<leftarrow> pl_owned_rw e type pl;
     exec_sets loc rest (case p of None \<Rightarrow> pl1
       | Some (c, at) \<Rightarrow> pl1\<lparr>pl_world := on_mem c (put_mem at d) (pl_world pl1)\<rparr>)
   }"

text \<open>The references in one component value: transient ones are replaced.\<close>

definition patch_transients :: "entity list \<Rightarrow> dots_context \<Rightarrow> type_index \<Rightarrow> nat \<Rightarrow> bmem \<Rightarrow> bmem option" where
  "patch_transients newEnts ctx type at m =
     (let t = infos ctx ! ti_index type in
      for_up_opt (\<lambda>k m.
        let a = at + entityRefs ctx ! (r_entityRefs t + k); e = rd 4 m a
        in if is_transient e then map_option (wr 4 m a) (nth_opt newEnts (e_id e)) else Some m) 0 (r_entityRefCount t) m)"

fun exec_patches :: "entity list \<Rightarrow> entity list \<Rightarrow> (nat \<times> type_index) list \<Rightarrow> pipeline \<Rightarrow> pipeline option" where
  "exec_patches newEnts loc [] pl = Some pl"
| "exec_patches newEnts loc ((i, type) # rest) pl = do {
     e \<leftarrow> nth_opt loc i;
     (p, pl1) \<leftarrow> pl_owned_rw e type pl;
     pl2 \<leftarrow> (case p of None \<Rightarrow> Some pl1
       | Some (c, at) \<Rightarrow>
           map_option (\<lambda>m. pl1\<lparr>pl_world := on_mem c (\<lambda>_. m) (pl_world pl1)\<rparr>)
             (patch_transients newEnts (w_ctx (pl_world pl1)) type at (bytes_of (pl_world pl1) c)));
     exec_patches newEnts loc rest pl2
   }"

fun exec_destroies :: "nat \<Rightarrow> entity list \<Rightarrow> pipeline \<Rightarrow> pipeline option" where
  "exec_destroies fuel [] pl = Some pl"
| "exec_destroies fuel (e # rest) pl = do {
     let s = as_slice (pl_world pl) e;
     let s' = (case rest of [] \<Rightarrow> s | e2 # _ \<Rightarrow> grow_slice s (as_slice (pl_world pl) e2));
     pl1 \<leftarrow> pl_destroy fuel s' pl;
     exec_destroies fuel rest pl1
   }"

fun for_locals :: "('l \<Rightarrow> 's \<Rightarrow> 's option) \<Rightarrow> 'l list \<Rightarrow> 's \<Rightarrow> 's option" where
  "for_locals f [] s = Some s"
| "for_locals f (l # ls) s = Option.bind (f l s) (for_locals f ls)"

fun resolve_locals :: "entity list \<Rightarrow> cmd_local list \<Rightarrow> cmd_local list option" where
  "resolve_locals newEnts [] = Some []"
| "resolve_locals newEnts (l # ls) = do {
     es \<leftarrow> resolve_entities newEnts (lc_entities l);
     ls' \<leftarrow> resolve_locals newEnts ls;
     Some (l\<lparr>lc_entities := es\<rparr> # ls')
   }"

definition execute :: "nat \<Rightarrow> (entity \<Rightarrow> nat \<Rightarrow> pipeline \<Rightarrow> (chunk_slice list \<times> pipeline) option) \<Rightarrow> command_buffer \<Rightarrow>
    pipeline \<Rightarrow> pipeline option" where
  "execute fuel inst cb pl = do {
     let newEnts = replicate (cb_allocates cb) 0;
     st1 \<leftarrow> for_locals (\<lambda>l. exec_allocates (lc_entities l) (lc_allocates l)) (cb_locals cb) (newEnts, pl);
     (newEnts, pl2) \<leftarrow> for_locals (\<lambda>l. exec_instantiates inst (lc_entities l) (lc_instantiates l)) (cb_locals cb) st1;
     ls \<leftarrow> resolve_locals newEnts (cb_locals cb);
     pl3 \<leftarrow> for_locals (\<lambda>l. exec_casts (lc_entities l) (lc_casts l)) ls pl2;
     pl4 \<leftarrow> for_locals (\<lambda>l pl. Option.bind (exec_sets (lc_entities l) (lc_sets l) pl)
                                (exec_patches newEnts (lc_entities l) (lc_patches l))) ls pl3;
     for_locals (\<lambda>l. exec_destroies fuel (lc_destroies l)) ls pl4
   }"

end
