(* ===== verification/Ring_Buffer.thy ===== *)
theory Ring_Buffer
  imports Dots_Prelude
begin

text \<open>
  The ring buffer of \<open>Dots/RingBuffer.h\<close>: a queue over an array of \<open>N\<close> elements and two counters
  of 64 bits that only grow and wrap around; the difference of the counters is the number of
  elements.  Every transfer is a batch that does not cross the end of the array; the range
  operations repeat it.

  \<open>None\<close> is a failed assertion.  The second part takes the atomic accesses apart: one thread
  pushes, one thread pops, and their steps interleave.
\<close>

section \<open>Counters and pointers\<close>

record 'a ring =
  rb_data :: "nat \<Rightarrow> 'a"
  readIndex :: nat
  writeIndex :: nat

definition rb_ctor :: "(nat \<Rightarrow> 'a) \<Rightarrow> 'a ring" where
  "rb_ctor garbage = \<lparr>rb_data = garbage, readIndex = 0, writeIndex = 0\<rparr>"

definition sub64 :: "nat \<Rightarrow> nat \<Rightarrow> nat" where
  "sub64 a b = u64 (a + (2 ^ 64 - u64 b))"

definition rb_size :: "'a ring \<Rightarrow> nat" where
  "rb_size b = sub64 (writeIndex b) (readIndex b)"

text \<open>\<open>ptr\<close>: the index of the first element and the length of the batch.\<close>

definition rb_ptr :: "nat \<Rightarrow> nat \<Rightarrow> nat \<Rightarrow> nat \<Rightarrow> nat \<times> nat" where
  "rb_ptr N position elementsAvailable n =
     (let index = position mod N in (index, min n (min elementsAvailable (N - index))))"

definition write_ptr :: "nat \<Rightarrow> 'a ring \<Rightarrow> nat \<Rightarrow> nat \<times> nat" where
  "write_ptr N b n = rb_ptr N (writeIndex b) (sub64 N (rb_size b)) n"

definition read_ptr :: "nat \<Rightarrow> 'a ring \<Rightarrow> nat \<Rightarrow> nat \<times> nat" where
  "read_ptr N b n = rb_ptr N (readIndex b) (rb_size b) n"

definition write_ptr_update :: "nat \<Rightarrow> 'a ring \<Rightarrow> 'a ring" where
  "write_ptr_update n b = b\<lparr>writeIndex := u64 (writeIndex b + n)\<rparr>"

definition read_ptr_update :: "nat \<Rightarrow> 'a ring \<Rightarrow> 'a ring" where
  "read_ptr_update n b = b\<lparr>readIndex := u64 (readIndex b + n)\<rparr>"

section \<open>Queue operations\<close>

text \<open>One batch in, one batch out.\<close>

definition put_batch :: "nat \<Rightarrow> 'a ring \<Rightarrow> 'a list \<Rightarrow> nat \<times> 'a ring" where
  "put_batch N b xs =
     (let (at, n) = write_ptr N b (length xs)
      in (n, write_ptr_update n (b\<lparr>rb_data := (\<lambda>i. if at \<le> i \<and> i < at + n then xs ! (i - at) else rb_data b i)\<rparr>)))"

definition get_batch :: "nat \<Rightarrow> 'a ring \<Rightarrow> nat \<Rightarrow> 'a list \<times> 'a ring" where
  "get_batch N b n =
     (let (at, k) = read_ptr N b n
      in (map (\<lambda>i. rb_data b (at + i)) [0..<k], read_ptr_update k b))"

definition push_back :: "nat \<Rightarrow> 'a ring \<Rightarrow> 'a \<Rightarrow> bool \<times> 'a ring" where
  "push_back N b v =
     (let (at, n) = write_ptr N b 1
      in if n = 0 then (False, b) else (True, write_ptr_update 1 (b\<lparr>rb_data := (rb_data b)(at := v)\<rparr>)))"

function push_range :: "nat \<Rightarrow> 'a ring \<Rightarrow> 'a list \<Rightarrow> nat \<times> 'a ring" where
  "push_range N b xs =
     (case put_batch N b xs of (k, b1) \<Rightarrow>
        if k = 0 then (0, b)
        else if k = length xs then (k, b1)
        else case push_range N b1 (drop k xs) of (m, b2) \<Rightarrow> (k + m, b2))"
  by auto
termination
  by (relation "measure (\<lambda>(N, b, xs). length xs)")
    (auto simp: put_batch_def write_ptr_def rb_ptr_def Let_def)

definition pop_front :: "nat \<Rightarrow> 'a ring \<Rightarrow> ('a \<times> 'a ring) option" where
  "pop_front N b =
     (let (at, n) = read_ptr N b 1
      in if n = 1 then Some (rb_data b at, read_ptr_update n b) else None)"

function pop_range :: "nat \<Rightarrow> 'a ring \<Rightarrow> nat \<Rightarrow> 'a list \<times> 'a ring" where
  "pop_range N b n =
     (case get_batch N b n of (xs, b1) \<Rightarrow>
        if length xs = 0 then ([], b)
        else if length xs = n then (xs, b1)
        else case pop_range N b1 (n - length xs) of (ys, b2) \<Rightarrow> (xs @ ys, b2))"
  by auto
termination
  by (relation "measure (\<lambda>(N, b, n). n)")
    (auto simp: get_batch_def read_ptr_def rb_ptr_def Let_def)

text \<open>\<open>pop_range(n)\<close> drops the elements: only their number is returned.\<close>

definition drop_range :: "nat \<Rightarrow> 'a ring \<Rightarrow> nat \<Rightarrow> nat \<times> 'a ring" where
  "drop_range N b n = (case pop_range N b n of (xs, b') \<Rightarrow> (length xs, b'))"

definition rb_front :: "nat \<Rightarrow> 'a ring \<Rightarrow> 'a option" where
  "rb_front N b = (let (at, n) = read_ptr N b 1 in if n = 1 then Some (rb_data b at) else None)"

text \<open>\<open>front_ptr\<close>: the index of the front element, null for an empty buffer.\<close>

definition front_ptr :: "nat \<Rightarrow> 'a ring \<Rightarrow> nat option" where
  "front_ptr N b = (let (at, n) = read_ptr N b 1 in if n = 0 then None else Some at)"

definition rb_empty :: "nat \<Rightarrow> 'a ring \<Rightarrow> bool" where
  "rb_empty N b \<longleftrightarrow> snd (read_ptr N b 1) = 0"

declare push_range.simps [simp del] pop_range.simps [simp del]

section \<open>Batched queues\<close>

text \<open>What a bounded queue with batched transfers promises: a batch is a prefix of what is
  offered, and it is empty only when nothing is offered or nothing fits.\<close>

locale batched_queue =
  fixes room :: nat
    and inv :: "'q \<Rightarrow> bool"
    and elems :: "'q \<Rightarrow> 'a list"
    and put :: "'q \<Rightarrow> 'a list \<Rightarrow> nat \<times> 'q"
    and get :: "'q \<Rightarrow> nat \<Rightarrow> 'a list \<times> 'q"
  assumes elems_room: "inv q \<Longrightarrow> length (elems q) \<le> room"
    and put_elems: "inv q \<Longrightarrow> put q xs = (k, q') \<Longrightarrow> inv q' \<and> k \<le> length xs \<and> elems q' = elems q @ take k xs"
    and put_progress: "inv q \<Longrightarrow> put q xs = (0, q') \<Longrightarrow> xs = [] \<or> length (elems q) = room"
    and get_elems: "inv q \<Longrightarrow> get q n = (ys, q') \<Longrightarrow> inv q' \<and> length ys \<le> n \<and> elems q = ys @ elems q'"
    and get_progress: "inv q \<Longrightarrow> get q n = ([], q') \<Longrightarrow> n = 0 \<or> elems q = []"

text \<open>Operations that repeat the batches until everything is transferred or nothing moves.\<close>

locale ranged_queue = batched_queue +
  fixes put_all :: "'a \<Rightarrow> 'b list \<Rightarrow> nat \<times> 'a"
    and get_all :: "'a \<Rightarrow> nat \<Rightarrow> 'b list \<times> 'a"
  assumes put_all_step: "put_all q xs = (case put q xs of (k, q1) \<Rightarrow>
        if k = 0 then (0, q) else if k = length xs then (k, q1)
        else case put_all q1 (drop k xs) of (m, q2) \<Rightarrow> (k + m, q2))"
    and get_all_step: "get_all q n = (case get q n of (ys, q1) \<Rightarrow>
        if length ys = 0 then ([], q) else if length ys = n then (ys, q1)
        else case get_all q1 (n - length ys) of (zs, q2) \<Rightarrow> (ys @ zs, q2))"
begin

lemma put_all_spec:
  assumes "inv q" "put_all q xs = (n, q')"
  shows "inv q' \<and> n = min (length xs) (room - length (elems q)) \<and> elems q' = elems q @ take n xs"
  using assms
proof (induction xs arbitrary: q n q' rule: length_induct)
  case (1 xs)
  obtain k q1 where put: "put q xs = (k, q1)" by force
  note e = put_elems [OF "1.prems"(1) put]
  have room1: "length (elems q) + k \<le> room"
    using elems_room [of q1] e by (auto simp: min_def split: if_splits)
  show ?case
  proof (cases "k = 0 \<or> k = length xs")
    case True
    then show ?thesis
      using "1.prems" put e room1 put_progress [OF "1.prems"(1), of xs q1]
      by (auto simp: put_all_step [of q xs] min_def split: if_splits)
  next
    case False
    obtain m q2 where rest: "put_all q1 (drop k xs) = (m, q2)" by force
    have "inv q2 \<and> m = min (length (drop k xs)) (room - length (elems q1)) \<and> elems q2 = elems q1 @ take m (drop k xs)"
      by (rule "1.IH" [rule_format, OF _ _ rest]) (use False e in auto)
    then show ?thesis
      using "1.prems"(2) put e room1 rest False
      by (auto simp: put_all_step [of q xs] take_add [symmetric] min_def)
  qed
qed

lemma get_all_spec:
  assumes "inv q" "get_all q n = (ys, q')"
  shows "inv q' \<and> length ys = min n (length (elems q)) \<and> elems q = ys @ elems q'"
  using assms
proof (induction n arbitrary: q ys q' rule: less_induct)
  case (less n)
  obtain xs q1 where get: "get q n = (xs, q1)" by force
  note e = get_elems [OF less.prems(1) get]
  show ?case
  proof (cases "xs = [] \<or> length xs = n")
    case True
    then have res: "(ys, q') = (xs, if xs = [] then q else q1)"
      using less.prems(2) get get_all_step [of q n] by auto
    show ?thesis
    proof (cases "xs = []")
      case True
      then have "n = 0 \<or> elems q = []" using get_progress [OF less.prems(1)] get by simp
      with True res less.prems(1) show ?thesis by auto
    next
      case False
      with True have "length xs = n" by simp
      moreover have "length xs \<le> length (elems q)" using e by simp
      ultimately show ?thesis using False res e by simp
    qed
  next
    case False
    obtain zs q2 where rest: "get_all q1 (n - length xs) = (zs, q2)" by force
    have ih: "inv q2 \<and> length zs = min (n - length xs) (length (elems q1)) \<and> elems q1 = zs @ elems q2"
      by (rule less.IH [OF _ _ rest]) (use False e in auto)
    have "get_all q n = (xs @ zs, q2)"
      using get rest False by (subst get_all_step [of q n]) simp
    then have "(ys, q') = (xs @ zs, q2)" using less.prems(2) by simp
    moreover have "length (xs @ zs) = min n (length (elems q))"
      unfolding length_append conjunct1 [OF conjunct2 [OF ih]] using e by auto
    ultimately show ?thesis using conjunct1 [OF ih] conjunct2 [OF conjunct2 [OF ih]] e by simp
  qed
qed

end

section \<open>The ring is a batched queue\<close>

definition rb_list :: "nat \<Rightarrow> 'a ring \<Rightarrow> 'a list" where
  "rb_list N b = map (\<lambda>j. rb_data b ((readIndex b + j) mod N)) [0..<rb_size b]"

text \<open>The counters are 64-bit values whose distance is at most \<open>N\<close>; \<open>N\<close> divides \<open>2 ^ 64\<close>, or the
  positions would jump when a counter wraps.\<close>

definition rb_wf :: "nat \<Rightarrow> 'a ring \<Rightarrow> bool" where
  "rb_wf N b \<longleftrightarrow> 0 < N \<and> N dvd 2 ^ 64 \<and> N < 2 ^ 64 \<and> readIndex b < 2 ^ 64 \<and> writeIndex b < 2 ^ 64 \<and> rb_size b \<le> N"

lemma rb_list_length [simp]: "length (rb_list N b) = rb_size b"
  by (simp add: rb_list_def)

lemma sub64_cases: "a < 2 ^ 64 \<Longrightarrow> b < 2 ^ 64 \<Longrightarrow> sub64 a b = (if b \<le> a then a - b else a + 2 ^ 64 - b)"
  by (simp add: sub64_def u64_def mod_if)

lemma u64_cases: "n < 2 * 2 ^ 64 \<Longrightarrow> u64 n = (if n < 2 ^ 64 then n else n - 2 ^ 64)"
  by (simp add: u64_def mod_if)

lemma mod_u64: "N dvd 2 ^ 64 \<Longrightarrow> u64 n mod N = n mod N"
  by (simp add: u64_def mod_mod_cancel)

lemma pos_less: "rb_wf N b \<Longrightarrow> x mod N < N"
  by (simp add: rb_wf_def)

lemma write_at: "rb_wf N b \<Longrightarrow> writeIndex b mod N = (readIndex b + rb_size b) mod N"
proof -
  assume wf: "rb_wf N b"
  then have "u64 (readIndex b + rb_size b) = writeIndex b"
    by (simp add: rb_wf_def rb_size_def sub64_cases u64_cases)
  then show ?thesis using wf mod_u64 [of N "readIndex b + rb_size b"] by (simp add: rb_wf_def)
qed

lemma write_moves:
  assumes "rb_wf N b" "rb_size b + k \<le> N"
  shows "rb_size (write_ptr_update k b) = rb_size b + k" "rb_wf N (write_ptr_update k b)"
proof -
  show "rb_size (write_ptr_update k b) = rb_size b + k"
    using assms by (auto simp: rb_wf_def rb_size_def write_ptr_update_def sub64_cases u64_cases split: if_splits)
  then show "rb_wf N (write_ptr_update k b)"
    using assms by (auto simp: rb_wf_def write_ptr_update_def u64_def)
qed

lemma read_moves:
  assumes "rb_wf N b" "k \<le> rb_size b"
  shows "rb_size (read_ptr_update k b) = rb_size b - k" "rb_wf N (read_ptr_update k b)"
proof -
  show "rb_size (read_ptr_update k b) = rb_size b - k"
    using assms by (auto simp: rb_wf_def rb_size_def read_ptr_update_def sub64_cases u64_cases split: if_splits)
  then show "rb_wf N (read_ptr_update k b)"
    using assms by (auto simp: rb_wf_def read_ptr_update_def u64_def)
qed


lemma batch_fits:
  assumes "rb_wf N b" "put_batch N b xs = (k, b')"
  shows "k = min (length xs) (min (N - rb_size b) (N - writeIndex b mod N))"
  using assms by (auto simp: put_batch_def write_ptr_def rb_ptr_def Let_def rb_wf_def sub64_cases)

text \<open>The positions of the elements do not meet those of the batch that is written.\<close>

lemma ring_positions:
  fixes r s N i j :: nat
  assumes "0 < N" "j < s + k" "s + k \<le> N" "i < k" "(r + s) mod N + k \<le> N"
  shows "(r + s) mod N + i = (r + j) mod N \<longleftrightarrow> j = s + i"
proof -
  have at: "(r + s) mod N + i = (r + (s + i)) mod N"
    using assms by (metis (no_types, lifting) add.assoc add_less_cancel_left le_less_trans less_le_trans mod_add_left_eq mod_less)
  show ?thesis
  proof
    assume "(r + s) mod N + i = (r + j) mod N"
    then have "(r + (s + i)) mod N = (r + j) mod N" using at by simp
    then have "N dvd (s + i) - j \<and> N dvd j - (s + i)"
      by (cases "j \<le> s + i") (auto simp: mod_eq_dvd_iff_nat dest: sym)
    moreover have "(s + i) - j < N" "j - (s + i) < N" using assms by auto
    ultimately show "j = s + i" using dvd_imp_le by fastforce
  qed (use at in simp)
qed


lemma put_batch_elems:
  assumes wf: "rb_wf N b" and put: "put_batch N b xs = (k, b')"
  shows "rb_wf N b' \<and> k \<le> length xs \<and> rb_list N b' = rb_list N b @ take k xs"
proof -
  define at where "at = writeIndex b mod N"
  define b1 where "b1 = b\<lparr>rb_data := (\<lambda>i. if at \<le> i \<and> i < at + k then xs ! (i - at) else rb_data b i)\<rparr>"
  have k: "k \<le> length xs" "rb_size b + k \<le> N" "at + k \<le> N"
    using batch_fits [OF wf put, folded at_def] pos_less [OF wf, of "writeIndex b", folded at_def] wf by (auto simp: rb_wf_def)
  have b': "b' = write_ptr_update k b1"
    using put unfolding b1_def at_def by (auto simp: put_batch_def write_ptr_def rb_ptr_def Let_def)
  have wf1: "rb_wf N b1" and size1: "rb_size b1 = rb_size b"
    using wf by (simp_all add: b1_def rb_wf_def rb_size_def)
  have size': "rb_size b' = rb_size b + k" and wf': "rb_wf N b'"
    using write_moves [OF wf1, of k] k size1 b' by simp_all
  have at: "at = (readIndex b + rb_size b) mod N" using write_at [OF wf] by (simp add: at_def)
  have "rb_list N b' ! j = (rb_list N b @ take k xs) ! j" if "j < rb_size b + k" for j
  proof -
    let ?p = "(readIndex b + j) mod N"
    have pos: "at + i = ?p \<longleftrightarrow> j = rb_size b + i" if "i < k" for i
      using ring_positions [of N j "rb_size b" k i "readIndex b"] \<open>j < rb_size b + k\<close> that k wf at by (simp add: rb_wf_def)
    have new: "rb_list N b' ! j = (if at \<le> ?p \<and> ?p < at + k then xs ! (?p - at) else rb_data b ?p)"
      using that size' by (simp add: rb_list_def b' b1_def write_ptr_update_def)
    show ?thesis
    proof (cases "j < rb_size b")
      case True
      have "\<not> (at \<le> ?p \<and> ?p < at + k)" using pos [of "?p - at"] True by (metis le_add_diff_inverse less_diff_conv2 not_add_less1 add.commute)
      with new True show ?thesis by (auto simp: nth_append rb_list_def)
    next
      case False
      then obtain i where j: "j = rb_size b + i" by (auto simp: not_less le_iff_add)
      then have "?p = at + i" "i < k" using pos [of i] that by simp_all
      then show ?thesis using new j k by (simp add: nth_append)
    qed
  qed
  then have "rb_list N b' = rb_list N b @ take k xs"
    using size' k by (intro nth_equalityI) auto
  with wf' k show ?thesis by simp
qed

lemma put_batch_progress:
  assumes "rb_wf N b" "put_batch N b xs = (0, b')"
  shows "xs = [] \<or> length (rb_list N b) = N"
  using batch_fits [OF assms] assms(1) pos_less [OF assms(1), of "writeIndex b"]
  by (cases xs) (simp_all add: rb_wf_def min_def del: mod_less_divisor split: if_splits)

lemma get_batch_elems:
  assumes wf: "rb_wf N b" and get: "get_batch N b n = (ys, b')"
  shows "rb_wf N b' \<and> length ys \<le> n \<and> rb_list N b = ys @ rb_list N b'"
proof -
  define at where "at = readIndex b mod N"
  define k where "k = min n (min (rb_size b) (N - at))"
  have ys: "ys = map (\<lambda>i. rb_data b (at + i)) [0..<k]" and b': "b' = read_ptr_update k b"
    using get by (auto simp: get_batch_def read_ptr_def rb_ptr_def Let_def k_def at_def)
  have k: "k \<le> n" "k \<le> rb_size b" "at + k \<le> N"
    using wf pos_less [OF wf, of "readIndex b", folded at_def] by (auto simp: k_def rb_wf_def)
  have size': "rb_size b' = rb_size b - k" and wf': "rb_wf N b'"
    using read_moves [OF wf k(2)] b' by simp_all
  have "rb_list N b ! j = (ys @ rb_list N b') ! j" if "j < rb_size b" for j
  proof (cases "j < k")
    case True
    then have "(readIndex b + j) mod N = at + j"
      using k(3) mod_add_left_eq [of "readIndex b" N j] by (simp add: at_def)
    with True that show ?thesis by (simp add: ys rb_list_def nth_append)
  next
    case False
    have "N dvd 2 ^ 64" using wf by (simp add: rb_wf_def)
    then have "(u64 (readIndex b + k) + (j - k)) mod N = (readIndex b + j) mod N"
      using mod_u64 [of N "readIndex b + k"] False by (metis mod_add_left_eq add.assoc le_add_diff_inverse not_less)
    moreover have "j - k < rb_size b'" using False that size' by simp
    ultimately show ?thesis
      using False that by (simp add: ys rb_list_def nth_append b' read_ptr_update_def)
  qed
  then have "rb_list N b = ys @ rb_list N b'"
    using size' k by (intro nth_equalityI) (auto simp: ys)
  with wf' k show ?thesis by (simp add: ys)
qed

lemma get_batch_progress:
  assumes "rb_wf N b" "get_batch N b n = ([], b')"
  shows "n = 0 \<or> rb_list N b = []"
  using assms pos_less [OF assms(1), of "readIndex b"]
  by (cases n) (simp_all add: get_batch_def read_ptr_def rb_ptr_def Let_def rb_wf_def rb_list_def min_def
      del: mod_less_divisor split: if_splits)

interpretation ring: ranged_queue N "rb_wf N" "rb_list N" "put_batch N" "get_batch N" "push_range N" "pop_range N" for N
proof
  show "length (rb_list N q) \<le> N" if "rb_wf N q" for q :: "'a ring"
    using that by (simp add: rb_wf_def)
  show "push_range N q xs = (case put_batch N q xs of (k, q1) \<Rightarrow>
        if k = 0 then (0, q) else if k = length xs then (k, q1)
        else case push_range N q1 (drop k xs) of (m, q2) \<Rightarrow> (k + m, q2))" for q :: "'a ring" and xs
    by (rule push_range.simps)
  show "pop_range N q n = (case get_batch N q n of (ys, q1) \<Rightarrow>
        if length ys = 0 then ([], q) else if length ys = n then (ys, q1)
        else case pop_range N q1 (n - length ys) of (zs, q2) \<Rightarrow> (ys @ zs, q2))" for q :: "'a ring" and n
    by (rule pop_range.simps)
qed (use put_batch_elems put_batch_progress get_batch_elems get_batch_progress in \<open>blast+\<close>)


section \<open>Correctness of the queue\<close>

lemma single_batch:
  "push_back N b v = (case put_batch N b [v] of (n, b') \<Rightarrow> if n = 0 then (False, b) else (True, b'))"
proof -
  have "(\<lambda>i. if at \<le> i \<and> i < at + n then [v] ! (i - at) else d i) = d(at := v)" if "n = Suc 0" for at n d
    using that by (auto simp: fun_eq_iff le_less_Suc_eq)
  then show ?thesis
    by (auto simp: push_back_def put_batch_def write_ptr_def rb_ptr_def Let_def min_def)
qed

lemma single_pop:
  "pop_front N b = (case get_batch N b 1 of (xs, b') \<Rightarrow> case xs of [] \<Rightarrow> None | x # _ \<Rightarrow> Some (x, b'))"
  by (auto simp: pop_front_def get_batch_def read_ptr_def rb_ptr_def Let_def split: prod.splits list.splits)

text \<open>C11. The ring buffer is a first-in first-out queue of at most \<open>N\<close> elements, for a capacity that
  divides \<open>2 ^ 64\<close>: \<open>push_back\<close> appends unless the buffer is full, \<open>push_range\<close> appends as many
  elements as fit, \<open>pop_front\<close> takes the first element and fails its assertion exactly on an empty
  buffer, \<open>pop_range\<close> takes as many elements as there are, and \<open>front\<close>, \<open>empty\<close> and \<open>size\<close> read the
  list; all of this across the end of the array and the wrap-around of the counters.\<close>

theorem ring_is_queue:
  assumes wf: "rb_wf N b"
  shows "(let (ok, b') = push_back N b v in rb_wf N b' \<and> (ok \<longleftrightarrow> length (rb_list N b) < N)
            \<and> rb_list N b' = (if ok then rb_list N b @ [v] else rb_list N b))
    \<and> (let (n, b') = push_range N b xs in rb_wf N b' \<and> n = min (length xs) (N - length (rb_list N b))
            \<and> rb_list N b' = rb_list N b @ take n xs)
    \<and> (case pop_front N b of None \<Rightarrow> rb_list N b = []
        | Some (x, b') \<Rightarrow> rb_wf N b' \<and> rb_list N b = x # rb_list N b')
    \<and> (let (ys, b') = pop_range N b m in rb_wf N b' \<and> length ys = min m (length (rb_list N b))
            \<and> rb_list N b = ys @ rb_list N b')
    \<and> rb_front N b = (case rb_list N b of [] \<Rightarrow> None | x # _ \<Rightarrow> Some x)
    \<and> rb_empty N b = (rb_list N b = []) \<and> rb_size b = length (rb_list N b)"
proof -
  have 1: "let (ok, b') = push_back N b v in rb_wf N b' \<and> (ok \<longleftrightarrow> length (rb_list N b) < N)
            \<and> rb_list N b' = (if ok then rb_list N b @ [v] else rb_list N b)"
  proof -
    obtain n b1 where put: "put_batch N b [v] = (n, b1)" by force
    note e = ring.put_elems [OF wf put]
    show ?thesis
    proof (cases "n = 0")
      case True
      then show ?thesis using put wf ring.put_progress [OF wf, of "[v]" b1] by (simp add: single_batch)
    next
      case False
      then have "n = 1" using e by simp
      moreover have "rb_size b1 \<le> N" using e by (simp add: rb_wf_def)
      moreover have "rb_size b1 = rb_size b + 1" using e \<open>n = 1\<close> rb_list_length [of N b1] by simp
      ultimately show ?thesis using put e by (simp add: single_batch)
    qed
  qed
  have 3: "case pop_front N b of None \<Rightarrow> rb_list N b = []
      | Some (x, b') \<Rightarrow> rb_wf N b' \<and> rb_list N b = x # rb_list N b'"
  proof -
    obtain ys b1 where get: "get_batch N b 1 = (ys, b1)" by force
    show ?thesis
      using ring.get_elems [OF wf get] ring.get_progress [OF wf, of 1 b1] get
      by (cases ys) (auto simp: single_pop)
  qed
  have 5: "rb_front N b = map_option fst (pop_front N b)"
    by (auto simp: rb_front_def pop_front_def Let_def split: prod.splits)
  have 6: "rb_empty N b \<longleftrightarrow> pop_front N b = None"
    by (auto simp: rb_empty_def pop_front_def read_ptr_def rb_ptr_def Let_def)
  have "rb_front N b = (case rb_list N b of [] \<Rightarrow> None | x # _ \<Rightarrow> Some x)" "rb_empty N b = (rb_list N b = [])"
    using 3 by (auto simp: 5 6 split: option.splits)
  moreover have "let (n, b') = push_range N b xs in rb_wf N b' \<and> n = min (length xs) (N - length (rb_list N b))
            \<and> rb_list N b' = rb_list N b @ take n xs"
    using ring.put_all_spec [OF wf] by (simp split: prod.splits)
  moreover have "let (ys, b') = pop_range N b m in rb_wf N b' \<and> length ys = min m (length (rb_list N b))
            \<and> rb_list N b = ys @ rb_list N b'"
    using ring.get_all_spec [OF wf] by (simp split: prod.splits)
  ultimately show ?thesis using 1 3 by simp
qed

theorem ring_is_queue_witness:
  "(let b = \<lparr>rb_data = (\<lambda>i. i + 7), readIndex = 2 ^ 64 - 2, writeIndex = (1::nat)\<rparr> in
     rb_wf 4 b \<and> rb_list 4 b = [9, 10, 7] \<and> fst (push_range 4 b [5, 6]) = 1)"
proof -
  define b :: "nat ring" where "b = \<lparr>rb_data = (\<lambda>i. i + 7), readIndex = 2 ^ 64 - 2, writeIndex = 1\<rparr>"
  have wf: "rb_wf 4 b"
    by (simp add: b_def rb_wf_def rb_size_def sub64_def u64_def)
  moreover have l: "rb_list 4 b = [9, 10, 7]"
    by (simp add: b_def rb_list_def rb_size_def sub64_def u64_def upt_rec)
  moreover have "fst (push_range 4 b [5, 6]) = 1"
    using ring_is_queue [OF wf, of 0 "[5, 6]" 0] by (simp add: l Let_def split: prod.splits)
  ultimately show ?thesis by (simp add: b_def)
qed


section \<open>One thread pushes, one thread pops\<close>

text \<open>
  \<open>push_back\<close> and \<open>pop_front\<close> as the sequence of their effects on the shared memory: finding the
  cell (the atomic loads of the two counters; a thread is the only one to change its own
  counter), the access to the cell, and the atomic addition that publishes it.  The loads
  acquire what the additions release, so an execution is an interleaving of these steps.
  \<open>sp_pushed\<close> and \<open>sp_popped\<close> record the values of the calls that have returned.
\<close>

datatype 'a producer = P_idle | P_reserved nat 'a | P_written 'a

datatype 'a consumer = C_idle | C_found nat | C_loaded 'a

record 'a spsc =
  sp_ring :: "'a ring"
  sp_prod :: "'a producer"
  sp_cons :: "'a consumer"
  sp_pushed :: "'a list"
  sp_popped :: "'a list"

inductive spsc_step :: "nat \<Rightarrow> 'a spsc \<Rightarrow> 'a spsc \<Rightarrow> bool" for N where
  reserve: "sp_prod s = P_idle \<Longrightarrow> write_ptr N (sp_ring s) 1 = (at, n) \<Longrightarrow> n \<noteq> 0 \<Longrightarrow>
     spsc_step N s (s\<lparr>sp_prod := P_reserved at v\<rparr>)"
| store: "sp_prod s = P_reserved at v \<Longrightarrow>
     spsc_step N s (s\<lparr>sp_ring := (sp_ring s)\<lparr>rb_data := (rb_data (sp_ring s))(at := v)\<rparr>, sp_prod := P_written v\<rparr>)"
| publish: "sp_prod s = P_written v \<Longrightarrow>
     spsc_step N s (s\<lparr>sp_ring := write_ptr_update 1 (sp_ring s), sp_prod := P_idle, sp_pushed := sp_pushed s @ [v]\<rparr>)"
| find: "sp_cons s = C_idle \<Longrightarrow> read_ptr N (sp_ring s) 1 = (at, n) \<Longrightarrow> n = 1 \<Longrightarrow>
     spsc_step N s (s\<lparr>sp_cons := C_found at\<rparr>)"
| load: "sp_cons s = C_found at \<Longrightarrow>
     spsc_step N s (s\<lparr>sp_cons := C_loaded (rb_data (sp_ring s) at)\<rparr>)"
| release: "sp_cons s = C_loaded x \<Longrightarrow>
     spsc_step N s (s\<lparr>sp_ring := read_ptr_update 1 (sp_ring s), sp_cons := C_idle, sp_popped := sp_popped s @ [x]\<rparr>)"

definition spsc_init :: "(nat \<Rightarrow> 'a) \<Rightarrow> 'a spsc" where
  "spsc_init garbage = \<lparr>sp_ring = rb_ctor garbage, sp_prod = P_idle, sp_cons = C_idle, sp_pushed = [], sp_popped = []\<rparr>"

text \<open>What holds between the steps: a thread in the middle of a call knows its cell.\<close>

definition producer_ok :: "nat \<Rightarrow> 'a ring \<Rightarrow> 'a producer \<Rightarrow> bool" where
  "producer_ok N b p \<longleftrightarrow> (case p of P_idle \<Rightarrow> True
     | P_reserved at v \<Rightarrow> at = writeIndex b mod N \<and> rb_size b < N
     | P_written v \<Rightarrow> rb_data b (writeIndex b mod N) = v \<and> rb_size b < N)"

definition consumer_ok :: "nat \<Rightarrow> 'a ring \<Rightarrow> 'a consumer \<Rightarrow> bool" where
  "consumer_ok N b c \<longleftrightarrow> (case c of C_idle \<Rightarrow> True
     | C_found at \<Rightarrow> at = readIndex b mod N \<and> rb_size b \<noteq> 0
     | C_loaded x \<Rightarrow> x = rb_data b (readIndex b mod N) \<and> rb_size b \<noteq> 0)"

definition spsc_inv :: "nat \<Rightarrow> 'a spsc \<Rightarrow> bool" where
  "spsc_inv N s \<longleftrightarrow> rb_wf N (sp_ring s) \<and> sp_pushed s = sp_popped s @ rb_list N (sp_ring s)
     \<and> producer_ok N (sp_ring s) (sp_prod s) \<and> consumer_ok N (sp_ring s) (sp_cons s)"

lemmas ring_thread_defs = producer_ok_def consumer_ok_def spsc_inv_def

lemma write_cell_free:
  assumes "rb_wf N b" "rb_size b < N" "j < rb_size b"
  shows "(readIndex b + j) mod N \<noteq> writeIndex b mod N"
  using ring_positions [of N j "rb_size b" 1 0 "readIndex b"] assms pos_less [OF assms(1)]
  by (auto simp: write_at rb_wf_def Suc_le_eq)

lemma store_free_cell:
  assumes "rb_wf N b" "rb_size b < N"
  shows "rb_list N (b\<lparr>rb_data := (rb_data b)(writeIndex b mod N := v)\<rparr>) = rb_list N b"
  using write_cell_free [OF assms] by (simp add: rb_list_def rb_size_def)

lemma one_fits: "0 < x \<Longrightarrow> 0 < y \<Longrightarrow> min 1 (min x y) = (1::nat)"
  by simp

lemma publish_cell:
  assumes wf: "rb_wf N b" and room: "rb_size b < N"
  shows "rb_list N (write_ptr_update 1 b) = rb_list N b @ [rb_data b (writeIndex b mod N)]"
proof -
  let ?v = "rb_data b (writeIndex b mod N)"
  obtain k b' where put: "put_batch N b [?v] = (k, b')" by force
  have "0 < N - rb_size b" "0 < N - writeIndex b mod N"
    using room pos_less [OF wf, of "writeIndex b"] by linarith+
  then have "min 1 (min (N - rb_size b) (N - writeIndex b mod N)) = 1" by (rule one_fits)
  then have k: "k = 1" using batch_fits [OF wf put] by simp
  have "(\<lambda>i. if writeIndex b mod N \<le> i \<and> i < writeIndex b mod N + 1 then [?v] ! (i - writeIndex b mod N) else rb_data b i)
      = rb_data b"
    by (auto simp: fun_eq_iff le_less_Suc_eq)
  then have "b' = write_ptr_update 1 b"
    using put k by (auto simp: put_batch_def write_ptr_def rb_ptr_def Let_def)
  with put_batch_elems [OF wf put] k show ?thesis by simp
qed

lemma release_cell:
  assumes wf: "rb_wf N b" and some: "rb_size b \<noteq> 0"
  shows "rb_list N b = rb_data b (readIndex b mod N) # rb_list N (read_ptr_update 1 b)"
proof -
  obtain ys b' where get: "get_batch N b 1 = (ys, b')" by force
  have "0 < N - readIndex b mod N"
    using pos_less [OF wf, of "readIndex b"] by linarith
  with some have "min 1 (min (rb_size b) (N - readIndex b mod N)) = 1"
    by (intro one_fits) simp_all
  then have "ys = [rb_data b (readIndex b mod N)]" "b' = read_ptr_update 1 b"
    using get by (auto simp: get_batch_def read_ptr_def rb_ptr_def Let_def)
  with get_batch_elems [OF wf get] show ?thesis by simp
qed

lemma spsc_inv_step: "spsc_step N s s' \<Longrightarrow> spsc_inv N s \<Longrightarrow> spsc_inv N s'"
proof (induction rule: spsc_step.induct)
  case (reserve s at n v)
  have wf: "rb_wf N (sp_ring s)" using reserve.prems by (simp add: spsc_inv_def)
  have "sub64 N (rb_size (sp_ring s)) = N - rb_size (sp_ring s)" "rb_size (sp_ring s) \<le> N"
    using wf by (auto simp: rb_wf_def sub64_cases)
  then have "rb_size (sp_ring s) < N"
    using reserve.hyps by (auto simp: write_ptr_def rb_ptr_def Let_def)
  with reserve show ?case by (auto simp: ring_thread_defs write_ptr_def rb_ptr_def Let_def)
next
  case (store s at v)
  let ?b = "sp_ring s"
  have wf: "rb_wf N ?b" and room: "rb_size ?b < N" and at: "at = writeIndex ?b mod N"
    using store by (auto simp: ring_thread_defs)
  have "readIndex ?b mod N \<noteq> writeIndex ?b mod N" if "rb_size ?b \<noteq> 0"
    using write_cell_free [OF wf room, of 0] that by simp
  then show ?case
    using store store_free_cell [OF wf room] at
    by (auto simp: ring_thread_defs rb_wf_def rb_size_def split: consumer.splits)
next
  case (publish s v)
  let ?b = "sp_ring s"
  have wf: "rb_wf N ?b" and room: "rb_size ?b < N" and v: "rb_data ?b (writeIndex ?b mod N) = v"
    using publish by (auto simp: ring_thread_defs)
  note moved = write_moves [OF wf, of 1]
  show ?case
    using publish publish_cell [OF wf room] moved room v
    by (auto simp: ring_thread_defs write_ptr_update_def split: consumer.splits)
next
  case (find s at n)
  then show ?case by (auto simp: ring_thread_defs read_ptr_def rb_ptr_def Let_def)
next
  case (load s at)
  then show ?case by (auto simp: ring_thread_defs)
next
  case (release s x)
  let ?b = "sp_ring s"
  have wf: "rb_wf N ?b" and some: "rb_size ?b \<noteq> 0" and x: "x = rb_data ?b (readIndex ?b mod N)"
    using release by (auto simp: ring_thread_defs)
  note moved = read_moves [OF wf, of 1]
  show ?case
    using release release_cell [OF wf some] moved some x
    by (auto simp: ring_thread_defs read_ptr_update_def split: producer.splits)
qed

text \<open>C12. One producer and one consumer on a ring buffer whose capacity divides \<open>2 ^ 64\<close>: in every
  reachable state, however their steps interleave, the values pushed so far are the values popped
  so far followed by the contents, which never exceed the capacity; and when one thread is about
  to write a cell and the other to read one, the cells are different.\<close>

theorem spsc_fifo:
  assumes "0 < N" "N dvd 2 ^ 64" "N < 2 ^ 64"
    and "(spsc_step N)\<^sup>*\<^sup>* (spsc_init garbage) s"
  shows "sp_pushed s = sp_popped s @ rb_list N (sp_ring s) \<and> length (rb_list N (sp_ring s)) \<le> N
    \<and> (\<forall>at v at'. sp_prod s = P_reserved at v \<longrightarrow> sp_cons s = C_found at' \<longrightarrow> at \<noteq> at')"
proof -
  have "spsc_inv N (spsc_init garbage)"
    using assms(1-3) by (simp add: ring_thread_defs spsc_init_def rb_ctor_def rb_wf_def rb_size_def sub64_def u64_def rb_list_def)
  with assms(4) have inv: "spsc_inv N s"
    by (induction rule: rtranclp_induct) (auto intro: spsc_inv_step)
  then have wf: "rb_wf N (sp_ring s)" by (simp add: spsc_inv_def)
  show ?thesis
    using inv wf write_cell_free [OF wf, of 0] by (auto simp: ring_thread_defs rb_wf_def)
qed

theorem spsc_fifo_witness:
  "\<exists>s. (spsc_step 4)\<^sup>*\<^sup>* (spsc_init (\<lambda>_. 0)) s \<and> sp_pushed s = [5::nat] \<and> sp_popped s = [] \<and> rb_list 4 (sp_ring s) = [5]"
proof -
  define s0 :: "nat spsc" where "s0 = spsc_init (\<lambda>_. 0)"
  define s1 where "s1 = s0\<lparr>sp_prod := P_reserved 0 5\<rparr>"
  define s2 where "s2 = s1\<lparr>sp_ring := (sp_ring s1)\<lparr>rb_data := (rb_data (sp_ring s1))(0 := 5)\<rparr>, sp_prod := P_written 5\<rparr>"
  define s3 where "s3 = s2\<lparr>sp_ring := write_ptr_update 1 (sp_ring s2), sp_prod := P_idle, sp_pushed := sp_pushed s2 @ [5]\<rparr>"
  have "spsc_step 4 s0 s1" unfolding s1_def
    by (rule spsc_step.reserve [where n = 1])
      (simp_all add: s0_def spsc_init_def rb_ctor_def write_ptr_def rb_ptr_def rb_size_def sub64_def u64_def)
  moreover have "spsc_step 4 s1 s2" unfolding s2_def by (rule spsc_step.store) (simp add: s1_def)
  moreover have "spsc_step 4 s2 s3" unfolding s3_def by (rule spsc_step.publish) (simp add: s2_def)
  ultimately have "(spsc_step 4)\<^sup>*\<^sup>* s0 s3" by (meson converse_rtranclp_into_rtranclp rtranclp.rtrancl_refl)
  moreover have "sp_pushed s3 = [5]" "sp_popped s3 = []"
    by (simp_all add: s3_def s2_def s1_def s0_def spsc_init_def)
  moreover from calculation have "rb_list 4 (sp_ring s3) = [5]"
    using spsc_fifo [of 4 "\<lambda>_. 0" s3] by (simp add: s0_def)
  ultimately show ?thesis unfolding s0_def by blast
qed

end
