(* ===== verification/Chunk_Vector.thy ===== *)
theory Chunk_Vector
  imports Ring_Buffer "HOL-Library.Monad_Syntax"
begin

text \<open>
  \<open>chunk_vector\<close> (\<open>Dots/ChunkVector.h\<close>, \<open>chunk_vector_base\<close> in \<open>Dots/Database.cpp\<close>), the vector most
  operations return their results in, and \<open>storage_t\<close>, the byte store of a command buffer
  (\<open>Dots/Codebase.h\<close>).  The elements, of \<open>sz\<close> bytes each, lie in chunks of 64 KB; an array of
  pointers leads to the chunks.  That array is a chunk of the pool at first and a block of the C
  heap once it has grown; \<open>chunkCapacity\<close>, its size in bytes, tells which of the two it is.

  \<open>cv_chunks\<close> are the contents of the chunks and \<open>cv_array\<close> is the size of the array that is
  really there.  \<open>None\<close> is an access outside of the array, a chunk that is not there, or memory
  that is returned to the wrong allocator.  \<open>g\<close> is what new chunks happen to contain.
\<close>

definition kChunkSize :: nat where "kChunkSize = 64 * 1024"

record cvec =
  cv_chunks :: "bmem list"
  cv_size :: nat
  cv_capacity :: nat
  cv_array :: "nat option"

definition cv_empty :: cvec where
  "cv_empty = \<lparr>cv_chunks = [], cv_size = 0, cv_capacity = kChunkSize, cv_array = None\<rparr>"

section \<open>chunk\_vector\_base\<close>

text \<open>Freeing the array: to the pool when the capacity is the initial one.\<close>

definition free_array :: "cvec \<Rightarrow> cvec option" where
  "free_array v =
     (case cv_array v of
        None \<Rightarrow> Some v
      | Some n \<Rightarrow> if (cv_capacity v = kChunkSize) = (n = kChunkSize) then Some (v\<lparr>cv_array := None\<rparr>) else None)"

definition cv_grow :: "(nat \<Rightarrow> bmem) \<Rightarrow> cvec \<Rightarrow> cvec option" where
  "cv_grow g v =
     (let n = length (cv_chunks v);
          v1 = (if cv_array v = None then v\<lparr>cv_array := Some kChunkSize\<rparr> else v) in do {
        v2 \<leftarrow> (if n * 8 \<ge> cv_capacity v1 then
                let oldCap = cv_capacity v1 in
                if the (cv_array v1) < oldCap then None
                else map_option (\<lambda>v. v\<lparr>cv_capacity := oldCap * 2, cv_array := Some (oldCap * 2)\<rparr>) (free_array v1)
              else Some v1);
        if n * 8 + 8 \<le> the (cv_array v2) then Some (v2\<lparr>cv_chunks := cv_chunks v2 @ [g n]\<rparr>) else None
      })"

definition cv_shrink_by :: "nat \<Rightarrow> cvec \<Rightarrow> cvec option" where
  "cv_shrink_by n v =
     (if n \<le> length (cv_chunks v) then
        let v1 = v\<lparr>cv_chunks := take (length (cv_chunks v) - n) (cv_chunks v)\<rparr>
        in if cv_array v1 \<noteq> None \<and> cv_chunks v1 = [] then free_array v1 else Some v1
      else None)"

definition cv_reset :: "cvec \<Rightarrow> cvec option" where
  "cv_reset v = map_option (\<lambda>v'. v'\<lparr>cv_size := 0\<rparr>) (cv_shrink_by (length (cv_chunks v)) v)"

text \<open>\<open>flatten\<close> to address \<open>dst\<close> of a memory; \<open>zero\<close>.\<close>

fun flatten_chunks :: "bmem list \<Rightarrow> nat \<Rightarrow> nat \<Rightarrow> bmem \<Rightarrow> bmem" where
  "flatten_chunks [] remainSize dst m = m"
| "flatten_chunks (c # cs) remainSize dst m =
     (let sizeToCopy = min kChunkSize remainSize
      in flatten_chunks cs (remainSize - sizeToCopy) (dst + sizeToCopy) (memcpy m dst c 0 sizeToCopy))"

definition cv_flatten :: "nat \<Rightarrow> nat \<Rightarrow> cvec \<Rightarrow> bmem \<Rightarrow> bmem" where
  "cv_flatten sz dst v m = flatten_chunks (cv_chunks v) (cv_size v * sz) dst m"

fun zero_chunks :: "bmem list \<Rightarrow> nat \<Rightarrow> bmem list" where
  "zero_chunks [] remainSize = []"
| "zero_chunks (c # cs) remainSize =
     (let sizeToCopy = min kChunkSize remainSize in memset c 0 0 sizeToCopy # zero_chunks cs (remainSize - sizeToCopy))"

definition cv_zero :: "nat \<Rightarrow> cvec \<Rightarrow> cvec" where
  "cv_zero sz v = v\<lparr>cv_chunks := zero_chunks (cv_chunks v) (cv_size v * sz)\<rparr>"

text \<open>The constructors and the move assignment: none of them takes over \<open>chunkCapacity\<close>.\<close>

definition cv_move :: "cvec \<Rightarrow> cvec \<times> cvec" where
  "cv_move r = (r\<lparr>cv_capacity := kChunkSize\<rparr>, r\<lparr>cv_chunks := [], cv_size := 0, cv_array := None\<rparr>)"

definition cv_copy :: "cvec \<Rightarrow> cvec" where
  "cv_copy r = \<lparr>cv_chunks = cv_chunks r, cv_size = cv_size r, cv_capacity = kChunkSize,
     cv_array = (if cv_chunks r = [] then None else Some (if cv_capacity r = kChunkSize then kChunkSize else cv_capacity r))\<rparr>"

definition cv_assign :: "cvec \<Rightarrow> cvec \<Rightarrow> (cvec \<times> cvec) option" where
  "cv_assign v r = map_option (\<lambda>v'. (r\<lparr>cv_capacity := cv_capacity v'\<rparr>, r\<lparr>cv_chunks := [], cv_size := 0, cv_array := None\<rparr>)) (cv_reset v)"

section \<open>chunk\_vector\<close>

definition per_chunk :: "nat \<Rightarrow> nat" where
  "per_chunk sz = kChunkSize div sz"

definition cv_get :: "nat \<Rightarrow> cvec \<Rightarrow> nat \<Rightarrow> byte list" where
  "cv_get sz v i = map (\<lambda>b. (cv_chunks v ! (i div per_chunk sz)) (i mod per_chunk sz * sz + b)) [0..<sz]"

definition cv_elems :: "nat \<Rightarrow> cvec \<Rightarrow> byte list list" where
  "cv_elems sz v = map (cv_get sz v) [0..<cv_size v]"

definition cv_last :: "nat \<Rightarrow> cvec \<Rightarrow> byte list" where
  "cv_last sz v = cv_get sz v (sub64 (cv_size v) 1)"

definition cv_shrink :: "nat \<Rightarrow> cvec \<Rightarrow> cvec option" where
  "cv_shrink sz v = cv_shrink_by (sub64 (length (cv_chunks v)) (u64 (cv_size v + per_chunk sz - 1) div per_chunk sz)) v"

partial_function (option) cv_reserve :: "nat \<Rightarrow> (nat \<Rightarrow> bmem) \<Rightarrow> nat \<Rightarrow> cvec \<Rightarrow> cvec option" where
  "cv_reserve sz g n v =
     (if n > length (cv_chunks v) * per_chunk sz then Option.bind (cv_grow g v) (cv_reserve sz g n) else Some v)"

definition cv_resize :: "nat \<Rightarrow> (nat \<Rightarrow> bmem) \<Rightarrow> nat \<Rightarrow> cvec \<Rightarrow> cvec option" where
  "cv_resize sz g newSize v =
     (let v1 = v\<lparr>cv_size := newSize\<rparr>
      in if newSize > length (cv_chunks v1) * per_chunk sz then cv_reserve sz g newSize v1 else cv_shrink sz v1)"

definition cv_push :: "nat \<Rightarrow> (nat \<Rightarrow> bmem) \<Rightarrow> byte list \<Rightarrow> cvec \<Rightarrow> cvec option" where
  "cv_push sz g x v = do {
     v1 \<leftarrow> (if cv_size v \<ge> length (cv_chunks v) * per_chunk sz then cv_grow g v else Some v);
     let c = cv_size v1 div per_chunk sz;
     let at = cv_size v1 mod per_chunk sz * sz;
     Some (v1\<lparr>cv_chunks := (cv_chunks v1)[c := memcpy (cv_chunks v1 ! c) at (\<lambda>i. x ! i) 0 sz], cv_size := u64 (cv_size v1 + 1)\<rparr>)
   }"

definition cv_pop :: "nat \<Rightarrow> cvec \<Rightarrow> cvec option" where
  "cv_pop sz v = cv_shrink sz (v\<lparr>cv_size := sub64 (cv_size v) 1\<rparr>)"

section \<open>Byte storage\<close>

text \<open>\<open>storage_t::push\<close>: the chunk and the offset of \<open>ds\<close> new bytes.  When they do not fit it goes
  on with chunk number \<open>chunkSize + 1\<close>, as it is before the vector grows.\<close>

definition storage_push :: "(nat \<Rightarrow> bmem) \<Rightarrow> nat \<Rightarrow> cvec \<Rightarrow> ((nat \<times> nat) \<times> cvec) option" where
  "storage_push g ds v = do {
     v1 \<leftarrow> (if length (cv_chunks v) = 0 then cv_grow g v else Some v);
     let indexInChunk = cv_size v1 mod kChunkSize;
     (indexInChunk, v2) \<leftarrow>
        (if indexInChunk + ds \<ge> kChunkSize
         then map_option (\<lambda>v. (0, v)) (cv_grow g (v1\<lparr>cv_size := (length (cv_chunks v1) + 1) * kChunkSize\<rparr>))
         else Some (indexInChunk, v1));
     let c = cv_size v2 div kChunkSize;
     if c < length (cv_chunks v2) then Some ((c, indexInChunk), v2\<lparr>cv_size := cv_size v2 + ds\<rparr>) else None
   }"


section \<open>Vectors\<close>

text \<open>What the users of a vector rely on: it is a list with room for \<open>room\<close> elements.\<close>

locale vector =
  fixes room :: nat
    and inv :: "'v \<Rightarrow> bool"
    and elem :: "'a \<Rightarrow> bool"
    and elems :: "'v \<Rightarrow> 'a list"
    and push :: "'a \<Rightarrow> 'v \<Rightarrow> 'v option"
    and pop :: "'v \<Rightarrow> 'v option"
  assumes push_elems: "inv v \<Longrightarrow> elem x \<Longrightarrow> length (elems v) < room \<Longrightarrow>
      \<exists>v'. push x v = Some v' \<and> inv v' \<and> elems v' = elems v @ [x]"
    and pop_elems: "inv v \<Longrightarrow> elems v \<noteq> [] \<Longrightarrow> \<exists>v'. pop v = Some v' \<and> inv v' \<and> elems v' = butlast (elems v)"
begin

lemma push_all:
  assumes "inv v" "\<forall>x\<in>set xs. elem x" "length (elems v) + length xs \<le> room"
  shows "\<exists>v'. fold (\<lambda>x o'. Option.bind o' (push x)) xs (Some v) = Some v' \<and> inv v' \<and> elems v' = elems v @ xs"
  using assms
proof (induction xs arbitrary: v)
  case (Cons x xs)
  obtain v1 where "push x v = Some v1" "inv v1" "elems v1 = elems v @ [x]"
    using push_elems [of v x] Cons.prems by auto
  with Cons.IH [of v1] Cons.prems show ?case by simp
qed simp

lemma pop_all:
  assumes "inv v" "n \<le> length (elems v)"
  shows "\<exists>v'. ((\<lambda>o'. Option.bind o' pop) ^^ n) (Some v) = Some v' \<and> inv v' \<and> elems v' = take (length (elems v) - n) (elems v)"
  using assms
proof (induction n)
  case (Suc n)
  then obtain v1 where v1: "((\<lambda>o'. Option.bind o' pop) ^^ n) (Some v) = Some v1" "inv v1"
      "elems v1 = take (length (elems v) - n) (elems v)" by auto
  moreover have "elems v1 \<noteq> []" using v1(3) Suc.prems by auto
  ultimately obtain v2 where "pop v1 = Some v2" "inv v2" "elems v2 = butlast (elems v1)"
    using pop_elems by blast
  with v1 Suc.prems show ?case by (auto simp: butlast_take)
qed simp

end

section \<open>The chunk vector is a vector\<close>

text \<open>As long as the array of pointers has not grown: 8192 chunks.\<close>

definition max_chunks :: nat where "max_chunks = 8192"

definition chunks_for :: "nat \<Rightarrow> nat \<Rightarrow> nat" where
  "chunks_for sz n = (n + per_chunk sz - 1) div per_chunk sz"

definition cv_base :: "cvec \<Rightarrow> bool" where
  "cv_base v \<longleftrightarrow> length (cv_chunks v) \<le> max_chunks \<and> cv_capacity v = kChunkSize
     \<and> cv_array v = (if cv_chunks v = [] then None else Some kChunkSize)"

definition cv_wf :: "nat \<Rightarrow> cvec \<Rightarrow> bool" where
  "cv_wf sz v \<longleftrightarrow> 0 < sz \<and> sz \<le> kChunkSize \<and> cv_base v \<and> length (cv_chunks v) = chunks_for sz (cv_size v)"

lemma per_chunk_pos: "0 < sz \<Longrightarrow> sz \<le> kChunkSize \<Longrightarrow> 0 < per_chunk sz"
  by (simp add: per_chunk_def div_greater_zero_iff)

lemma per_chunk_le: "per_chunk sz \<le> kChunkSize"
  by (simp add: per_chunk_def)

lemma chunks_for_le:
  assumes "0 < sz" "sz \<le> kChunkSize"
  shows "chunks_for sz n \<le> m \<longleftrightarrow> n \<le> m * per_chunk sz"
proof -
  have "chunks_for sz n < Suc m \<longleftrightarrow> n + per_chunk sz - 1 < Suc m * per_chunk sz"
    unfolding chunks_for_def using per_chunk_pos [OF assms] by (simp add: div_less_iff_less_mult)
  then show ?thesis using per_chunk_pos [OF assms] by auto
qed

lemma chunks_for_step:
  assumes "0 < sz" "sz \<le> kChunkSize" "n \<le> chunks_for sz n * per_chunk sz"
  shows "chunks_for sz (Suc n) = (if n = chunks_for sz n * per_chunk sz then Suc (chunks_for sz n) else chunks_for sz n)"
proof -
  have le: "chunks_for sz (Suc n) \<le> m \<longleftrightarrow> Suc n \<le> m * per_chunk sz" "chunks_for sz n \<le> m \<longleftrightarrow> n \<le> m * per_chunk sz" for m
    using chunks_for_le [OF assms(1,2)] by simp_all
  have "chunks_for sz n \<le> chunks_for sz (Suc n)" using le(2) [of "chunks_for sz (Suc n)"] le(1) [of "chunks_for sz (Suc n)"] by simp
  moreover have "chunks_for sz (Suc n) \<le> Suc (chunks_for sz n)"
    using le(1) [of "Suc (chunks_for sz n)"] assms(3) per_chunk_pos [OF assms(1,2)] by simp
  ultimately show ?thesis
    using le(1) [of "chunks_for sz n"] assms(3) by (auto simp: le_Suc_eq)
qed

lemma cv_size_fits: "cv_wf sz v \<Longrightarrow> cv_size v \<le> length (cv_chunks v) * per_chunk sz"
  using chunks_for_le [of sz "cv_size v" "length (cv_chunks v)"] by (simp add: cv_wf_def)

lemma cv_size_bound: "length (cv_chunks v) \<le> max_chunks \<Longrightarrow> n \<le> length (cv_chunks v) * per_chunk sz \<Longrightarrow> n + per_chunk sz < 2 ^ 64"
proof -
  assume "length (cv_chunks v) \<le> max_chunks" and n: "n \<le> length (cv_chunks v) * per_chunk sz"
  then have "length (cv_chunks v) * per_chunk sz \<le> max_chunks * kChunkSize"
    using mult_le_mono [OF _ per_chunk_le] by simp
  with n show ?thesis using per_chunk_le [of sz] by (simp add: max_chunks_def kChunkSize_def)
qed

lemma cv_grow_ok:
  assumes "cv_base v" "length (cv_chunks v) < max_chunks"
  shows "cv_grow g v = Some (v\<lparr>cv_chunks := cv_chunks v @ [g (length (cv_chunks v))], cv_array := Some kChunkSize\<rparr>)"
  using assms by (auto simp: cv_grow_def cv_base_def Let_def max_chunks_def kChunkSize_def)

lemma cv_shrink_ok:
  assumes base: "cv_base v" and sz: "0 < sz" "sz \<le> kChunkSize" and n: "cv_size v \<le> length (cv_chunks v) * per_chunk sz"
  shows "\<exists>v'. cv_shrink sz v = Some v' \<and> cv_wf sz v' \<and> cv_size v' = cv_size v
     \<and> cv_chunks v' = take (chunks_for sz (cv_size v)) (cv_chunks v)"
proof -
  let ?m = "chunks_for sz (cv_size v)" and ?n = "length (cv_chunks v)"
  have len: "?n \<le> max_chunks" using base by (simp add: cv_base_def)
  have m: "?m \<le> ?n" using chunks_for_le [OF sz] n by simp
  have "u64 (cv_size v + per_chunk sz - 1) div per_chunk sz = ?m"
    using cv_size_bound [OF len n] by (simp add: u64_def chunks_for_def)
  moreover have "sub64 ?n ?m = ?n - ?m"
    using m len by (simp add: sub64_cases max_chunks_def)
  ultimately have "cv_shrink sz v = cv_shrink_by (?n - ?m) v" by (simp add: cv_shrink_def)
  with base m sz show ?thesis
    by (auto simp: cv_shrink_by_def Let_def cv_base_def cv_wf_def free_array_def)
qed

text \<open>A cell does not meet the cells of other elements.\<close>

lemma cell_apart:
  assumes "i mod k \<noteq> j mod k" "b < (sz::nat)"
  shows "\<not> (j mod k * sz \<le> i mod k * sz + b \<and> i mod k * sz + b < j mod k * sz + sz)"
proof
  assume *: "j mod k * sz \<le> i mod k * sz + b \<and> i mod k * sz + b < j mod k * sz + sz"
  then have "(i mod k * sz + b) div sz = j mod k"
    by (intro div_nat_eqI) (auto simp: mult.commute add_mult_distrib)
  moreover have "(i mod k * sz + b) div sz = i mod k" using assms(2) by simp
  ultimately show False using assms(1) by simp
qed

lemma cv_get_write:
  assumes "0 < per_chunk sz" "j div per_chunk sz < length (cv_chunks v)" "length x = sz"
  shows "cv_get sz (v\<lparr>cv_chunks := (cv_chunks v)[j div per_chunk sz := memcpy (cv_chunks v ! (j div per_chunk sz))
      (j mod per_chunk sz * sz) (\<lambda>i. x ! i) 0 sz], cv_size := n\<rparr>) i = (if i = j then x else cv_get sz v i)"
proof (cases "i = j")
  case True
  then show ?thesis using assms by (auto simp: cv_get_def memcpy_def intro!: nth_equalityI)
next
  case False
  then have "i div per_chunk sz \<noteq> j div per_chunk sz \<or> i mod per_chunk sz \<noteq> j mod per_chunk sz"
    by (metis div_mult_mod_eq)
  then show ?thesis
    using False assms cell_apart [of i "per_chunk sz" j _ sz]
    by (cases "i div per_chunk sz = j div per_chunk sz") (auto simp: cv_get_def memcpy_def)
qed

lemma cv_push_ok:
  assumes wf: "cv_wf sz v" and x: "length x = sz" and room: "cv_size v < max_chunks * per_chunk sz"
  shows "\<exists>v'. cv_push sz g x v = Some v' \<and> cv_wf sz v' \<and> cv_elems sz v' = cv_elems sz v @ [x]"
proof -
  let ?K = "per_chunk sz" and ?n = "length (cv_chunks v)" and ?s = "cv_size v"
  have sz: "0 < sz" "sz \<le> kChunkSize" and base: "cv_base v" and n: "?n = chunks_for sz ?s"
    using wf by (simp_all add: cv_wf_def)
  have K: "0 < ?K" using per_chunk_pos sz by simp
  have fits: "?s \<le> ?n * ?K" by (rule cv_size_fits [OF wf])
  have len: "?n \<le> max_chunks" using base by (simp add: cv_base_def)
  have small: "?s + 1 < 2 ^ 64" using cv_size_bound [OF len fits] K by simp
  define v1 where "v1 = (if ?s \<ge> ?n * ?K then v\<lparr>cv_chunks := cv_chunks v @ [g ?n], cv_array := Some kChunkSize\<rparr> else v)"
  have grown: "(if ?s \<ge> ?n * ?K then cv_grow g v else Some v) = Some v1"
  proof (cases "?s \<ge> ?n * ?K")
    case True
    then have "?n < max_chunks" using room fits by (metis le_antisym mult_less_cancel2)
    then show ?thesis using cv_grow_ok [OF base] True by (simp add: v1_def)
  qed (simp add: v1_def)
  have step: "chunks_for sz (Suc ?s) = (if ?s = ?n * ?K then Suc ?n else ?n)"
    using chunks_for_step [OF sz, of ?s] fits n by simp
  then have n1: "length (cv_chunks v1) = chunks_for sz (Suc ?s)" using fits by (auto simp: v1_def)
  then have s1: "?s div ?K < length (cv_chunks v1)"
    using chunks_for_le [OF sz, of "Suc ?s" "length (cv_chunks v1)"] K by (simp add: div_less_iff_less_mult)
  have same: "cv_get sz v1 i = cv_get sz v i" if "i < ?s" for i
  proof -
    have "i div ?K < ?n" using that fits K by (simp add: div_less_iff_less_mult)
    then show ?thesis by (simp add: v1_def cv_get_def nth_append)
  qed
  have max1: "length (cv_chunks v1) \<le> max_chunks"
    using n1 chunks_for_le [OF sz] room by simp
  let ?v = "v1\<lparr>cv_chunks := (cv_chunks v1)[?s div ?K := memcpy (cv_chunks v1 ! (?s div ?K)) (?s mod ?K * sz) (\<lambda>i. x ! i) 0 sz],
      cv_size := Suc ?s\<rparr>"
  have "cv_push sz g x v = Some ?v"
    using grown small by (simp add: cv_push_def Let_def v1_def wrap_simps)
  moreover have "cv_wf sz ?v"
    using base n1 max1 sz by (auto simp: cv_wf_def cv_base_def v1_def)
  moreover have "cv_elems sz ?v = cv_elems sz v @ [x]"
    unfolding cv_elems_def using cv_get_write [OF K s1 x] same by simp
  ultimately show ?thesis by blast
qed

lemma cv_elems_take:
  assumes "cv_chunks v' = take (chunks_for sz n) (cv_chunks v)" "0 < sz" "sz \<le> kChunkSize" "i < n"
  shows "cv_get sz v' i = cv_get sz v i"
proof -
  have "n \<le> chunks_for sz n * per_chunk sz" using chunks_for_le [OF assms(2,3)] by blast
  then have "i div per_chunk sz < chunks_for sz n"
    using assms(4) per_chunk_pos [OF assms(2,3)] by (simp add: div_less_iff_less_mult)
  then show ?thesis using assms(1) by (simp add: cv_get_def)
qed

lemma cv_pop_ok:
  assumes wf: "cv_wf sz v" and some: "cv_size v \<noteq> 0"
  shows "\<exists>v'. cv_pop sz v = Some v' \<and> cv_wf sz v' \<and> cv_elems sz v' = butlast (cv_elems sz v)"
proof -
  let ?v = "v\<lparr>cv_size := cv_size v - 1\<rparr>"
  have sz: "0 < sz" "sz \<le> kChunkSize" and base: "cv_base v" and len: "length (cv_chunks v) \<le> max_chunks"
    using wf by (simp_all add: cv_wf_def cv_base_def)
  have fits: "cv_size v \<le> length (cv_chunks v) * per_chunk sz" by (rule cv_size_fits [OF wf])
  have "sub64 (cv_size v) 1 = cv_size v - 1"
    using cv_size_bound [OF len fits] some by (simp add: sub64_cases)
  then have "cv_pop sz v = cv_shrink sz ?v" by (simp add: cv_pop_def)
  moreover have less: "cv_size v - Suc 0 \<le> length (cv_chunks v) * per_chunk sz" using fits by linarith
  moreover obtain v' where v': "cv_shrink sz ?v = Some v'" "cv_wf sz v'" "cv_size v' = cv_size v - 1"
      "cv_chunks v' = take (chunks_for sz (cv_size v - 1)) (cv_chunks v)"
    using cv_shrink_ok [of ?v sz] base sz less by (auto simp: cv_base_def)
  moreover have "cv_elems sz v' = butlast (cv_elems sz v)"
    using cv_elems_take [OF v'(4) sz] v'(3) some by (cases "cv_size v") (auto simp: cv_elems_def)
  ultimately show ?thesis by auto
qed


text \<open>\<open>reserve\<close> ends and adds the chunks that are missing.\<close>

lemma cv_reserve_ok:
  assumes "cv_base v" "0 < sz" "sz \<le> kChunkSize" "n \<le> max_chunks * per_chunk sz"
  shows "\<exists>v'. cv_reserve sz g n v = Some v' \<and> cv_base v' \<and> cv_size v' = cv_size v
     \<and> length (cv_chunks v') = max (length (cv_chunks v)) (chunks_for sz n)
     \<and> take (length (cv_chunks v)) (cv_chunks v') = cv_chunks v"
  using assms(1)
proof (induction "chunks_for sz n - length (cv_chunks v)" arbitrary: v)
  case 0
  then have "n \<le> length (cv_chunks v) * per_chunk sz"
    using chunks_for_le [OF assms(2,3), of n "length (cv_chunks v)"] by simp
  with 0 show ?case by (subst cv_reserve.simps) auto
next
  case (Suc d)
  have "\<not> chunks_for sz n \<le> length (cv_chunks v)" using Suc.hyps(2) by simp
  then have more: "length (cv_chunks v) * per_chunk sz < n"
    using chunks_for_le [OF assms(2,3)] by (simp add: not_le)
  have "chunks_for sz n \<le> max_chunks" using chunks_for_le [OF assms(2,3)] assms(4) by simp
  then have room: "length (cv_chunks v) < max_chunks" using Suc.hyps(2) by simp
  let ?v1 = "v\<lparr>cv_chunks := cv_chunks v @ [g (length (cv_chunks v))], cv_array := Some kChunkSize\<rparr>"
  have base1: "cv_base ?v1" using Suc.prems room by (simp add: cv_base_def)
  have "cv_reserve sz g n v = cv_reserve sz g n ?v1"
    using more cv_grow_ok [OF Suc.prems room, of g] by (subst cv_reserve.simps) simp
  moreover have d: "d = chunks_for sz n - length (cv_chunks ?v1)" using Suc.hyps(2) by simp
  moreover obtain v' where v': "cv_reserve sz g n ?v1 = Some v'" "cv_base v'" "cv_size v' = cv_size v"
      "length (cv_chunks v') = max (Suc (length (cv_chunks v))) (chunks_for sz n)"
      "take (Suc (length (cv_chunks v))) (cv_chunks v') = cv_chunks v @ [g (length (cv_chunks v))]"
    using Suc.hyps(1) [OF _ base1] d by auto
  moreover have "take (length (cv_chunks v)) (cv_chunks v') = cv_chunks v"
    using v'(5) by (metis append_eq_conv_conj min_def n_not_Suc_n nle_le not_less_eq_eq take_take)
  ultimately show ?case using Suc.hyps(2) by auto
qed

lemma cv_resize_ok:
  assumes wf: "cv_wf sz v" and room: "n \<le> max_chunks * per_chunk sz"
  shows "\<exists>v'. cv_resize sz g n v = Some v' \<and> cv_wf sz v' \<and> cv_size v' = n
     \<and> take (cv_size v) (cv_elems sz v') = take n (cv_elems sz v)"
proof -
  let ?v = "v\<lparr>cv_size := n\<rparr>"
  have sz: "0 < sz" "sz \<le> kChunkSize" and base: "cv_base ?v" and len: "length (cv_chunks v) = chunks_for sz (cv_size v)"
    using wf by (simp_all add: cv_wf_def cv_base_def)
  have "take (cv_size v) (cv_elems sz v') = take n (cv_elems sz v)"
    if "cv_size v' = n" "\<And>i. i < n \<Longrightarrow> i < cv_size v \<Longrightarrow> cv_get sz v' i = cv_get sz v i" for v'
    using that by - (rule nth_equalityI, auto simp: cv_elems_def)
  note same = this
  show ?thesis
  proof (cases "n > length (cv_chunks v) * per_chunk sz")
    case True
    then have more: "length (cv_chunks v) < chunks_for sz n"
      using chunks_for_le [OF sz, of n "length (cv_chunks v)"] by simp
    obtain v' where v': "cv_reserve sz g n ?v = Some v'" "cv_base v'" "cv_size v' = n"
        "length (cv_chunks v') = max (length (cv_chunks v)) (chunks_for sz n)"
        "take (length (cv_chunks v)) (cv_chunks v') = cv_chunks v"
      using cv_reserve_ok [OF base sz room, of g] by auto
    have "cv_get sz v' i = cv_get sz v i" if "i < cv_size v" for i
      using cv_elems_take [of v sz "cv_size v" v' i] that sz v'(5) len by simp
    then show ?thesis
      using True v' more sz same [of v'] by (auto simp: cv_resize_def Let_def cv_wf_def)
  next
    case False
    then obtain v' where v': "cv_shrink sz ?v = Some v'" "cv_wf sz v'" "cv_size v' = n"
        "cv_chunks v' = take (chunks_for sz n) (cv_chunks v)"
      using cv_shrink_ok [OF base sz] by auto
    then show ?thesis
      using False same [of v'] cv_elems_take [OF v'(4) sz] by (auto simp: cv_resize_def Let_def)
  qed
qed

interpretation cv: vector "max_chunks * per_chunk sz" "cv_wf sz" "\<lambda>x. length x = sz" "cv_elems sz" "cv_push sz g" "cv_pop sz"
  for sz g
proof
  show "\<exists>v'. cv_push sz g x v = Some v' \<and> cv_wf sz v' \<and> cv_elems sz v' = cv_elems sz v @ [x]"
    if "cv_wf sz v" "length x = sz" "length (cv_elems sz v) < max_chunks * per_chunk sz" for v x
    using cv_push_ok [OF that(1,2)] that(3) by (simp add: cv_elems_def)
  show "\<exists>v'. cv_pop sz v = Some v' \<and> cv_wf sz v' \<and> cv_elems sz v' = butlast (cv_elems sz v)"
    if "cv_wf sz v" "cv_elems sz v \<noteq> []" for v
    using cv_pop_ok [OF that(1)] that(2) by (simp add: cv_elems_def)
qed

text \<open>\<open>flatten\<close> copies whole chunks, which are elements end to end when the size of an element
  divides the size of a chunk.\<close>

lemma flatten_chunks_bytes:
  "i < n \<Longrightarrow> n \<le> length cs * kChunkSize \<Longrightarrow>
     flatten_chunks cs n dst m (dst + i) = (cs ! (i div kChunkSize)) (i mod kChunkSize)"
proof (induction cs n dst m arbitrary: i rule: flatten_chunks.induct)
  case (2 c cs n dst m)
  have out: "flatten_chunks cs k d m' a = m' a" if "a < d" for k d m' a
    using that by (induction cs k d m' rule: flatten_chunks.induct) (auto simp: Let_def memcpy_def)
  have k0: "0 < kChunkSize" by (simp add: kChunkSize_def)
  show ?case
  proof (cases "i < kChunkSize")
    case True
    then show ?thesis using 2(2) by (simp add: Let_def out memcpy_def)
  next
    case False
    then obtain j where j: "i = kChunkSize + j" by (auto simp: not_less le_iff_add)
    have "flatten_chunks cs (n - kChunkSize) (dst + kChunkSize) (memcpy m dst c 0 kChunkSize) (dst + kChunkSize + j)
        = (cs ! (j div kChunkSize)) (j mod kChunkSize)"
      using "2.IH" [OF refl, of j] "2.prems" j by (simp add: min_def split: if_splits)
    moreover have "min kChunkSize n = kChunkSize" using "2.prems"(1) j by simp
    ultimately show ?thesis using j k0 by (simp add: Let_def add.assoc div_add_self1)
  qed
qed simp


lemma cv_flatten_ok:
  assumes wf: "cv_wf sz v" and dvd: "sz dvd kChunkSize" and b: "b < cv_size v * sz"
  shows "cv_flatten sz dst v m (dst + b) = concat (cv_elems sz v) ! b"
proof -
  have sz: "0 < sz" and K: "per_chunk sz * sz = kChunkSize" "0 < per_chunk sz"
    using wf dvd per_chunk_pos by (auto simp: cv_wf_def per_chunk_def)
  define i o' where "i = b div sz" and "o' = b mod sz"
  have i: "i < cv_size v" "o' < sz" "b = i * sz + o'"
    using b sz by (auto simp: i_def o'_def div_less_iff_less_mult)
  have "cv_size v * sz \<le> length (cv_chunks v) * kChunkSize"
    using cv_size_fits [OF wf] K(1) by (metis mult.assoc mult_le_mono1)
  then have "cv_flatten sz dst v m (dst + b) = (cv_chunks v ! (b div kChunkSize)) (b mod kChunkSize)"
    using flatten_chunks_bytes [OF b] by (simp add: cv_flatten_def)
  moreover have "b div kChunkSize = i div per_chunk sz"
    unfolding K(1) [symmetric] i_def by (metis div_mult2_eq mult.commute)
  moreover have "b mod kChunkSize = i mod per_chunk sz * sz + o'"
    unfolding K(1) [symmetric] i_def o'_def by (metis mod_mult2_eq mult.commute add.commute)
  moreover have "concat (map (cv_get sz v) [0..<n]) ! (i * sz + o') = cv_get sz v i ! o'" if "i < n" for n
    using that
  proof (induction n)
    case (Suc n)
    have len: "length (concat (map (cv_get sz v) [0..<k])) = k * sz" for k
      by (induction k) (auto simp: cv_get_def)
    show ?case
    proof (cases "i = n")
      case True
      then show ?thesis using len [of n] by (simp add: nth_append)
    next
      case False
      then have "i * sz + o' < n * sz"
        using Suc.prems i(2) by (metis add.commute add_less_cancel_left less_SucE less_le_trans mult_Suc mult_le_mono1 Suc_leI)
      then show ?thesis using len [of n] Suc False by (simp add: nth_append)
    qed
  qed simp
  ultimately show ?thesis using i by (simp add: cv_elems_def cv_get_def)
qed

lemma cv_reset_ok: "cv_wf sz v \<Longrightarrow> cv_reset v = Some cv_empty"
  by (auto simp: cv_reset_def cv_shrink_by_def Let_def cv_wf_def cv_base_def free_array_def cv_empty_def)

lemma cv_empty_wf: "0 < sz \<Longrightarrow> sz \<le> kChunkSize \<Longrightarrow> cv_wf sz cv_empty"
  using chunks_for_le [of sz 0 0] by (simp add: cv_wf_def cv_empty_def cv_base_def)

section \<open>Correctness of the chunk vector\<close>

text \<open>C17. Up to 8192 chunks a \<open>chunk_vector\<close> of elements of \<open>sz\<close> bytes is a list: a new vector is
  empty, any number of \<open>push\<close>es appends, any number of \<open>pop\<close>s takes from the end, \<open>resize\<close> keeps the
  elements both sizes have, \<open>operator[]\<close> and the iterators read the list, \<open>reset\<close> empties it; none
  of them touches memory it does not own.  When the element size divides the chunk size, \<open>flatten\<close>
  writes the elements end to end.\<close>

theorem chunk_vector_is_list:
  assumes wf: "cv_wf sz v" and xs: "\<forall>x\<in>set xs. length x = sz"
    and room: "cv_size v + length xs \<le> max_chunks * per_chunk sz" and k: "k \<le> cv_size v"
    and n: "n \<le> max_chunks * per_chunk sz"
  shows "cv_elems sz cv_empty = [] \<and> cv_wf sz cv_empty
    \<and> (\<exists>v'. fold (\<lambda>x o'. Option.bind o' (cv_push sz g x)) xs (Some v) = Some v' \<and> cv_wf sz v' \<and> cv_elems sz v' = cv_elems sz v @ xs)
    \<and> (\<exists>v'. ((\<lambda>o'. Option.bind o' (cv_pop sz)) ^^ k) (Some v) = Some v' \<and> cv_wf sz v'
          \<and> cv_elems sz v' = take (cv_size v - k) (cv_elems sz v))
    \<and> (\<exists>v'. cv_resize sz g n v = Some v' \<and> cv_wf sz v' \<and> length (cv_elems sz v') = n
          \<and> take (cv_size v) (cv_elems sz v') = take n (cv_elems sz v))
    \<and> (\<forall>i<cv_size v. cv_get sz v i = cv_elems sz v ! i) \<and> cv_reset v = Some cv_empty
    \<and> (sz dvd kChunkSize \<longrightarrow> (\<forall>b<cv_size v * sz. cv_flatten sz dst v m (dst + b) = concat (cv_elems sz v) ! b))"
proof -
  have sz: "0 < sz" "sz \<le> kChunkSize" using wf by (simp_all add: cv_wf_def)
  have len: "length (cv_elems sz v) = cv_size v" for v by (simp add: cv_elems_def)
  have "\<exists>v'. cv_resize sz g n v = Some v' \<and> cv_wf sz v' \<and> length (cv_elems sz v') = n
          \<and> take (cv_size v) (cv_elems sz v') = take n (cv_elems sz v)"
    using cv_resize_ok [OF wf n, of g] len by metis
  moreover have "\<forall>i<cv_size v. cv_get sz v i = cv_elems sz v ! i" by (simp add: cv_elems_def)
  ultimately show ?thesis
    using cv.push_all [OF wf xs, of g] cv.pop_all [OF wf, of k] room k cv_reset_ok [OF wf] cv_empty_wf [OF sz] cv_flatten_ok [OF wf]
    by (simp add: len) (simp add: cv_elems_def cv_empty_def)
qed

theorem chunk_vector_is_list_witness:
  "\<exists>v'. fold (\<lambda>x o'. Option.bind o' (cv_push 2 (\<lambda>_ _. 0) x)) [[1, 2], [3, 4]] (Some cv_empty) = Some v'
     \<and> cv_elems 2 v' = [[1, 2], [3, 4]]"
  using chunk_vector_is_list [OF cv_empty_wf, of 2 "[[1, 2], [3, 4]]" 0 0 "\<lambda>_ _. 0"]
  by (auto simp: cv_empty_def kChunkSize_def max_chunks_def per_chunk_def cv_elems_def)

text \<open>C39. Errors in the memory of chunk vectors.  When the bytes of \<open>storage_t::push\<close> do not fit
  into the rest of the last chunk, it goes on in a chunk that does not exist.  A vector whose array
  of pointers has grown is not restored by \<open>shrink\<close>: after all chunks are gone the capacity still
  says that the array is big, so that growing again writes behind the new array as soon as there
  are 8192 chunks.  A copy of a vector with a big array returns it to the wrong allocator.\<close>

theorem chunk_vector_errors:
  assumes "0 < length (cv_chunks v)" "cv_size v mod kChunkSize + ds \<ge> kChunkSize"
  shows "storage_push g ds v = None
    \<and> (max_chunks < length (cv_chunks u) \<and> cv_capacity u = 2 * kChunkSize \<and> cv_array u = Some (2 * kChunkSize) \<longrightarrow>
         (\<exists>u1. cv_reset u = Some u1 \<and> cv_chunks u1 = [] \<and> cv_array u1 = None \<and> cv_capacity u1 = 2 * kChunkSize
            \<and> cv_reserve kChunkSize g (max_chunks + 1) u1 = None)
         \<and> cv_reset (cv_copy u) = None)"
proof -
  have grown: "length (cv_chunks v2) = length (cv_chunks v1) + 1 \<and> cv_size v2 = cv_size v1"
    if "cv_grow g v1 = Some v2" for v1 v2
    using that by (auto simp: cv_grow_def Let_def free_array_def split: if_splits bind_splits option.splits)
  have k0: "0 < kChunkSize" by (simp add: kChunkSize_def)
  have "storage_push g ds v = None"
  proof (cases "cv_grow g (v\<lparr>cv_size := (length (cv_chunks v) + 1) * kChunkSize\<rparr>)")
    case None
    then show ?thesis using assms by (simp add: storage_push_def Let_def)
  next
    case (Some v2)
    have "cv_size v2 = (length (cv_chunks v) + 1) * kChunkSize" "length (cv_chunks v2) = length (cv_chunks v) + 1"
      using grown [OF Some] by simp_all
    then have "cv_size v2 div kChunkSize = length (cv_chunks v2)"
      using k0 by (simp del: mult_Suc add: mult_Suc [symmetric])
    then show ?thesis using assms Some by (simp add: storage_push_def Let_def)
  qed
  moreover have "\<exists>u1. cv_reset u = Some u1 \<and> cv_chunks u1 = [] \<and> cv_array u1 = None \<and> cv_capacity u1 = 2 * kChunkSize
            \<and> cv_reserve kChunkSize g (max_chunks + 1) u1 = None" "cv_reset (cv_copy u) = None"
    if u: "max_chunks < length (cv_chunks u)" "cv_capacity u = 2 * kChunkSize" "cv_array u = Some (2 * kChunkSize)"
  proof -
    let ?u = "u\<lparr>cv_chunks := [], cv_size := 0, cv_array := None\<rparr>"
    have reset: "cv_reset u = Some ?u"
      using u k0 by (auto simp: cv_reset_def cv_shrink_by_def Let_def free_array_def)
    have "cv_reserve kChunkSize g (max_chunks + 1) w = None"
      if "cv_capacity w = 2 * kChunkSize" "cv_array w = None \<and> cv_chunks w = [] \<or> cv_array w = Some kChunkSize"
        "length (cv_chunks w) \<le> max_chunks" for w
      using that
    proof (induction "max_chunks - length (cv_chunks w)" arbitrary: w)
      case 0
      then have "length (cv_chunks w) = max_chunks" by simp
      moreover from this 0 have "cv_array w = Some kChunkSize" by (auto simp: max_chunks_def)
      ultimately have "cv_grow g w = None"
        using 0 by (simp add: cv_grow_def Let_def max_chunks_def kChunkSize_def)
      then show ?case using 0 by (subst cv_reserve.simps) (simp add: per_chunk_def k0)
    next
      case (Suc d)
      let ?w = "w\<lparr>cv_chunks := cv_chunks w @ [g (length (cv_chunks w))], cv_array := Some kChunkSize\<rparr>"
      have "length (cv_chunks w) < max_chunks" using Suc.hyps(2) by simp
      then have "cv_grow g w = Some ?w"
        using Suc.prems by (auto simp: cv_grow_def Let_def max_chunks_def kChunkSize_def)
      moreover have "cv_reserve kChunkSize g (max_chunks + 1) ?w = None"
        by (rule Suc.hyps(1)) (use Suc.prems Suc.hyps(2) in auto)
      ultimately show ?case using Suc.prems by (subst cv_reserve.simps) (simp add: per_chunk_def k0)
    qed
    from this [of ?u] u(2) reset
    show "\<exists>u1. cv_reset u = Some u1 \<and> cv_chunks u1 = [] \<and> cv_array u1 = None \<and> cv_capacity u1 = 2 * kChunkSize
            \<and> cv_reserve kChunkSize g (max_chunks + 1) u1 = None" by auto
    show "cv_reset (cv_copy u) = None"
      using u k0 by (auto simp: cv_reset_def cv_shrink_by_def Let_def free_array_def cv_copy_def)
  qed
  ultimately show ?thesis by blast
qed

theorem chunk_vector_errors_witness:
  "storage_push (\<lambda>_ _. 0) 8 \<lparr>cv_chunks = [\<lambda>_. 0], cv_size = 65530, cv_capacity = 65536, cv_array = Some 65536\<rparr> = None"
  by (rule chunk_vector_errors [THEN conjunct1]) (simp_all add: kChunkSize_def)

end
