(* ===== verification/Pipeline_Order.thy ===== *)
theory Pipeline_Order
  imports Pipeline
begin

text \<open>
  What the dependencies of the pipeline are for: passes that use the same resource, one of them
  writing, run in the order in which they were created.  The scheduler is not part of the
  program; what it has to keep is the rule of \<open>retire\<close> below, that a pass is finished only after
  the passes it depends on.

  The interface \<open>tracked\<close> says what a pass does to the entries it uses; the proofs about it serve
  the entries of shared resources (\<open>setup_shared_dependency\<close>) and those of components
  (\<open>upd_entry\<close>).
\<close>

definition dep_rel :: "(nat \<Rightarrow> nat list) \<Rightarrow> (nat \<times> nat) set" where
  "dep_rel deps = {(p, q). q \<in> set (deps p)}"

text \<open>The order of the passes as seen from the entries \<open>ent\<close>: \<open>access p\<close> are the entries pass \<open>p\<close>
  has registered for (read-only or not), \<open>n\<close> is the number of the next pass.\<close>

record 'r history =
  h_next :: nat
  h_alive :: "nat set"
  h_deps :: "nat \<Rightarrow> nat list"
  h_access :: "nat \<Rightarrow> (bool \<times> 'r) list"

definition conflict :: "(bool \<times> 'r) list \<Rightarrow> (bool \<times> 'r) list \<Rightarrow> bool" where
  "conflict xs ys \<longleftrightarrow> (\<exists>r a b. (a, r) \<in> set xs \<and> (b, r) \<in> set ys \<and> (\<not> a \<or> \<not> b))"

definition history_wf :: "'r history \<Rightarrow> bool" where
  "history_wf h \<longleftrightarrow> h_alive h \<subseteq> {..<h_next h} \<and> (\<forall>p. set (h_deps h p) \<subseteq> {..<p})
     \<and> (\<forall>p\<ge>h_next h. h_deps h p = [] \<and> h_access h p = [])
     \<and> (\<forall>p q. (p, q) \<in> dep_rel (h_deps h) \<longrightarrow> q \<in> h_alive h \<longrightarrow> p \<in> h_alive h)"

definition entry_ordered :: "'r history \<Rightarrow> 'r \<Rightarrow> dependency_entry \<Rightarrow> bool" where
  "entry_ordered h r e \<longleftrightarrow>
     (\<forall>m. owned e = Some m \<longrightarrow> m < h_next h) \<and> (\<forall>s\<in>set (shared e). s < h_next h)
     \<and> (\<forall>p\<in>h_alive h. (False, r) \<in> set (h_access h p) \<longrightarrow> (\<exists>m. owned e = Some m \<and> (m, p) \<in> (dep_rel (h_deps h))\<^sup>*))
     \<and> (\<forall>p\<in>h_alive h. (True, r) \<in> set (h_access h p) \<longrightarrow>
           p \<in> set (shared e) \<or> (\<exists>m. owned e = Some m \<and> (m, p) \<in> (dep_rel (h_deps h))\<^sup>*))
     \<and> (\<forall>s\<in>set (shared e). \<forall>m\<in>h_alive h. owned e = Some m \<longrightarrow> (s, m) \<in> (dep_rel (h_deps h))\<^sup>*)"

definition ordered :: "'r history \<Rightarrow> bool" where
  "ordered h \<longleftrightarrow> (\<forall>p\<in>h_alive h. \<forall>q\<in>h_alive h. p < q \<longrightarrow> conflict (h_access h p) (h_access h q) \<longrightarrow>
     (q, p) \<in> (dep_rel (h_deps h))\<^sup>+)"

definition new_pass :: "nat list \<Rightarrow> (bool \<times> 'r) list \<Rightarrow> 'r history \<Rightarrow> 'r history" where
  "new_pass deps es h = h\<lparr>h_next := h_next h + 1, h_alive := insert (h_next h) (h_alive h),
     h_deps := (h_deps h)(h_next h := deps), h_access := (h_access h)(h_next h := es)\<rparr>"

lemma alive_up:
  assumes "(p, q) \<in> (dep_rel (h_deps h))\<^sup>*" "history_wf h" "q \<in> h_alive h"
  shows "p \<in> h_alive h"
  using assms(1,3) by (induction rule: rtrancl_induct) (use assms(2) in \<open>auto simp: history_wf_def\<close>)

section \<open>One entry\<close>

definition owner_in :: "nat set \<Rightarrow> dependency_entry \<Rightarrow> nat set" where
  "owner_in alive e = (case owned e of None \<Rightarrow> {} | Some p \<Rightarrow> {p} \<inter> alive)"

definition touch_deps :: "bool \<Rightarrow> nat set \<Rightarrow> bool \<Rightarrow> dependency_entry \<Rightarrow> nat set" where
  "touch_deps checked alive ro e =
     (if ro then owner_in alive e
      else set (shared e) \<inter> (if checked then alive else UNIV) \<union> (if shared e = [] then owner_in alive e else {}))"

definition touched :: "nat set \<Rightarrow> nat \<Rightarrow> bool \<Rightarrow> dependency_entry \<Rightarrow> dependency_entry" where
  "touched alive k ro e =
     (if ro then e\<lparr>shared := filter (\<lambda>p. p \<in> alive) (shared e) @ [k]\<rparr> else \<lparr>owned = Some k, shared = []\<rparr>)"

lemma set_fold_insert [simp]: "set (fold List.insert xs ys) = set xs \<union> set ys"
  by (induction xs arbitrary: ys) auto

lemma touch_entry_eq:
  "fst (touch_entry c alive k ro (e, deps)) = touched alive k ro e"
  "set (snd (touch_entry c alive k ro (e, deps))) = set deps \<union> touch_deps c alive ro e"
  by (auto simp: touch_entry_def read_entry_def write_entry_def add_owner_def Let_def touched_def touch_deps_def
      owner_in_def split: option.splits if_splits)

text \<open>A pass that conflicts with an earlier, living one depends on it, through what it finds in
  the entry.\<close>

lemma touch_reaches:
  assumes wf: "history_wf h" and e: "entry_ordered h r e" and alive: "h_alive h \<subseteq> alive"
    and p: "p \<in> h_alive h" and acc: "(b, r) \<in> set (h_access h p)" and confl: "\<not> ro \<or> \<not> b"
  shows "\<exists>d\<in>touch_deps c alive ro e. (d, p) \<in> (dep_rel (h_deps h))\<^sup>*"
proof -
  have owner: "m \<in> owner_in alive e" if "owned e = Some m" "(m, p) \<in> (dep_rel (h_deps h))\<^sup>*" for m
    using alive_up [OF that(2) wf p] alive that(1) by (auto simp: owner_in_def)
  show ?thesis
  proof (cases ro)
    case True
    with confl acc obtain m where "owned e = Some m" "(m, p) \<in> (dep_rel (h_deps h))\<^sup>*"
      using e p by (cases b) (auto simp: entry_ordered_def)
    with owner True show ?thesis by (auto simp: touch_deps_def)
  next
    case False
    consider (reader) "p \<in> set (shared e)" | (owner) m where "owned e = Some m" "(m, p) \<in> (dep_rel (h_deps h))\<^sup>*"
      using e p acc by (cases b) (auto simp: entry_ordered_def)
    then show ?thesis
    proof cases
      case reader
      with False p alive show ?thesis by (auto simp: touch_deps_def)
    next
      case (owner m)
      show ?thesis
      proof (cases "shared e")
        case Nil
        then show ?thesis using False owner \<open>\<And>m. owned e = Some m \<Longrightarrow> _ \<Longrightarrow> m \<in> owner_in alive e\<close>
          by (auto simp: touch_deps_def)
      next
        case (Cons s ss)
        have "m \<in> h_alive h" using alive_up [OF owner(2) wf p] .
        then have "(s, m) \<in> (dep_rel (h_deps h))\<^sup>*" using e owner(1) Cons by (auto simp: entry_ordered_def)
        then have sp: "(s, p) \<in> (dep_rel (h_deps h))\<^sup>*" using owner(2) by simp
        have "s \<in> alive" using alive_up [OF sp wf p] alive by auto
        then show ?thesis using sp False Cons by (auto simp: touch_deps_def intro!: bexI [of _ s])
      qed
    qed
  qed
qed

lemma entry_orderedI:
  assumes "\<And>m. owned e = Some m \<Longrightarrow> m < h_next h" "\<And>s. s \<in> set (shared e) \<Longrightarrow> s < h_next h"
    and "\<And>p. p \<in> h_alive h \<Longrightarrow> (False, r) \<in> set (h_access h p) \<Longrightarrow> \<exists>m. owned e = Some m \<and> (m, p) \<in> (dep_rel (h_deps h))\<^sup>*"
    and "\<And>p. p \<in> h_alive h \<Longrightarrow> (True, r) \<in> set (h_access h p) \<Longrightarrow>
           p \<in> set (shared e) \<or> (\<exists>m. owned e = Some m \<and> (m, p) \<in> (dep_rel (h_deps h))\<^sup>*)"
    and "\<And>s m. s \<in> set (shared e) \<Longrightarrow> m \<in> h_alive h \<Longrightarrow> owned e = Some m \<Longrightarrow> (s, m) \<in> (dep_rel (h_deps h))\<^sup>*"
  shows "entry_ordered h r e"
  using assms by (simp add: entry_ordered_def)

lemma dep_rel_new:
  assumes "history_wf h"
  shows "dep_rel (h_deps (new_pass deps es h)) = dep_rel (h_deps h) \<union> {h_next h} \<times> set deps"
  using assms by (auto simp: dep_rel_def new_pass_def history_wf_def split: if_splits)

lemma dep_rel_mono: "history_wf h \<Longrightarrow> (dep_rel (h_deps h))\<^sup>* \<subseteq> (dep_rel (h_deps (new_pass deps es h)))\<^sup>*"
  by (rule rtrancl_mono) (simp add: dep_rel_new)

text \<open>The registered entry keeps the order.\<close>

lemma touched_ordered:
  assumes wf: "history_wf h" and e: "entry_ordered h r e"
    and acc: "\<forall>b. (b, r) \<in> set es \<longleftrightarrow> b = ro" and deps: "touch_deps c (insert (h_next h) (h_alive h)) ro e \<subseteq> set deps"
  shows "entry_ordered (new_pass deps es h) r (touched (insert (h_next h) (h_alive h)) (h_next h) ro e)"
proof -
  let ?h = "new_pass deps es h" and ?k = "h_next h" and ?A = "insert (h_next h) (h_alive h)"
  let ?R = "(dep_rel (h_deps h))\<^sup>*" and ?R' = "(dep_rel (h_deps (new_pass deps es h)))\<^sup>*"
  have mono: "(a, b) \<in> ?R' " if "(a, b) \<in> ?R" for a b using dep_rel_mono [OF wf] that by auto
  have k: "(?k, d) \<in> ?R'" if "d \<in> set deps" for d
    using that dep_rel_new [OF wf, of deps es] by auto
  have old: "h_access ?h p = h_access h p" "p < ?k" if "p \<in> h_alive h" for p
    using that wf by (auto simp: new_pass_def history_wf_def)
  have new: "h_access ?h ?k = es" "h_alive ?h = ?A" "h_next ?h = ?k + 1" by (simp_all add: new_pass_def)
  have reach: "(?k, p) \<in> ?R'" if p: "p \<in> h_alive h" "(b, r) \<in> set (h_access h p)" "\<not> ro \<or> \<not> b" for p b
  proof -
    have "h_alive h \<subseteq> ?A" by blast
    from touch_reaches [OF wf e this p, of c] obtain d where "d \<in> touch_deps c ?A ro e" "(d, p) \<in> ?R" by blast
    then show ?thesis using deps k mono by (meson rtrancl_trans subsetD)
  qed
  show ?thesis
  proof (rule entry_orderedI)
    fix m assume "owned (touched ?A ?k ro e) = Some m"
    then show "m < h_next ?h" using e new by (auto simp: touched_def entry_ordered_def less_Suc_eq split: if_splits)
  next
    fix s assume "s \<in> set (shared (touched ?A ?k ro e))"
    then show "s < h_next ?h" using e new by (auto simp: touched_def entry_ordered_def less_Suc_eq split: if_splits)
  next
    fix p assume p: "p \<in> h_alive ?h" "(False, r) \<in> set (h_access ?h p)"
    show "\<exists>m. owned (touched ?A ?k ro e) = Some m \<and> (m, p) \<in> ?R'"
    proof (cases "p = ?k")
      case True
      then show ?thesis using p acc new by (auto simp: touched_def)
    next
      case False
      then have q: "p \<in> h_alive h" "(False, r) \<in> set (h_access h p)" using p new old by auto
      show ?thesis
      proof (cases ro)
        case True
        then show ?thesis using e q mono unfolding entry_ordered_def touched_def by auto
      next
        case False
        then show ?thesis using reach [OF q] by (simp add: touched_def)
      qed
    qed
  next
    fix p assume p: "p \<in> h_alive ?h" "(True, r) \<in> set (h_access ?h p)"
    show "p \<in> set (shared (touched ?A ?k ro e)) \<or> (\<exists>m. owned (touched ?A ?k ro e) = Some m \<and> (m, p) \<in> ?R')"
    proof (cases "p = ?k")
      case True
      then show ?thesis using p acc new by (auto simp: touched_def)
    next
      case False
      then have q: "p \<in> h_alive h" "(True, r) \<in> set (h_access h p)" using p new old by auto
      show ?thesis
      proof (cases ro)
        case True
        then show ?thesis using e q mono unfolding entry_ordered_def touched_def by auto
      next
        case False
        then show ?thesis using reach [OF q] by (simp add: touched_def)
      qed
    qed
  next
    fix s m assume s: "s \<in> set (shared (touched ?A ?k ro e))" "m \<in> h_alive ?h" "owned (touched ?A ?k ro e) = Some m"
    then have ro: ro and m: "owned e = Some m" by (auto simp: touched_def split: if_splits)
    have mk: "m < ?k" using e m by (auto simp: entry_ordered_def)
    then have mA: "m \<in> h_alive h" using s(2) new by auto
    show "(s, m) \<in> ?R'"
    proof (cases "s = ?k")
      case True
      then show ?thesis using deps k ro m mA by (auto simp: touch_deps_def owner_in_def)
    next
      case False
      then have "s \<in> set (shared e)" using s(1) ro by (auto simp: touched_def)
      then show ?thesis using e m mA mono by (auto simp: entry_ordered_def)
    qed
  qed
qed

lemma untouched_ordered:
  assumes wf: "history_wf h" and e: "entry_ordered h r e" and acc: "\<forall>b. (b, r) \<notin> set es"
  shows "entry_ordered (new_pass deps es h) r e"
proof -
  have mono: "(a, b) \<in> (dep_rel (h_deps (new_pass deps es h)))\<^sup>*" if "(a, b) \<in> (dep_rel (h_deps h))\<^sup>*" for a b
    using dep_rel_mono [OF wf] that by auto
  have old: "p \<in> h_alive h \<and> h_access (new_pass deps es h) p = h_access h p"
    if "p \<in> h_alive (new_pass deps es h)" "(b, r) \<in> set (h_access (new_pass deps es h) p)" for p b
    using that acc by (auto simp: new_pass_def split: if_splits)
  have nx: "h_next (new_pass deps es h) = Suc (h_next h)" by (simp add: new_pass_def)
  show ?thesis
  proof (rule entry_orderedI)
    fix s m assume "s \<in> set (shared e)" "m \<in> h_alive (new_pass deps es h)" "owned e = Some m"
    moreover from this have "m \<noteq> h_next h" using e by (auto simp: entry_ordered_def)
    ultimately show "(s, m) \<in> (dep_rel (h_deps (new_pass deps es h)))\<^sup>*"
      using e mono by (auto simp: entry_ordered_def new_pass_def)
  next
    fix p assume "p \<in> h_alive (new_pass deps es h)" "(False, r) \<in> set (h_access (new_pass deps es h) p)"
    then have "p \<in> h_alive h" "(False, r) \<in> set (h_access h p)" using old by auto
    then show "\<exists>m. owned e = Some m \<and> (m, p) \<in> (dep_rel (h_deps (new_pass deps es h)))\<^sup>*"
      using e mono unfolding entry_ordered_def by blast
  next
    fix p assume "p \<in> h_alive (new_pass deps es h)" "(True, r) \<in> set (h_access (new_pass deps es h) p)"
    then have "p \<in> h_alive h" "(True, r) \<in> set (h_access h p)" using old by auto
    then show "p \<in> set (shared e) \<or> (\<exists>m. owned e = Some m \<and> (m, p) \<in> (dep_rel (h_deps (new_pass deps es h)))\<^sup>*)"
      using e mono unfolding entry_ordered_def by blast
  qed (use e nx in \<open>auto simp: entry_ordered_def\<close>)
qed


section \<open>Creating and finishing passes\<close>

lemma new_pass_wf:
  assumes "history_wf h" "set deps \<subseteq> {..<h_next h}"
  shows "history_wf (new_pass deps es h)"
proof -
  have "h_next h \<notin> set (h_deps h p)" for p
  proof
    assume dep: "h_next h \<in> set (h_deps h p)"
    then have "h_next h < p" using assms(1) by (auto simp: history_wf_def)
    then show False using dep assms(1) by (auto simp: history_wf_def)
  qed
  then show ?thesis
    using assms by (auto simp: history_wf_def new_pass_def dep_rel_def split: if_splits)
qed

lemma new_pass_ordered:
  assumes wf: "history_wf h" and ord: "ordered h" and ents: "\<forall>(ro, r)\<in>set es. entry_ordered h r (f r)"
    and deps: "\<forall>(ro, r)\<in>set es. touch_deps (c r) (insert (h_next h) (h_alive h)) ro (f r) \<subseteq> set deps"
  shows "ordered (new_pass deps es h)"
  unfolding ordered_def
proof (intro ballI impI)
  let ?h = "new_pass deps es h" and ?R = "dep_rel (h_deps h)" and ?R' = "dep_rel (h_deps (new_pass deps es h))"
  have sub: "?R \<subseteq> ?R'" using dep_rel_new [OF wf, of deps es] by blast
  fix p q assume p: "p \<in> h_alive ?h" "q \<in> h_alive ?h" "p < q" and confl: "conflict (h_access ?h p) (h_access ?h q)"
  have lt: "a < h_next h" if "a \<in> h_alive h" for a using that wf by (auto simp: history_wf_def)
  then have pa: "p \<in> h_alive h" using p by (auto simp: new_pass_def dest: less_trans)
  then have pacc: "h_access ?h p = h_access h p" using lt [OF pa] by (auto simp: new_pass_def)
  show "(q, p) \<in> ?R'\<^sup>+"
  proof (cases "q = h_next h")
    case False
    then have "q \<in> h_alive h" "h_access ?h q = h_access h q" using p by (auto simp: new_pass_def)
    then have "(q, p) \<in> ?R\<^sup>+" using ord pa p(3) confl pacc by (auto simp: ordered_def)
    then show ?thesis using trancl_mono [OF _ sub] by blast
  next
    case True
    then have "h_access ?h q = es" by (simp add: new_pass_def)
    then obtain r a b where acc: "(a, r) \<in> set (h_access h p)" "(b, r) \<in> set es" "\<not> b \<or> \<not> a"
      using confl pacc by (auto simp: conflict_def)
    have "entry_ordered h r (f r)" using ents acc(2) by auto
    from touch_reaches [OF wf this _ pa acc(1,3), of "insert (h_next h) (h_alive h)" "c r"]
    obtain d where d: "d \<in> touch_deps (c r) (insert (h_next h) (h_alive h)) b (f r)" "(d, p) \<in> ?R\<^sup>*" by blast
    have "d \<in> set deps" using deps acc(2) d(1) by blast
    then have "(q, d) \<in> ?R'" using True dep_rel_new [OF wf] by auto
    moreover have "(d, p) \<in> ?R'\<^sup>*" using d(2) rtrancl_mono [OF sub] by blast
    ultimately show ?thesis by (rule rtrancl_into_trancl2)
  qed
qed

definition finish_pass :: "nat \<Rightarrow> 'r history \<Rightarrow> 'r history" where
  "finish_pass p h = h\<lparr>h_alive := h_alive h - {p}\<rparr>"

lemma finish_pass_keeps:
  assumes "history_wf h" "\<forall>d\<in>set (h_deps h p). d \<notin> h_alive h"
  shows "history_wf (finish_pass p h)" "ordered h \<Longrightarrow> ordered (finish_pass p h)"
    "entry_ordered h r e \<Longrightarrow> entry_ordered (finish_pass p h) r e"
  using assms by (auto simp: history_wf_def finish_pass_def ordered_def entry_ordered_def dep_rel_def)

section \<open>Tracked resources\<close>

text \<open>What the registration of pass \<open>k\<close> for \<open>es\<close> leaves behind.\<close>

definition registered :: "('s \<Rightarrow> 'r \<Rightarrow> dependency_entry) \<Rightarrow> ('s \<Rightarrow> 'r \<Rightarrow> bool) \<Rightarrow> ('r \<Rightarrow> bool) \<Rightarrow> nat set \<Rightarrow> nat \<Rightarrow>
    (bool \<times> 'r) list \<Rightarrow> 's \<Rightarrow> 's \<Rightarrow> nat list \<Rightarrow> bool" where
  "registered ent valid checked alive k es s s' deps \<longleftrightarrow>
     (\<forall>r. valid s' r = valid s r) \<and> (\<forall>r. valid s r \<longrightarrow> r \<notin> snd ` set es \<longrightarrow> ent s' r = ent s r)
     \<and> (\<forall>(ro, r)\<in>set es. ent s' r = touched alive k ro (ent s r))
     \<and> set deps = (\<Union>(ro, r)\<in>set es. touch_deps (checked r) alive ro (ent s r))"

lemma registered_nothing: "registered ent valid checked alive k [] s s []"
  by (simp add: registered_def)

locale tracked =
  fixes ent :: "'s \<Rightarrow> 'r \<Rightarrow> dependency_entry"
    and valid :: "'s \<Rightarrow> 'r \<Rightarrow> bool"
    and checked :: "'r \<Rightarrow> bool"
    and register :: "nat set \<Rightarrow> nat \<Rightarrow> bool \<times> 'r \<Rightarrow> 's \<times> nat list \<Rightarrow> 's \<times> nat list"
  assumes register_entry: "valid s r \<Longrightarrow> register alive k (ro, r) (s, deps) = (s', deps') \<Longrightarrow>
      (ent s' r, deps') = touch_entry (checked r) alive k ro (ent s r, deps) \<and> (\<forall>r'. r' \<noteq> r \<longrightarrow> ent s' r' = ent s r')
      \<and> (\<forall>r'. valid s' r' = valid s r')"
begin

lemma register_step:
  assumes "registered ent valid checked alive k es s s1 deps1" "valid s r" "r \<notin> snd ` set es"
    and "register alive k (ro, r) (s1, deps1) = (s2, deps2)"
  shows "registered ent valid checked alive k (es @ [(ro, r)]) s s2 deps2"
proof -
  have v1: "valid s1 r" and e1: "ent s1 r = ent s r" using assms(1-3) by (auto simp: registered_def)
  have "(ent s2 r, deps2) = touch_entry (checked r) alive k ro (ent s1 r, deps1) \<and> (\<forall>r'. r' \<noteq> r \<longrightarrow> ent s2 r' = ent s1 r')
      \<and> (\<forall>r'. valid s2 r' = valid s1 r')"
    using register_entry [OF v1 assms(4)] .
  then have one: "ent s2 r = touched alive k ro (ent s r)" "set deps2 = set deps1 \<union> touch_deps (checked r) alive ro (ent s r)"
      "\<forall>r'. r' \<noteq> r \<longrightarrow> ent s2 r' = ent s1 r'" "\<forall>r'. valid s2 r' = valid s1 r'"
    using touch_entry_eq [of "checked r" alive k ro "ent s1 r" deps1] e1 by (metis prod.sel(1), metis prod.sel(2), auto)
  have "ent s2 r' = touched alive k ro' (ent s r')" if "(ro', r') \<in> set es" for ro' r'
    using that assms(1,3) one(3) by (force simp: registered_def)
  then show ?thesis using assms(1) one by (auto simp: registered_def)
qed

lemma register_fold:
  assumes "registered ent valid checked alive k es0 s s1 deps1"
    and "fold (register alive k) es (s1, deps1) = (s', deps')" "distinct (map snd (es0 @ es))" "\<forall>x\<in>set es. valid s (snd x)"
  shows "registered ent valid checked alive k (es0 @ es) s s' deps'"
  using assms
proof (induction es arbitrary: es0 s1 deps1)
  case (Cons x es)
  obtain ro r where x: "x = (ro, r)" by (cases x)
  obtain s2 deps2 where reg: "register alive k (ro, r) (s1, deps1) = (s2, deps2)" by force
  have "registered ent valid checked alive k (es0 @ [(ro, r)]) s s2 deps2"
    using Cons.prems by (intro register_step [OF Cons.prems(1) _ _ reg]) (auto simp: x)
  from Cons.IH [OF this] Cons.prems reg show ?case by (simp add: x)
qed simp

lemma register_new_pass:
  assumes wf: "history_wf h" and ord: "ordered h" and ents: "\<And>r. valid s r \<Longrightarrow> entry_ordered h r (ent s r)"
    and reg: "registered ent valid checked (insert (h_next h) (h_alive h)) (h_next h) es s s' deps"
    and dist: "distinct (map snd es)" and val: "\<forall>x\<in>set es. valid s (snd x)"
  shows "history_wf (new_pass deps es h)" "ordered (new_pass deps es h)"
    "valid s' r \<Longrightarrow> entry_ordered (new_pass deps es h) r (ent s' r)"
proof -
  let ?A = "insert (h_next h) (h_alive h)"
  note all = reg [unfolded registered_def]
  have sets: "set deps = (\<Union>(ro, r)\<in>set es. touch_deps (checked r) ?A ro (ent s r))" using all by simp
  have eo: "entry_ordered h r (ent s r)" if "(ro, r) \<in> set es" for ro r using that ents val by force
  have "d < h_next h" if d: "d \<in> set deps" for d
  proof -
    obtain ro r where x: "(ro, r) \<in> set es" "d \<in> touch_deps (checked r) ?A ro (ent s r)" using d sets by auto
    then have "d \<in> set (shared (ent s r)) \<or> owned (ent s r) = Some d"
      by (auto simp: touch_deps_def owner_in_def split: if_splits option.splits)
    with eo [OF x(1)] show ?thesis by (auto simp: entry_ordered_def)
  qed
  then show "history_wf (new_pass deps es h)" by (intro new_pass_wf [OF wf]) auto
  show "ordered (new_pass deps es h)"
    by (rule new_pass_ordered [OF wf ord, of es "ent s" checked]) (use eo sets in auto)
  show "entry_ordered (new_pass deps es h) r (ent s' r)" if "valid s' r"
  proof (cases "r \<in> snd ` set es")
    case True
    then obtain ro where x: "(ro, r) \<in> set es" by auto
    have "(b, r) = (ro, r)" if "(b, r) \<in> set es" for b
      using inj_onD [of snd "set es" "(b, r)" "(ro, r)"] x that dist by (simp add: distinct_map)
    then have "\<forall>b. (b, r) \<in> set es \<longleftrightarrow> b = ro" using x by blast
    then have "entry_ordered (new_pass deps es h) r (touched ?A (h_next h) ro (ent s r))"
      by (rule touched_ordered [OF wf eo [OF x], where c = "checked r"]) (use sets x in auto)
    then show ?thesis using all x by auto
  next
    case False
    then have "entry_ordered (new_pass deps es h) r (ent s r)"
      using that all by (intro untouched_ordered [OF wf ents]) force+
    then show ?thesis using that all False by auto
  qed
qed

end


section \<open>The entries of a pipeline\<close>

type_synonym resource = "nat + ptr \<times> nat"

fun pl_ent :: "pipeline \<Rightarrow> resource \<Rightarrow> dependency_entry" where
  "pl_ent pl (Inl n) = pl_resources pl n"
| "pl_ent pl (Inr (at, i)) = (case map_of (pl_entries pl) at of None \<Rightarrow> no_entry | Some es \<Rightarrow> es i)"

fun pl_valid :: "pipeline \<Rightarrow> resource \<Rightarrow> bool" where
  "pl_valid pl (Inl n) = True"
| "pl_valid pl (Inr (at, i)) \<longleftrightarrow> map_of (pl_entries pl) at \<noteq> None \<and> i < firstTag (archs (pl_world pl) at)"

definition pl_checked :: "resource \<Rightarrow> bool" where
  "pl_checked r = (case r of Inl _ \<Rightarrow> False | Inr _ \<Rightarrow> True)"

fun pl_register :: "nat set \<Rightarrow> nat \<Rightarrow> bool \<times> resource \<Rightarrow> pipeline \<times> nat list \<Rightarrow> pipeline \<times> nat list" where
  "pl_register alive k (ro, Inl n) (pl, deps) =
     (let (e, deps') = touch_entry False alive k ro (pl_resources pl n, deps)
      in (pl\<lparr>pl_resources := (pl_resources pl)(n := e)\<rparr>, deps'))"
| "pl_register alive k (ro, Inr (at, i)) (pl, deps) = upd_entry at i (touch_entry True alive k ro) (pl, deps)"

lemma pl_view:
  "pl_ent (pl\<lparr>pl_index := n, pl_alive := A\<rparr>) = pl_ent pl" "pl_valid (pl\<lparr>pl_index := n, pl_alive := A\<rparr>) = pl_valid pl"
  "pl_ent (pl\<lparr>pl_index := n\<rparr>) = pl_ent pl" "pl_valid (pl\<lparr>pl_index := n\<rparr>) = pl_valid pl"
  "pl_ent (pl\<lparr>pl_alive := A\<rparr>) = pl_ent pl" "pl_valid (pl\<lparr>pl_alive := A\<rparr>) = pl_valid pl"
  by (rule ext, rename_tac r, case_tac "(pl, r)" rule: pl_ent.cases, auto)+

lemma map_of_upd_entries:
  "map_of (map (\<lambda>(a, es). if a = at then (a, f es) else (a, es)) xs) a = map_option (\<lambda>es. if a = at then f es else es) (map_of xs a)"
  by (induction xs) (auto split: option.splits)

lemma upd_entry_effect:
  assumes "upd_entry at i f (pl, deps) = (pl', deps')" "map_of (pl_entries pl) at \<noteq> None"
  shows "(pl_ent pl' (Inr (at, i)), deps') = f (pl_ent pl (Inr (at, i)), deps)"
    "r \<noteq> Inr (at, i) \<Longrightarrow> pl_ent pl' r = pl_ent pl r" "pl_valid pl' r = pl_valid pl r"
    "pl_world pl' = pl_world pl" "pl_alive pl' = pl_alive pl" "pl_index pl' = pl_index pl"
    "(map_of (pl_entries pl') a = None) = (map_of (pl_entries pl) a = None)"
proof -
  obtain es where es: "map_of (pl_entries pl) at = Some es" using assms(2) by auto
  obtain e d where f: "f (es i, deps) = (e, d)" by force
  have pl': "pl' = pl\<lparr>pl_entries := map (\<lambda>(a, es'). if a = at then (a, es'(i := e)) else (a, es')) (pl_entries pl)\<rparr>" "deps' = d"
    using assms(1) es f by (auto simp: upd_entry_def)
  show "(pl_ent pl' (Inr (at, i)), deps') = f (pl_ent pl (Inr (at, i)), deps)"
    using es f by (simp add: pl' map_of_upd_entries)
  show "pl_ent pl' r = pl_ent pl r" if "r \<noteq> Inr (at, i)"
    using that by (cases "(pl, r)" rule: pl_ent.cases) (auto simp: pl' map_of_upd_entries split: option.splits)
  show "pl_valid pl' r = pl_valid pl r"
    by (cases "(pl, r)" rule: pl_ent.cases) (simp_all add: pl' map_of_upd_entries)
  show "(map_of (pl_entries pl') a = None) = (map_of (pl_entries pl) a = None)"
    by (simp add: pl' map_of_upd_entries)
qed (use assms in \<open>auto simp: upd_entry_def split: option.splits prod.splits\<close>)

interpretation pls: tracked pl_ent pl_valid pl_checked pl_register
proof
  fix s s' :: pipeline and r alive k ro deps deps'
  assume valid: "pl_valid s r" and reg: "pl_register alive k (ro, r) (s, deps) = (s', deps')"
  show "(pl_ent s' r, deps') = touch_entry (pl_checked r) alive k ro (pl_ent s r, deps) \<and> (\<forall>r'. r' \<noteq> r \<longrightarrow> pl_ent s' r' = pl_ent s r')
      \<and> (\<forall>r'. pl_valid s' r' = pl_valid s r')"
  proof (cases r)
    case (Inl n)
    obtain e d where t: "touch_entry False alive k ro (pl_resources s n, deps) = (e, d)" by force
    have s': "s' = s\<lparr>pl_resources := (pl_resources s)(n := e)\<rparr>" "deps' = d" using reg t Inl by auto
    have "pl_ent s' r' = pl_ent s r'" if "r' \<noteq> r" for r'
      using that Inl by (cases "(s, r')" rule: pl_ent.cases) (auto simp: s')
    moreover have "pl_valid s' r' = pl_valid s r'" for r'
      by (cases "(s, r')" rule: pl_ent.cases) (auto simp: s')
    ultimately show ?thesis using t Inl by (simp add: s' pl_checked_def)
  next
    case (Inr ai)
    then obtain at i where r: "r = Inr (at, i)" by (cases ai) auto
    with reg valid upd_entry_effect [of at i "touch_entry True alive k ro" s deps s' deps']
    show ?thesis by (simp add: pl_checked_def)
  qed
qed

text \<open>\<open>setup_shared_dependency\<close> registers for the resources it is given.\<close>

definition resource_access :: "(bool \<times> nat) list \<Rightarrow> (bool \<times> resource) list" where
  "resource_access es = map (\<lambda>(ro, n). (ro, Inl n)) es"

lemma setup_shared_registers:
  "setup_shared_dependency alive k es (pl_resources pl, deps) = (store, deps') \<Longrightarrow>
     fold (pl_register alive k) (resource_access es) (pl, deps) = (pl\<lparr>pl_resources := store\<rparr>, deps')"
proof (induction es arbitrary: pl deps)
  case (Cons x es)
  obtain ro n where x: "x = (ro, n)" by (cases x)
  obtain e d where t: "touch_entry False alive k ro (pl_resources pl n, deps) = (e, d)" by force
  have "setup_shared_dependency alive k es (pl_resources (pl\<lparr>pl_resources := (pl_resources pl)(n := e)\<rparr>), d) = (store, deps')"
    using Cons.prems t by (simp add: setup_shared_dependency_def x)
  from Cons.IH [OF this] t show ?case by (simp add: resource_access_def x)
qed (simp add: setup_shared_dependency_def resource_access_def)

lemma create_custom_pass_registers:
  assumes "create_custom_pass es pl = (deps, k, pl')" "distinct (map snd es)"
  shows "k = pl_index pl" "pl_index pl' = pl_index pl + 1" "pl_alive pl' = insert (pl_index pl) (pl_alive pl)"
    "registered pl_ent pl_valid pl_checked (insert (pl_index pl) (pl_alive pl)) (pl_index pl) (resource_access es) pl pl' deps"
proof -
  let ?A = "insert (pl_index pl) (pl_alive pl)"
  let ?pl = "pl\<lparr>pl_index := pl_index pl + 1, pl_alive := ?A\<rparr>"
  obtain store d where sh: "setup_shared_dependency ?A (pl_index pl) es (pl_resources ?pl, []) = (store, d)" by force
  then show "k = pl_index pl" "pl_index pl' = pl_index pl + 1" "pl_alive pl' = ?A"
    using assms(1) by (auto simp: create_custom_pass_def Let_def)
  have res: "deps = d" "pl' = ?pl\<lparr>pl_resources := store\<rparr>"
    using assms(1) sh by (auto simp: create_custom_pass_def Let_def)
  have "registered pl_ent pl_valid pl_checked ?A (pl_index pl) ([] @ resource_access es) ?pl pl' deps"
    unfolding res using setup_shared_registers [OF sh] assms(2)
    by (intro pls.register_fold [OF registered_nothing])
      (auto simp: resource_access_def comp_def split_beta distinct_map inj_on_def)
  then show "registered pl_ent pl_valid pl_checked ?A (pl_index pl) (resource_access es) pl pl' deps"
    unfolding registered_def pl_view by simp
qed


text \<open>A pass whose parameters are components of its own archetypes, without random access and
  without a change filter: it registers once for every column it uses.\<close>

definition column_access :: "pass \<Rightarrow> nat \<Rightarrow> nat \<Rightarrow> bool \<times> resource" where
  "column_access k i j =
     (check_bit (ps_readonly k) j, Inr (ps_archetypes k ! i, ps_localType k ! (i * length (ps_types k) + j)))"

definition pass_access :: "pass \<Rightarrow> (bool \<times> resource) list" where
  "pass_access k = concat (map (\<lambda>i. map (column_access k i) [0..<length (ps_types k)]) [0..<length (ps_archetypes k)])"

definition plain_pass :: "pipeline \<Rightarrow> pass \<Rightarrow> bool" where
  "plain_pass pl k \<longleftrightarrow> changed (ps_chunkFilter k) = [] \<and> (\<forall>j<length (ps_types k). \<not> check_bit (ps_randomAccess k) j)
     \<and> distinct (map snd (pass_access k)) \<and> (\<forall>x\<in>set (pass_access k). pl_valid pl (snd x))
     \<and> (\<forall>t\<in>set (ps_localType k). t \<noteq> InvalidIndex) \<and> length (ps_localType k) = length (ps_archetypes k) * length (ps_types k)"

definition set_up :: "pipeline \<Rightarrow> nat \<Rightarrow> (bool \<times> resource) list \<Rightarrow> setup_state \<Rightarrow> bool" where
  "set_up pl0 k es st \<longleftrightarrow> (case st of (pl, deps, synced) \<Rightarrow>
     registered pl_ent pl_valid pl_checked (pl_alive pl0) k es pl0 pl deps
     \<and> pl_world pl = pl_world pl0 \<and> pl_alive pl = pl_alive pl0 \<and> pl_index pl = pl_index pl0
     \<and> (\<forall>a. (map_of (pl_entries pl) a = None) = (map_of (pl_entries pl0) a = None))
     \<and> (\<forall>x\<in>set synced. Inr x \<in> snd ` set es) \<and> (\<forall>x\<in>set es. pl_valid pl0 (snd x)))"

lemma for_up_opt_invariant:
  assumes "P 0 s" "\<And>k s. k < n \<Longrightarrow> P k s \<Longrightarrow> \<exists>s'. f k s = Some s' \<and> P (Suc k) s'"
  shows "\<exists>s'. for_up_opt f 0 n s = Some s' \<and> P n s'"
  using assms(2)
proof (induction n)
  case 0
  then show ?case using assms(1) by (simp add: for_up_opt_def)
next
  case (Suc n)
  then obtain s' where "for_up_opt f 0 n s = Some s'" "P n s'" by (metis less_SucI)
  moreover from this Suc.prems [of n s'] obtain s'' where "f n s' = Some s''" "P (Suc n) s''" by blast
  ultimately show ?case by (simp add: for_up_opt_def)
qed

lemma setup_param_set_up:
  assumes plain: "plain_pass pl0 k" and ij: "i < length (ps_archetypes k)" "j < length (ps_types k)"
    and st: "set_up pl0 (ps_index k) es st" and new: "snd (column_access k i j) \<notin> snd ` set es"
    and valid: "pl_valid pl0 (snd (column_access k i j))"
  shows "\<exists>st'. setup_param k i j st = Some st' \<and> set_up pl0 (ps_index k) (es @ [column_access k i j]) st'"
proof -
  define at lt ro where "at = ps_archetypes k ! i" and "lt = ps_localType k ! (i * length (ps_types k) + j)"
    and "ro = check_bit (ps_readonly k) j"
  have col: "column_access k i j = (ro, Inr (at, lt))" by (simp add: column_access_def at_def lt_def ro_def)
  obtain pl deps synced where s: "st = (pl, deps, synced)" by (cases st) auto
  have "i * length (ps_types k) + j < length (ps_archetypes k) * length (ps_types k)"
    using ij by (metis add.commute add_less_cancel_left less_le_trans mult_Suc mult_le_mono1 Suc_leI)
  then have lt_ok: "lt \<noteq> InvalidIndex" using plain by (auto simp: plain_pass_def lt_def)
  have at_ok: "map_of (pl_entries pl) at \<noteq> None" "lt < firstTag (archs (pl_world pl) at)"
    using valid st by (auto simp: col set_up_def s)
  then obtain es0 where at_some: "map_of (pl_entries pl) at = Some es0" by auto
  have fresh: "(at, lt) \<notin> set synced" using new st by (auto simp: col set_up_def s)
  obtain pl' deps' where u: "upd_entry at lt (touch_entry True (pl_alive pl) (ps_index k) ro) (pl, deps) = (pl', deps')" by force
  have "setup_param k i j st = Some (pl', deps', (at, lt) # synced)"
    using plain ij u lt_ok at_ok(2) fresh at_some
    by (simp add: setup_param_def s Let_def plain_pass_def setup_entry_def at_def [symmetric] lt_def [symmetric] ro_def [symmetric])
  moreover have "registered pl_ent pl_valid pl_checked (pl_alive pl0) (ps_index k) (es @ [(ro, Inr (at, lt))]) pl0 pl' deps'"
    using st u new valid by (intro pls.register_step [where ?s1.0 = pl and ?deps1.0 = deps]) (auto simp: set_up_def s col)
  ultimately show ?thesis
    using upd_entry_effect(4-7) [OF u at_ok(1)] st valid by (auto simp: set_up_def s col simp del: pl_valid.simps)
qed

lemma setup_entities_set_up:
  assumes "set_up pl0 k es (pl, deps, synced)"
  shows "set_up pl0 k es (setup_entities k' at pl, deps, synced)"
proof (cases "map_of (pl_entries pl) at = None")
  case True
  then have "setup_entities k' at pl = pl" by (auto simp: setup_entities_def upd_entry_def split: option.splits)
  then show ?thesis using assms by simp
next
  case False
  let ?i = "firstTag (archs (pl_world pl) at)"
  let ?f = "\<lambda>(e, deps). (e\<lparr>shared := filter (\<lambda>p. p \<in> pl_alive pl) (shared e) @ [k']\<rparr>, deps :: nat list)"
  obtain pl' d where u: "upd_entry at ?i ?f (pl, []) = (pl', d)" by force
  have e: "setup_entities k' at pl = pl'" using u by (simp add: setup_entities_def)
  note eff = upd_entry_effect [OF u False]
  have "pl_ent pl' r = pl_ent pl r" if "pl_valid pl r" for r
    using that eff(2) [of r] by (cases "r = Inr (at, ?i)") simp_all
  then have "registered pl_ent pl_valid pl_checked (pl_alive pl0) k es pl0 pl' deps"
    if reg: "registered pl_ent pl_valid pl_checked (pl_alive pl0) k es pl0 pl deps" "\<forall>x\<in>set es. pl_valid pl0 (snd x)"
    using reg eff(3) by (fastforce simp: registered_def)
  then show ?thesis using assms eff unfolding e by (auto simp: set_up_def)
qed


lemma pass_access_prefix:
  assumes "i < length (ps_archetypes k)" "j < length (ps_types k)"
  shows "\<exists>rest. pass_access k = concat (map (\<lambda>i. map (column_access k i) [0..<length (ps_types k)]) [0..<i])
     @ map (column_access k i) [0..<j] @ column_access k i j # rest"
proof -
  have "[0..<length (ps_archetypes k)] = [0..<i] @ i # [Suc i..<length (ps_archetypes k)]"
    "[0..<length (ps_types k)] = [0..<j] @ j # [Suc j..<length (ps_types k)]"
    using assms by (metis append.left_neutral le_add_same_cancel1 less_imp_le_nat upt_add_eq_append upt_conv_Cons zero_le le_add1 add_0
        le_add_diff_inverse)+
  then show ?thesis unfolding pass_access_def by (metis (no_types, lifting) append.assoc append_Cons concat.simps(2) concat_append list.simps(9) map_append)
qed

lemma before_not_in: "distinct (map snd (a @ b @ x # c)) \<Longrightarrow> snd x \<notin> snd ` set (a @ b)"
  by auto

lemma setup_pass_registers:
  assumes plain: "plain_pass pl k" and dist: "distinct (map snd es)"
  shows "\<exists>k' pl'. setup_pass_dependency es k pl = Some (k', pl') \<and> pl_world pl' = pl_world pl \<and> pl_alive pl' = pl_alive pl
     \<and> pl_index pl' = pl_index pl
     \<and> registered pl_ent pl_valid pl_checked (pl_alive pl) (ps_index k) (resource_access es @ pass_access k) pl pl' (ps_dependencies k')"
proof -
  let ?ra = "resource_access es" and ?n = "length (ps_types k)" and ?row = "\<lambda>i. map (column_access k i) [0..<length (ps_types k)]"
  obtain store d where sh: "setup_shared_dependency (pl_alive pl) (ps_index k) es (pl_resources pl, []) = (store, d)" by force
  have "registered pl_ent pl_valid pl_checked (pl_alive pl) (ps_index k) ([] @ ?ra) pl (pl\<lparr>pl_resources := store\<rparr>) d"
    using setup_shared_registers [OF sh] dist
    by (intro pls.register_fold [OF registered_nothing])
      (auto simp: resource_access_def comp_def split_beta distinct_map inj_on_def)
  then have start: "set_up pl (ps_index k) ?ra (pl\<lparr>pl_resources := store\<rparr>, d, [])"
    by (auto simp: set_up_def resource_access_def)
  have fresh: "snd (column_access k i j) \<notin> snd ` set (?ra @ concat (map ?row [0..<i]) @ map (column_access k i) [0..<j])"
      "pl_valid pl (snd (column_access k i j))"
    if ij: "i < length (ps_archetypes k)" "j < ?n" for i j
  proof -
    obtain rest where rest: "pass_access k = concat (map ?row [0..<i]) @ map (column_access k i) [0..<j] @ column_access k i j # rest"
      using pass_access_prefix [OF ij] by auto
    have dist: "distinct (map snd (pass_access k))" and all: "\<forall>x\<in>set (pass_access k). pl_valid pl (snd x)"
      using plain by (auto simp: plain_pass_def)
    have new: "snd (column_access k i j) \<notin> snd ` set (concat (map ?row [0..<i]) @ map (column_access k i) [0..<j])"
      by (rule before_not_in [OF dist [unfolded rest]])
    have val: "pl_valid pl (snd (column_access k i j))" using all unfolding rest by simp
    have "snd (column_access k i j) \<notin> snd ` set ?ra" by (auto simp: resource_access_def column_access_def)
    with new val show "snd (column_access k i j) \<notin> snd ` set (?ra @ concat (map ?row [0..<i]) @ map (column_access k i) [0..<j])"
        "pl_valid pl (snd (column_access k i j))" unfolding set_append image_Un by blast+
  qed
  have inner: "\<exists>st'. for_up_opt (setup_param k i) 0 ?n st = Some st' \<and> set_up pl (ps_index k) (?ra @ concat (map ?row [0..<Suc i])) st'"
    if i: "i < length (ps_archetypes k)" and st: "set_up pl (ps_index k) (?ra @ concat (map ?row [0..<i])) st" for i st
  proof -
    have "\<exists>st'. for_up_opt (setup_param k i) 0 ?n st = Some st'
        \<and> set_up pl (ps_index k) (?ra @ concat (map ?row [0..<i]) @ map (column_access k i) [0..<?n]) st'"
    proof (rule for_up_opt_invariant [where P = "\<lambda>j. set_up pl (ps_index k) (?ra @ concat (map ?row [0..<i]) @ map (column_access k i) [0..<j])"])
      show "set_up pl (ps_index k) (?ra @ concat (map ?row [0..<i]) @ map (column_access k i) [0..<0]) st" using st by simp
      fix j st assume j: "j < ?n" and st: "set_up pl (ps_index k) (?ra @ concat (map ?row [0..<i]) @ map (column_access k i) [0..<j]) st"
      from setup_param_set_up [OF plain i j st fresh [OF i j]]
      show "\<exists>st'. setup_param k i j st = Some st'
          \<and> set_up pl (ps_index k) (?ra @ concat (map ?row [0..<i]) @ map (column_access k i) [0..<Suc j]) st'" by simp
    qed
    then show ?thesis by simp
  qed
  have "\<exists>st'. for_up_opt (setup_archetype k) 0 (length (ps_archetypes k)) (pl\<lparr>pl_resources := store\<rparr>, d, []) = Some st'
      \<and> set_up pl (ps_index k) (?ra @ concat (map ?row [0..<length (ps_archetypes k)])) st'"
  proof (rule for_up_opt_invariant [where P = "\<lambda>i. set_up pl (ps_index k) (?ra @ concat (map ?row [0..<i]))"])
    show "set_up pl (ps_index k) (?ra @ concat (map ?row [0..<0])) (pl\<lparr>pl_resources := store\<rparr>, d, [])" using start by simp
    fix i st assume i: "i < length (ps_archetypes k)" and "set_up pl (ps_index k) (?ra @ concat (map ?row [0..<i])) st"
    from inner [OF this] obtain pl1 deps1 synced1 where st1: "for_up_opt (setup_param k i) 0 ?n st = Some (pl1, deps1, synced1)"
      "set_up pl (ps_index k) (?ra @ concat (map ?row [0..<Suc i])) (pl1, deps1, synced1)" by (metis prod_cases3)
    have "changed (ps_chunkFilter k) = []" using plain by (simp add: plain_pass_def)
    then have "setup_archetype k i st = Some (setup_entities (ps_index k) (ps_archetypes k ! i) pl1, deps1, synced1)"
      using st1(1) by (simp add: setup_archetype_def Let_def)
    then show "\<exists>st'. setup_archetype k i st = Some st' \<and> set_up pl (ps_index k) (?ra @ concat (map ?row [0..<Suc i])) st'"
      using setup_entities_set_up [OF st1(2)] by auto
  qed
  then obtain pl' deps' synced' where
    "for_up_opt (setup_archetype k) 0 (length (ps_archetypes k)) (pl\<lparr>pl_resources := store\<rparr>, d, []) = Some (pl', deps', synced')"
    "set_up pl (ps_index k) (?ra @ pass_access k) (pl', deps', synced')" by (auto simp: pass_access_def)
  then show ?thesis using sh by (auto simp: setup_pass_dependency_def set_up_def)
qed


section \<open>Passes in order\<close>

text \<open>The life of a pipeline: custom passes and passes over components are created, passes finish
  after those they depend on, and the program waits for entries (which forgets who used them; a
  \<open>sync_dependencies\<close> that waits returns when those passes are gone).  The second component
  records the accesses.\<close>

inductive pass_step :: "pipeline \<times> resource history \<Rightarrow> pipeline \<times> resource history \<Rightarrow> bool" where
  custom: "distinct (map snd es) \<Longrightarrow> create_custom_pass es pl = (deps, k, pl') \<Longrightarrow>
     pass_step (pl, h) (pl', new_pass deps (resource_access es) h)"
| "components": "distinct (map snd es) \<Longrightarrow> ps_index p = pl_index pl \<Longrightarrow>
     pl1 = pl\<lparr>pl_index := pl_index pl + 1, pl_alive := insert (pl_index pl) (pl_alive pl)\<rparr> \<Longrightarrow>
     plain_pass pl1 p \<Longrightarrow> setup_pass_dependency es p pl1 = Some (p', pl') \<Longrightarrow>
     pass_step (pl, h) (pl', new_pass (ps_dependencies p') (resource_access es @ pass_access p) h)"
| finish: "p \<in> pl_alive pl \<Longrightarrow> \<forall>d\<in>set (h_deps h p). d \<notin> pl_alive pl \<Longrightarrow>
     pass_step (pl, h) (pl\<lparr>pl_alive := pl_alive pl - {p}\<rparr>, finish_pass p h)"

definition no_history :: "resource history" where
  "no_history = \<lparr>h_next = 0, h_alive = {}, h_deps = (\<lambda>_. []), h_access = (\<lambda>_. [])\<rparr>"

definition pass_inv :: "pipeline \<times> resource history \<Rightarrow> bool" where
  "pass_inv s \<longleftrightarrow> (case s of (pl, h) \<Rightarrow> h_next h = pl_index pl \<and> h_alive h = pl_alive pl \<and> history_wf h \<and> ordered h
     \<and> (\<forall>r. pl_valid pl r \<longrightarrow> entry_ordered h r (pl_ent pl r)))"

lemma distinct_resource_access: "distinct (map snd es) \<Longrightarrow> distinct (map snd (resource_access es))"
  by (auto simp: resource_access_def distinct_map inj_on_def comp_def split_beta)

lemma pass_inv_step: "pass_step s s' \<Longrightarrow> pass_inv s \<Longrightarrow> pass_inv s'"
proof (induction rule: pass_step.induct)
  case (custom es pl deps k pl' h)
  note eff = create_custom_pass_registers [OF custom.hyps(2,1)]
  have h: "h_next h = pl_index pl" "h_alive h = pl_alive pl" "history_wf h" "ordered h"
    "\<And>r. pl_valid pl r \<Longrightarrow> entry_ordered h r (pl_ent pl r)" using custom.prems by (auto simp: pass_inv_def)
  have reg: "registered pl_ent pl_valid pl_checked (insert (h_next h) (h_alive h)) (h_next h) (resource_access es) pl pl' deps"
    using eff(4) unfolding h(1,2) .
  have "\<forall>x\<in>set (resource_access es). pl_valid pl (snd x)" by (auto simp: resource_access_def)
  with pls.register_new_pass [OF h(3,4,5) reg] eff h distinct_resource_access [OF custom.hyps(1)] show ?case by (simp add: pass_inv_def new_pass_def)
next
  case (components es p pl pl1 p' pl' h)
  let ?es = "resource_access es @ pass_access p"
  have h: "h_next h = pl_index pl" "h_alive h = pl_alive pl" "history_wf h" "ordered h"
    "\<And>r. pl_valid pl r \<Longrightarrow> entry_ordered h r (pl_ent pl r)" using components.prems by (auto simp: pass_inv_def)
  have view: "pl_ent pl1 = pl_ent pl" "pl_valid pl1 = pl_valid pl" "pl_alive pl1 = insert (pl_index pl) (pl_alive pl)"
      "pl_index pl1 = pl_index pl + 1"
    by (simp_all add: components.hyps(3) pl_view)
  have eff: "pl_alive pl' = pl_alive pl1" "pl_index pl' = pl_index pl1"
      "registered pl_ent pl_valid pl_checked (pl_alive pl1) (ps_index p) ?es pl1 pl' (ps_dependencies p')"
    using setup_pass_registers [OF components.hyps(4,1)] components.hyps(5) by auto
  have reg: "registered pl_ent pl_valid pl_checked (insert (h_next h) (h_alive h)) (h_next h) ?es pl pl' (ps_dependencies p')"
    using eff(3) unfolding registered_def view h components.hyps(2) .
  have "distinct (map snd (pass_access p))" "\<forall>x\<in>set (pass_access p). pl_valid pl (snd x)"
    using components.hyps(4) view by (auto simp: plain_pass_def simp del: pl_valid.simps)
  moreover have "\<forall>x\<in>set (resource_access es). pl_valid pl (snd x)" by (auto simp: resource_access_def)
  moreover have "snd ` set (resource_access es) \<inter> snd ` set (pass_access p) = {}"
    by (auto simp: resource_access_def pass_access_def column_access_def)
  ultimately have "distinct (map snd ?es)" "\<forall>x\<in>set ?es. pl_valid pl (snd x)"
    using distinct_resource_access [OF components.hyps(1)] by auto
  with pls.register_new_pass [OF h(3,4,5) reg] eff(1,2) view h show ?case by (simp add: pass_inv_def new_pass_def)
next
  case (finish p pl h)
  then have "\<forall>d\<in>set (h_deps h p). d \<notin> h_alive h" "history_wf h" by (auto simp: pass_inv_def)
  with finish_pass_keeps [OF this(2,1)] finish.prems show ?case
    by (auto simp: pass_inv_def finish_pass_def pl_view simp del: pl_ent.simps pl_valid.simps)
qed

lemma pass_inv_reachable: "pass_step\<^sup>*\<^sup>* (pipeline_ctor w, no_history) s \<Longrightarrow> pass_inv s"
proof (induction rule: rtranclp_induct)
  case base
  have "pl_ent (pipeline_ctor w) r = no_entry" for r
    by (cases "(pipeline_ctor w, r)" rule: pl_ent.cases)
      (auto simp: pipeline_ctor_def split: option.splits dest!: map_of_SomeD)
  then show ?case
    by (auto simp: pass_inv_def no_history_def pipeline_ctor_def history_wf_def dep_rel_def ordered_def entry_ordered_def no_entry_def
        simp del: pl_ent.simps pl_valid.simps)
next
  case (step s s')
  then show ?case by (blast intro: pass_inv_step)
qed



lemma two_writers:
  "\<exists>pl h. pass_step\<^sup>*\<^sup>* (pipeline_ctor w, no_history) (pl, h) \<and> 0 \<in> pl_alive pl \<and> 1 \<in> pl_alive pl
     \<and> conflict (h_access h 0) (h_access h 1)"
proof -
  obtain d0 k0 pl0 where c0: "create_custom_pass [(False, 7)] (pipeline_ctor w) = (d0, k0, pl0)" by (metis prod_cases3)
  obtain d1 k1 pl1 where c1: "create_custom_pass [(True, 7)] pl0 = (d1, k1, pl1)" by (metis prod_cases3)
  note e0 = create_custom_pass_registers [OF c0] and e1 = create_custom_pass_registers [OF c1]
  let ?h0 = "new_pass d0 (resource_access [(False, 7)]) no_history"
  let ?h1 = "new_pass d1 (resource_access [(True, 7)]) ?h0"
  have "pass_step (pipeline_ctor w, no_history) (pl0, ?h0)" "pass_step (pl0, ?h0) (pl1, ?h1)"
    using c0 c1 by (auto intro: pass_step.custom)
  then have "pass_step\<^sup>*\<^sup>* (pipeline_ctor w, no_history) (pl1, ?h1)"
    by (meson converse_rtranclp_into_rtranclp rtranclp.rtrancl_refl)
  moreover have "pl_alive pl1 = {0, 1}" using e0(2,3) e1(2,3) by (auto simp: pipeline_ctor_def)
  moreover have "conflict (h_access ?h1 0) (h_access ?h1 1)"
    by (simp add: new_pass_def no_history_def resource_access_def conflict_def) blast
  ultimately show ?thesis by blast
qed




text \<open>A pass that names an entry twice, first for reading and then for writing, depends on itself,
  and so does a pass with a random write over two archetypes, which registers for the type once per
  archetype: such a pass waits for itself for ever.\<close>

lemma self_dependency:
  assumes "k \<in> pl_alive pl" "map_of (pl_entries pl) at \<noteq> None"
    and "arch_index (archs (pl_world pl) at) t < firstTag (archs (pl_world pl) at)"
    and "arch_index (archs (pl_world pl) at) t \<noteq> InvalidIndex"
  shows "fst (snd (create_custom_pass [(True, r), (False, r)] pl0)) \<in> set (fst (create_custom_pass [(True, r), (False, r)] pl0))
    \<and> k \<in> set (snd (setup_type k t False (at # ats) (setup_type k t False [at] (pl, deps))))"
proof
  show "fst (snd (create_custom_pass [(True, r), (False, r)] pl0)) \<in> set (fst (create_custom_pass [(True, r), (False, r)] pl0))"
    by (auto simp: create_custom_pass_def setup_shared_dependency_def Let_def touch_entry_def read_entry_def write_entry_def
        split: prod.splits)
next
  let ?i = "arch_index (archs (pl_world pl) at) t"
  obtain pl1 d1 where u1: "upd_entry at ?i (touch_entry True (pl_alive pl) k False) (pl, deps) = (pl1, d1)" by force
  note e1 = upd_entry_effect [OF u1 assms(2)]
  obtain pl2 d2 where u2: "upd_entry at ?i (touch_entry True (pl_alive pl) k False) (pl1, d1) = (pl2, d2)" by force
  have "map_of (pl_entries pl1) at \<noteq> None" using e1(7) [of at] assms(2) by simp
  note e2 = upd_entry_effect [OF u2 this]
  have "pl_ent pl1 (Inr (at, ?i)) = touched (pl_alive pl) k False (pl_ent pl (Inr (at, ?i)))"
    using e1(1) touch_entry_eq(1) by (metis prod.sel(1))
  then have "owner_in (pl_alive pl) (pl_ent pl1 (Inr (at, ?i))) = {k}" "shared (pl_ent pl1 (Inr (at, ?i))) = []"
    using assms(1) by (auto simp: touched_def owner_in_def)
  then have "k \<in> set d2"
    using e2(1) touch_entry_eq(2) [of True "pl_alive pl" k False "pl_ent pl1 (Inr (at, ?i))" d1]
    by (auto simp: touch_deps_def dest: arg_cong [where f = snd])
  moreover have "set d2 \<subseteq> set (snd (setup_type k t False ats (pl2, d2)))"
  proof -
    have "set d \<subseteq> set (snd (setup_type k t False ats (pl', d)))" for pl' d
    proof (induction ats arbitrary: pl' d)
      case (Cons a ats)
      let ?j = "arch_index (archs (pl_world pl') a) t"
      obtain pl'' d'' where u: "upd_entry a ?j (touch_entry True (pl_alive pl') k False) (pl', d) = (pl'', d'')" by force
      have "set d \<subseteq> set d''"
      proof (cases "map_of (pl_entries pl') a = None")
        case True
        then show ?thesis using u by (auto simp: upd_entry_def split: option.splits)
      next
        case False
        from upd_entry_effect(1) [OF u this] touch_entry_eq(2) show ?thesis by (metis Un_upper1 prod.sel(2))
      qed
      then show ?case using Cons.IH [of d'' pl''] u by (auto simp: Let_def)
    qed simp
    then show ?thesis .
  qed
  ultimately show "k \<in> set (snd (setup_type k t False (at # ats) (setup_type k t False [at] (pl, deps))))"
    using u1 u2 assms(3,4) e1(4,5) by (auto simp: Let_def)
qed


lemma self_dependency_example:
  "(let w = (blank_memory context_init)\<lparr>archs := (\<lambda>_. zero_archetype\<lparr>g_types := [0], firstTag := 2\<rparr>)\<rparr>;
        pl = (pipeline_ctor w)\<lparr>pl_entries := [(5, \<lambda>_. no_entry)], pl_alive := {3}\<rparr>
    in 3 \<in> set (snd (setup_type 3 0 False [5] (setup_type 3 0 False [5] (pl, [])))))"
  unfolding Let_def
  by (rule self_dependency [where at = 5 and ats = "[]", THEN conjunct2])
    (simp_all add: pipeline_ctor_def arch_index_def types_index_def lower_bound_def InvalidIndex_def zero_archetype_def u16_def)

end
