(* ===== verification/Pipeline_Tasks.thy ===== *)
theory Pipeline_Tasks
  imports Pipeline
begin

text \<open>
  What \<open>create_tasks\<close> promises: the tasks of a pass cover every row of its chunks once and in
  order, each task knows the number of its first row in the pass, and the groups cut the tasks
  into runs of \<open>batchCount\<close> rows.  (\<open>int\<close> and \<open>uint32_t\<close> counters are numbers that do not
  overflow here.)
\<close>

abbreviation task_count :: "task \<Rightarrow> nat" where
  "task_count t \<equiv> sl_count (tk_slice t)"

definition rows_of_tasks :: "task list \<Rightarrow> nat" where
  "rows_of_tasks ts = sum_list (map task_count ts)"

text \<open>The groups lead from task \<open>b\<close> to task \<open>e\<close>; every one has \<open>B\<close> rows.\<close>

fun full_groups :: "nat \<Rightarrow> task list \<Rightarrow> nat \<Rightarrow> (nat \<times> nat) list \<Rightarrow> nat \<Rightarrow> bool" where
  "full_groups B ts b [] e \<longleftrightarrow> b = e"
| "full_groups B ts b ((b', e') # gs) e \<longleftrightarrow>
     b' = b \<and> b < e' \<and> e' \<le> length ts \<and> rows_of_tasks (drop b (take e' ts)) = B \<and> full_groups B ts e' gs e"

definition chunk_rows :: "world \<Rightarrow> ptr \<Rightarrow> (ptr \<times> nat) list" where
  "chunk_rows w c = map (Pair c) [0..<c_count (chunks w c)]"

text \<open>The state of the loops after the rows \<open>rs\<close>.\<close>

definition cut_state :: "nat \<Rightarrow> (nat \<Rightarrow> ptr \<Rightarrow> bool) \<Rightarrow> (ptr \<times> nat) list \<Rightarrow> task_state \<Rightarrow> bool" where
  "cut_state B own rs st \<longleftrightarrow>
     concat (map (rows_in \<circ> tk_slice) (ts_tasks st)) = rs \<and> ts_index st = length rs
     \<and> (\<forall>n<length (ts_tasks st). tk_index (ts_tasks st ! n) = rows_of_tasks (take n (ts_tasks st))
          \<and> 0 < task_count (ts_tasks st ! n) \<and> own (tk_gid (ts_tasks st ! n)) (sl_c (tk_slice (ts_tasks st ! n))))
     \<and> fst (ts_group st) = snd (ts_group st) \<and> snd (ts_group st) \<le> length (ts_tasks st)
     \<and> full_groups B (ts_tasks st) 0 (ts_groups st) (snd (ts_group st))
     \<and> 0 < ts_batch st \<and> rows_of_tasks (drop (snd (ts_group st)) (ts_tasks st)) + ts_batch st = B"

lemma length_rows_in [simp]: "length (rows_in s) = sl_count s"
  by (simp add: rows_in_def)

lemma rows_of_tasks_length: "length (concat (map (rows_in \<circ> tk_slice) ts)) = rows_of_tasks ts"
  by (induction ts) (auto simp: rows_of_tasks_def)

lemma rows_of_tasks_append [simp]: "rows_of_tasks (xs @ ys) = rows_of_tasks xs + rows_of_tasks ys"
  by (simp add: rows_of_tasks_def)

lemma rows_of_tasks_one [simp]: "rows_of_tasks [] = 0" "rows_of_tasks [t] = task_count t"
  by (simp_all add: rows_of_tasks_def)

lemma full_groups_more: "full_groups B ts b gs e \<Longrightarrow> full_groups B (ts @ us) b gs e"
  by (induction B ts b gs e rule: full_groups.induct) auto

lemma full_groups_snoc:
  "full_groups B ts b gs e \<Longrightarrow> e < e' \<Longrightarrow> e' \<le> length ts \<Longrightarrow> rows_of_tasks (drop e (take e' ts)) = B \<Longrightarrow>
     full_groups B ts b (gs @ [(e, e')]) e'"
  by (induction B ts b gs e rule: full_groups.induct) auto

lemma cut_step:
  assumes st: "cut_state B own rs st" and B: "0 < B" and c: "own gid c" and n: "allocated < n"
    and k: "k = min (n - allocated) (ts_batch st)"
    and st1: "st1 = st\<lparr>ts_index := ts_index st + k, ts_batch := ts_batch st - k,
        ts_tasks := ts_tasks st @ [\<lparr>tk_gid = gid, tk_index = ts_index st, tk_slice = \<lparr>sl_c = c, sl_start = allocated, sl_count = k\<rparr>\<rparr>]\<rparr>"
    and st2: "st2 = (if ts_batch st1 = 0
        then st1\<lparr>ts_groups := ts_groups st1 @ [(fst (ts_group st1), length (ts_tasks st1))],
                 ts_group := (length (ts_tasks st1), length (ts_tasks st1)), ts_batch := B\<rparr>
        else st1)"
  shows "cut_state B own (rs @ map (Pair c) [allocated..<allocated + k]) st2 \<and> 0 < k \<and> allocated + k \<le> n"
proof -
  let ?t = "\<lparr>tk_gid = gid, tk_index = ts_index st, tk_slice = \<lparr>sl_c = c, sl_start = allocated, sl_count = k\<rparr>\<rparr>"
  let ?ts = "ts_tasks st @ [?t]" and ?e = "snd (ts_group st)"
  have k0: "0 < k" "k \<le> ts_batch st" "allocated + k \<le> n" using k n st by (auto simp: cut_state_def)
  have rows: "rows_in (tk_slice ?t) = map (Pair c) [allocated..<allocated + k]"
    by (rule nth_equalityI) (auto simp: rows_in_def)
  have index: "ts_index st = rows_of_tasks (ts_tasks st)"
    using st rows_of_tasks_length [of "ts_tasks st"] by (simp add: cut_state_def)
  have each: "\<forall>m<length ?ts. tk_index (?ts ! m) = rows_of_tasks (take m ?ts) \<and> 0 < task_count (?ts ! m) \<and> own (tk_gid (?ts ! m)) (sl_c (tk_slice (?ts ! m)))"
    using st index k0(1) c by (auto simp: cut_state_def nth_append less_Suc_eq)
  have groups: "full_groups B ?ts 0 (ts_groups st) ?e" using st by (auto simp: cut_state_def intro: full_groups_more)
  have e: "?e \<le> length (ts_tasks st)" using st by (simp add: cut_state_def)
  have batch: "rows_of_tasks (drop ?e ?ts) + (ts_batch st - k) = B" using st k0(2) e by (simp add: cut_state_def)
  show ?thesis
  proof (cases "ts_batch st - k = 0")
    case True
    have "full_groups B ?ts 0 (ts_groups st @ [(?e, length ?ts)]) (length ?ts)"
      by (rule full_groups_snoc [OF groups]) (use e batch True in auto)
    then show ?thesis
      using st True each rows B k0 unfolding st2 st1 by (auto simp: cut_state_def)
  next
    case False
    then show ?thesis
      using st each rows groups batch k0 e unfolding st2 st1 by (auto simp: cut_state_def)
  qed
qed

lemma cut_chunk_ok:
  assumes "cut_state B own rs st" "0 < B" "own gid c" "allocated \<le> n"
  shows "\<exists>st'. cut_chunk B gid c n allocated st = Some st' \<and> cut_state B own (rs @ map (Pair c) [allocated..<n]) st'"
  using assms(1,4)
proof (induction "n - allocated" arbitrary: allocated rs st rule: less_induct)
  case less
  show ?case
  proof (cases "allocated = n")
    case True
    then show ?thesis using less.prems by (subst cut_chunk.simps) simp
  next
    case False
    then have lt: "allocated < n" using less.prems by simp
    define k where "k = min (n - allocated) (ts_batch st)"
    define st1 where "st1 = st\<lparr>ts_index := ts_index st + k, ts_batch := ts_batch st - k,
        ts_tasks := ts_tasks st @ [\<lparr>tk_gid = gid, tk_index = ts_index st, tk_slice = \<lparr>sl_c = c, sl_start = allocated, sl_count = k\<rparr>\<rparr>]\<rparr>"
    define st2 where "st2 = (if ts_batch st1 = 0
        then st1\<lparr>ts_groups := ts_groups st1 @ [(fst (ts_group st1), length (ts_tasks st1))],
                 ts_group := (length (ts_tasks st1), length (ts_tasks st1)), ts_batch := B\<rparr>
        else st1)"
    note step = cut_step [OF less.prems(1) assms(2,3) lt k_def st1_def st2_def]
    have smaller: "n - (allocated + k) < n - allocated" using step lt by linarith
    have "cut_chunk B gid c n allocated st = cut_chunk B gid c n (allocated + k) st2"
      using False by (subst cut_chunk.simps) (simp add: Let_def k_def st1_def st2_def)
    moreover obtain st' where "cut_chunk B gid c n (allocated + k) st2 = Some st'"
        "cut_state B own ((rs @ map (Pair c) [allocated..<allocated + k]) @ map (Pair c) [allocated + k..<n]) st'"
      using less.hyps [OF smaller, of "rs @ map (Pair c) [allocated..<allocated + k]" st2] step by blast
    moreover have "[allocated..<allocated + k] @ [allocated + k..<n] = [allocated..<n]"
      using step lt by (metis upt_add_eq_append le_add_diff_inverse le_add1)
    ultimately show ?thesis by (metis append.assoc map_append)
  qed
qed

lemma cut_chunks_ok:
  "cut_state B own rs st \<Longrightarrow> 0 < B \<Longrightarrow> \<forall>c\<in>set cs. own gid c \<Longrightarrow>
     \<exists>st'. cut_chunks w B gid cs st = Some st' \<and> cut_state B own (rs @ concat (map (chunk_rows w) cs)) st'"
proof (induction cs arbitrary: rs st)
  case (Cons c cs)
  obtain st1 where st1: "cut_chunk B gid c (c_count (chunks w c)) 0 st = Some st1" "cut_state B own (rs @ chunk_rows w c) st1"
    using cut_chunk_ok [OF Cons.prems(1,2), of gid c 0] Cons.prems(3) by (auto simp: chunk_rows_def)
  from Cons.IH [OF st1(2) Cons.prems(2)] Cons.prems(3) st1(1) show ?case by simp
qed simp

lemma cut_archetypes_ok:
  assumes "cut_state B own rs st" "0 < B" "\<forall>i<length ats. query_chunks w (ats ! i) f = Some (css (ats ! i)) \<and> (\<forall>c\<in>set (css (ats ! i)). own (gid + i) c)"
  shows "\<exists>st'. cut_archetypes w f B gid ats st = Some st'
     \<and> cut_state B own (rs @ concat (map (\<lambda>at. concat (map (chunk_rows w) (css at))) ats)) st'"
  using assms
proof (induction ats arbitrary: rs st gid)
  case (Cons at ats)
  have at: "query_chunks w at f = Some (css at)" "\<forall>c\<in>set (css at). own gid c"
    using Cons.prems(3) by (auto dest: spec [of _ 0])
  obtain st1 where st1: "cut_chunks w B gid (css at) st = Some st1" "cut_state B own (rs @ concat (map (chunk_rows w) (css at))) st1"
    using cut_chunks_ok [OF Cons.prems(1,2) at(2)] by blast
  have "\<forall>i<length ats. query_chunks w (ats ! i) f = Some (css (ats ! i)) \<and> (\<forall>c\<in>set (css (ats ! i)). own (gid + 1 + i) c)"
    using Cons.prems(3) by (metis Suc_less_eq add.assoc length_Cons nth_Cons_Suc plus_1_eq_Suc)
  from Cons.IH [OF st1(2) Cons.prems(2) this] at st1(1) show ?case by simp
qed simp

text \<open>C16. \<open>create_tasks\<close> with a positive batch size returns, given the chunks \<open>query\<close> finds for every
  archetype of the pass: its tasks cover exactly the rows of these chunks, in order and each once;
  every task has rows, knows the number of its first row within the pass and the archetype its
  chunk was found for; and the groups cut the tasks into consecutive runs of \<open>batchCount\<close> rows, the
  last of which may be shorter.\<close>

theorem create_tasks_partition:
  assumes B: "0 < B" and css: "\<forall>at\<in>set (ps_archetypes k). query_chunks w at (ps_chunkFilter k) = Some (css at)"
  shows "\<exists>ts gs. create_tasks w k B = Some (ts, gs)
    \<and> concat (map (rows_in \<circ> tk_slice) ts) = concat (map (\<lambda>at. concat (map (chunk_rows w) (css at))) (ps_archetypes k))
    \<and> (\<forall>n<length ts. tk_index (ts ! n) = rows_of_tasks (take n ts) \<and> 0 < task_count (ts ! n)
          \<and> tk_gid (ts ! n) < length (ps_archetypes k) \<and> sl_c (tk_slice (ts ! n)) \<in> set (css (ps_archetypes k ! tk_gid (ts ! n))))
    \<and> (\<exists>full last e. gs = full @ last \<and> full_groups B ts 0 full e \<and> rows_of_tasks (drop e ts) < B
          \<and> last = (if e = length ts then [] else [(e, length ts)]))"
proof -
  let ?own = "\<lambda>g c. g < length (ps_archetypes k) \<and> c \<in> set (css (ps_archetypes k ! g))"
  let ?st = "\<lparr>ts_index = 0, ts_batch = B, ts_tasks = [], ts_groups = [], ts_group = (0, 0)\<rparr>"
  have "cut_state B ?own [] ?st" using B by (simp add: cut_state_def)
  moreover have "\<forall>i<length (ps_archetypes k). query_chunks w (ps_archetypes k ! i) (ps_chunkFilter k) = Some (css (ps_archetypes k ! i))
      \<and> (\<forall>c\<in>set (css (ps_archetypes k ! i)). ?own (0 + i) c)" using css by simp
  ultimately obtain st where st: "cut_archetypes w (ps_chunkFilter k) B 0 (ps_archetypes k) ?st = Some st"
      "cut_state B ?own (concat (map (\<lambda>at. concat (map (chunk_rows w) (css at))) (ps_archetypes k))) st"
    using cut_archetypes_ok [OF _ B, of ?own "[]" ?st "ps_archetypes k" w "ps_chunkFilter k" css 0] by auto
  let ?e = "snd (ts_group st)" and ?n = "length (ts_tasks st)"
  have "create_tasks w k B = Some (ts_tasks st, ts_groups st @ (if ?e = ?n then [] else [(?e, ?n)]))"
    using st by (simp add: create_tasks_def cut_state_def)
  moreover have "full_groups B (ts_tasks st) 0 (ts_groups st) ?e" "rows_of_tasks (drop ?e (ts_tasks st)) < B"
    using st(2) by (auto simp: cut_state_def)
  ultimately show ?thesis using st(2) unfolding cut_state_def by blast
qed


definition one_chunk_world :: world where
  "one_chunk_world = upd_arch 9 (\<lambda>a. a\<lparr>firstChunk := 4\<rparr>) (upd_chunk 4 (\<lambda>c. c\<lparr>c_count := 3, c_type := 9\<rparr>) (blank_memory context_init))"

definition one_chunk_pass :: pass where
  "one_chunk_pass = \<lparr>ps_index = 0, ps_archetypes = [9], ps_matched = [0], ps_localType = [], ps_types = [], ps_readonly = (\<lambda>_. 0),
     ps_randomAccess = (\<lambda>_. 0), ps_hasRandomWrite = False, ps_chunkFilter = \<lparr>changed = [], prevTimestamp = 0\<rparr>, ps_dependencies = []\<rparr>"

theorem create_tasks_partition_witness:
  "\<exists>ts gs. create_tasks one_chunk_world one_chunk_pass 2 = Some (ts, gs)
     \<and> concat (map (rows_in \<circ> tk_slice) ts) = [(4, 0), (4, Suc 0), (4, 2)]"
proof -
  have "query_chunks one_chunk_world 9 \<lparr>changed = [], prevTimestamp = 0\<rparr> = Some [4]"
    by (simp add: query_chunks_def one_chunk_world_def upd_arch_def upd_chunk_def blank_memory_def zero_archetype_def zero_chunk_def
        query_chunk_loop.simps [of _ _ 4] query_chunk_loop.simps [of _ _ 0])
  then have q: "\<forall>at\<in>set (ps_archetypes one_chunk_pass). query_chunks one_chunk_world at (ps_chunkFilter one_chunk_pass) = Some [4]"
    by (simp add: one_chunk_pass_def)
  have "c_count (chunks one_chunk_world 4) = 3"
    by (simp add: one_chunk_world_def upd_arch_def upd_chunk_def)
  then have "concat (map (\<lambda>at. concat (map (chunk_rows one_chunk_world) [4])) (ps_archetypes one_chunk_pass)) = [(4, 0), (4, Suc 0), (4, 2)]"
    by (simp add: one_chunk_pass_def chunk_rows_def upt_rec)
  with create_tasks_partition [OF _ q, of 2] show ?thesis by auto
qed

end
