(* ===== verification/Kd_Tree.thy ===== *)
theory Kd_Tree
  imports Dots_Prelude "HOL-Library.Monad_Syntax" "HOL-Library.Multiset" "HOL-Library.Tree"
begin

text \<open>
  \<open>core::algo::kdtree\<close> (\<open>DotsTest/kdtree.h\<close>): construction in an array of nodes and the three
  searches.  The coordinates are any ordered ring, so rounding and overflow of a machine type are
  not part of the model; \<open>dim\<close> is \<open>Point::dim\<close>.  A node is named by its position in the array; an
  access outside of an array, and taking the last element off an empty queue, are \<open>None\<close>.

  \<open>std::nth_element\<close> promises no particular permutation: it is the parameter \<open>nth_el\<close>, with
  \<open>nth_element_ok\<close> stating what the standard says of it.
\<close>

type_synonym 'd point = "nat \<Rightarrow> 'd"
type_synonym nth_element = "(int \<Rightarrow> int \<Rightarrow> bool) \<Rightarrow> nat \<Rightarrow> int list \<Rightarrow> int list"

record kd_node =
  kn_index :: int
  kn_children :: "nat option \<times> nat option"
  kn_axis :: int

definition kd_node_init :: kd_node where
  "kd_node_init = \<lparr>kn_index = -1, kn_children = (None, None), kn_axis = -1\<rparr>"

definition kd_child :: "kd_node \<Rightarrow> nat \<Rightarrow> nat option" where
  "kd_child n c = (if c = 0 then fst (kn_children n) else snd (kn_children n))"

record 'd kdtree =
  kd_nodes :: "kd_node list"
  kd_points :: "'d point list"

definition kd_empty :: "'d kdtree" where
  "kd_empty = \<lparr>kd_nodes = [], kd_points = []\<rparr>"

section \<open>Construction\<close>

text \<open>\<open>lhs\<close> before \<open>rhs\<close> on an axis.\<close>

definition axis_less :: "'d::linordered_idom point list \<Rightarrow> nat \<Rightarrow> int \<Rightarrow> int \<Rightarrow> bool" where
  "axis_less pts axis lhs rhs \<longleftrightarrow> (pts ! nat lhs) axis < (pts ! nat rhs) axis"

lemma halves_shorter [termination_simp]:
  "xs \<noteq> [] \<Longrightarrow> min a ((length xs - Suc 0) div 2) < length xs"
  "xs \<noteq> [] \<Longrightarrow> min a (length xs - Suc b) < length xs"
  by (cases xs; auto simp: min_def)+

function build_recursive :: "nth_element \<Rightarrow> nat \<Rightarrow> 'd::linordered_idom point list \<Rightarrow> int list \<Rightarrow> nat \<Rightarrow> nat \<Rightarrow> kd_node list \<Rightarrow>
    (nat option \<times> kd_node list) option" where
  "build_recursive nth_el dim pts indices depth i ns =
     (if indices = [] then Some (None, ns)
      else if length ns \<le> i then None
      else
        let axis = depth mod dim;
            mid = (length indices - 1) div 2;
            idx = nth_el (axis_less pts axis) mid indices;
            ns1 = ns[i := (ns ! i)\<lparr>kn_index := idx ! mid, kn_axis := int axis\<rparr>]
        in do {
          (l, ns2) \<leftarrow> build_recursive nth_el dim pts (take mid idx) (depth + 1) (i + 1) ns1;
          let ns3 = ns2[i := (ns2 ! i)\<lparr>kn_children := (l, snd (kn_children (ns2 ! i)))\<rparr>];
          (r, ns4) \<leftarrow> build_recursive nth_el dim pts (take (length indices - mid - 1) (drop (mid + 1) idx))
                        (depth + 1) (i + 1 + mid) ns3;
          Some (Some i, ns4[i := (ns4 ! i)\<lparr>kn_children := (fst (kn_children (ns4 ! i)), r)\<rparr>])
        })"
  by pat_completeness auto
termination
  by (relation "measure (\<lambda>(nth_el, dim, pts, indices, depth, i, ns). length indices)") (auto simp: termination_simp)

declare build_recursive.simps [simp del]

definition nodes_resize :: "nat \<Rightarrow> kd_node list \<Rightarrow> kd_node list" where
  "nodes_resize n ns = take n ns @ replicate (n - length ns) kd_node_init"

definition kd_initialize :: "nth_element \<Rightarrow> nat \<Rightarrow> 'd::linordered_idom point list \<Rightarrow> 'd kdtree \<Rightarrow> 'd kdtree option" where
  "kd_initialize nth_el dim inPoints kd =
     map_option (\<lambda>(_, ns). \<lparr>kd_nodes = ns, kd_points = inPoints\<rparr>)
       (build_recursive nth_el dim inPoints (map int [0..<length inPoints]) 0 0
          (nodes_resize (length inPoints) (kd_nodes kd)))"

definition kd_ctor :: "nth_element \<Rightarrow> nat \<Rightarrow> 'd::linordered_idom point list \<Rightarrow> 'd kdtree option" where
  "kd_ctor nth_el dim pts = kd_initialize nth_el dim pts kd_empty"

section \<open>Searches\<close>

definition sdistance :: "nat \<Rightarrow> 'd::linordered_idom point \<Rightarrow> 'd point \<Rightarrow> 'd" where
  "sdistance dim lhs rhs = for_up (\<lambda>i dist. dist + (lhs i - rhs i) * (lhs i - rhs i)) 0 dim 0"

text \<open>The node behind a pointer, with the point it holds.\<close>

definition kd_train :: "'d kdtree \<Rightarrow> nat \<Rightarrow> (kd_node \<times> 'd point) option" where
  "kd_train kd k =
     (if k < length (kd_nodes kd) \<and> 0 \<le> kn_index (kd_nodes kd ! k) \<and> nat (kn_index (kd_nodes kd ! k)) < length (kd_points kd)
      then Some (kd_nodes kd ! k, kd_points kd ! nat (kn_index (kd_nodes kd ! k))) else None)"

text \<open>What the searches do at a node with the index and the squared distance of its point.\<close>

definition radius_visit :: "'d::linordered_idom \<Rightarrow> 'd \<Rightarrow> int \<Rightarrow> int list \<Rightarrow> int list" where
  "radius_visit sradius sdist index indices = (if sdist < sradius then indices @ [index] else indices)"

definition nearest_visit :: "'d::linordered_idom \<Rightarrow> int \<Rightarrow> int \<times> 'd \<Rightarrow> int \<times> 'd" where
  "nearest_visit sdist index s = (if sdist < snd s then (index, sdist) else s)"

definition entry_less :: "'d::linordered_idom \<times> int \<Rightarrow> 'd \<times> int \<Rightarrow> bool" where
  "entry_less a b \<longleftrightarrow> fst a < fst b \<or> (\<not> fst b < fst a \<and> snd a < snd b)"

definition queue_bound :: "'d::linordered_idom \<Rightarrow> ('d \<times> int) list \<Rightarrow> 'd" where
  "queue_bound sradius queue = (if queue = [] then sradius else fst (last queue))"

definition queue_insert :: "'d::linordered_idom \<times> int \<Rightarrow> ('d \<times> int) list \<Rightarrow> ('d \<times> int) list" where
  "queue_insert pair queue =
     takeWhile (\<lambda>x. \<not> entry_less pair x) queue @ pair # dropWhile (\<lambda>x. \<not> entry_less pair x) queue"

definition k_visit :: "'d::linordered_idom \<Rightarrow> int \<Rightarrow> 'd \<Rightarrow> int \<Rightarrow> ('d \<times> int) list \<Rightarrow> ('d \<times> int) list option" where
  "k_visit sradius k sdist index queue =
     (if sdist < queue_bound sradius queue then
        (if int (length queue) = k mod 2 ^ 64 then
           (if queue = [] then None else Some (queue_insert (sdist, index) (butlast queue)))
         else Some (queue_insert (sdist, index) queue))
      else Some queue)"

partial_function (option) search_radius_recursive :: "nat \<Rightarrow> 'd::linordered_idom kdtree \<Rightarrow> 'd point \<Rightarrow> 'd \<Rightarrow> nat option \<Rightarrow>
    int list \<Rightarrow> int list option" where
  "search_radius_recursive dim kd query sradius n indices =
     (if n = None then Some indices
      else do {
        (nd, train) \<leftarrow> kd_train kd (the n);
        let indices = radius_visit sradius (sdistance dim query train) (kn_index nd) indices;
        let axisDist = query (nat (kn_axis nd)) - train (nat (kn_axis nd));
        let child = (if axisDist < 0 then 0 else 1);
        indices \<leftarrow> search_radius_recursive dim kd query sradius (kd_child nd child) indices;
        (if axisDist * axisDist < sradius
         then search_radius_recursive dim kd query sradius (kd_child nd (1 - child)) indices
         else Some indices)
      })"

partial_function (option) search_k_radius_recursive :: "nat \<Rightarrow> 'd::linordered_idom kdtree \<Rightarrow> 'd point \<Rightarrow> 'd \<Rightarrow> int \<Rightarrow> nat option \<Rightarrow>
    ('d \<times> int) list \<Rightarrow> ('d \<times> int) list option" where
  "search_k_radius_recursive dim kd query sradius k n queue =
     (if n = None then Some queue
      else do {
        (nd, train) \<leftarrow> kd_train kd (the n);
        queue \<leftarrow> k_visit sradius k (sdistance dim query train) (kn_index nd) queue;
        let axisDist = query (nat (kn_axis nd)) - train (nat (kn_axis nd));
        let child = (if axisDist < 0 then 0 else 1);
        queue \<leftarrow> search_k_radius_recursive dim kd query sradius k (kd_child nd child) queue;
        (if axisDist * axisDist < queue_bound sradius queue
         then search_k_radius_recursive dim kd query sradius k (kd_child nd (1 - child)) queue
         else Some queue)
      })"

partial_function (option) search_nearest_recursive :: "nat \<Rightarrow> 'd::linordered_idom kdtree \<Rightarrow> 'd point \<Rightarrow> nat option \<Rightarrow>
    int \<times> 'd \<Rightarrow> (int \<times> 'd) option" where
  "search_nearest_recursive dim kd query n s =
     (if n = None then Some s
      else do {
        (nd, train) \<leftarrow> kd_train kd (the n);
        let s = nearest_visit (sdistance dim query train) (kn_index nd) s;
        let axisDist = query (nat (kn_axis nd)) - train (nat (kn_axis nd));
        let child = (if axisDist < 0 then 0 else 1);
        s \<leftarrow> search_nearest_recursive dim kd query (kd_child nd child) s;
        (if axisDist * axisDist < snd s
         then search_nearest_recursive dim kd query (kd_child nd (1 - child)) s
         else Some s)
      })"

declare search_radius_recursive.simps [code] search_k_radius_recursive.simps [code] search_nearest_recursive.simps [code]

definition search_radius :: "nat \<Rightarrow> 'd::linordered_idom kdtree \<Rightarrow> 'd point \<Rightarrow> 'd \<Rightarrow> int list \<Rightarrow> int list option" where
  "search_radius dim kd query radius indices =
     (if kd_nodes kd = [] then Some indices
      else search_radius_recursive dim kd query (radius * radius) (Some 0) indices)"

definition search_k_radius :: "nat \<Rightarrow> 'd::linordered_idom kdtree \<Rightarrow> 'd point \<Rightarrow> 'd \<Rightarrow> int \<Rightarrow> ('d \<times> int) list \<Rightarrow>
    ('d \<times> int) list option" where
  "search_k_radius dim kd query radius k indices =
     (if kd_nodes kd = [] then Some indices
      else search_k_radius_recursive dim kd query (radius * radius) k (Some 0) indices)"

text \<open>\<open>dmax\<close> is \<open>std::numeric_limits<Distance>::max()\<close>.\<close>

definition search_nearest :: "nat \<Rightarrow> 'd::linordered_idom \<Rightarrow> 'd kdtree \<Rightarrow> 'd point \<Rightarrow> int option" where
  "search_nearest dim dmax kd query =
     (if kd_nodes kd = [] then Some (-1)
      else map_option fst (search_nearest_recursive dim kd query (Some 0) (-1, dmax)))"

end
