(* ===== verification/Kd_Build.thy ===== *)
theory Kd_Build
  imports Kd_Tree
begin

text \<open>
  Construction of a \<open>kdtree\<close>.  The nodes of a subtree lie in the array in preorder (\<open>kd_lay\<close>);
  construction yields such a tree over all points, split on the axes in turn and of logarithmic
  height.
\<close>

section \<open>Trees in the node array\<close>

definition kd_ref :: "nat \<Rightarrow> (int \<times> nat) tree \<Rightarrow> nat option" where
  "kd_ref i t = (if t = Leaf then None else Some i)"

fun kd_lay :: "kd_node list \<Rightarrow> nat \<Rightarrow> (int \<times> nat) tree \<Rightarrow> bool" where
  "kd_lay ns i Leaf \<longleftrightarrow> True"
| "kd_lay ns i (Node l x r) \<longleftrightarrow> i < length ns
     \<and> ns ! i = \<lparr>kn_index = fst x, kn_children = (kd_ref (i + 1) l, kd_ref (i + 1 + size l) r), kn_axis = int (snd x)\<rparr>
     \<and> kd_lay ns (i + 1) l \<and> kd_lay ns (i + 1 + size l) r"

definition kd_indices :: "(int \<times> nat) tree \<Rightarrow> int list" where
  "kd_indices t = map fst (inorder t)"

fun kd_ordered :: "nat \<Rightarrow> 'd::linordered_idom point list \<Rightarrow> (int \<times> nat) tree \<Rightarrow> bool" where
  "kd_ordered dim pts Leaf \<longleftrightarrow> True"
| "kd_ordered dim pts (Node l x r) \<longleftrightarrow> snd x < dim
     \<and> (\<forall>j \<in> set (kd_indices l). (pts ! nat j) (snd x) \<le> (pts ! nat (fst x)) (snd x))
     \<and> (\<forall>j \<in> set (kd_indices r). (pts ! nat (fst x)) (snd x) \<le> (pts ! nat j) (snd x))
     \<and> kd_ordered dim pts l \<and> kd_ordered dim pts r"

lemma kd_indices_simps [simp]:
  "kd_indices Leaf = []" "kd_indices (Node l x r) = kd_indices l @ fst x # kd_indices r"
  by (simp_all add: kd_indices_def)

lemma length_kd_indices [simp]: "length (kd_indices t) = size t"
  by (simp add: kd_indices_def)

lemma kd_lay_cong:
  "length ns' = length ns \<Longrightarrow> (\<And>j. i \<le> j \<Longrightarrow> j < i + size t \<Longrightarrow> ns' ! j = ns ! j) \<Longrightarrow> kd_lay ns' i t = kd_lay ns i t"
  by (induction t arbitrary: i) simp_all

section \<open>Construction\<close>

definition strict_weak :: "('a \<Rightarrow> 'a \<Rightarrow> bool) \<Rightarrow> bool" where
  "strict_weak lt \<longleftrightarrow> (\<forall>x y. lt x y \<longrightarrow> \<not> lt y x) \<and> (\<forall>x y z. lt x z \<longrightarrow> lt x y \<or> lt y z)"

definition nth_element_ok :: "nth_element \<Rightarrow> bool" where
  "nth_element_ok nth_el \<longleftrightarrow> (\<forall>lt k xs. strict_weak lt \<and> k < length xs \<longrightarrow>
     mset (nth_el lt k xs) = mset xs
     \<and> (\<forall>a \<in> set (take k (nth_el lt k xs)). \<forall>b \<in> set (drop k (nth_el lt k xs)). \<not> lt b a)
     \<and> (\<forall>b \<in> set (drop k (nth_el lt k xs)). \<not> lt b (nth_el lt k xs ! k)))"

lemma strict_weak_axis [simp]: "strict_weak (axis_less pts axis)"
  by (auto simp: strict_weak_def axis_less_def)

text \<open>What one call of \<open>build_recursive\<close> leaves: its slots hold the tree, the others are untouched.\<close>

definition built :: "nat \<Rightarrow> 'd::linordered_idom point list \<Rightarrow> int list \<Rightarrow> nat \<Rightarrow> kd_node list \<Rightarrow> (int \<times> nat) tree \<Rightarrow> kd_node list \<Rightarrow> bool" where
  "built dim pts indices i ns t ns' \<longleftrightarrow> kd_lay ns' i t \<and> length ns' = length ns
     \<and> (\<forall>j. j < i \<or> i + length indices \<le> j \<longrightarrow> ns' ! j = ns ! j)
     \<and> mset (kd_indices t) = mset indices \<and> kd_ordered dim pts t \<and> 2 ^ height t \<le> max 1 (2 * length indices)"

lemma nth_element_split:
  assumes "nth_element_ok nth_el" "mid < length indices" "idx = nth_el (axis_less pts axis) mid indices"
  shows "take mid idx @ idx ! mid # drop (mid + 1) idx = idx" "length idx = length indices"
    "mset idx = mset indices"
    "\<forall>j \<in> set (take mid idx). (pts ! nat j) axis \<le> (pts ! nat (idx ! mid)) axis"
    "\<forall>j \<in> set (drop (mid + 1) idx). (pts ! nat (idx ! mid)) axis \<le> (pts ! nat j) axis"
proof -
  let ?lt = "axis_less pts axis"
  have ok: "mset idx = mset indices" "\<forall>a \<in> set (take mid idx). \<forall>b \<in> set (drop mid idx). \<not> ?lt b a"
    "\<forall>b \<in> set (drop mid idx). \<not> ?lt b (idx ! mid)"
    using assms(1) [unfolded nth_element_ok_def, rule_format, of ?lt mid indices] assms(2,3) by simp_all
  show len: "length idx = length indices" using ok(1) by (metis size_mset)
  show "mset idx = mset indices" by (rule ok(1))
  have d: "drop mid idx = idx ! mid # drop (Suc mid) idx" using len assms(2) by (simp add: Cons_nth_drop_Suc)
  then show "take mid idx @ idx ! mid # drop (mid + 1) idx = idx" by (metis Suc_eq_plus1 append_take_drop_id)
  show "\<forall>j \<in> set (take mid idx). (pts ! nat j) axis \<le> (pts ! nat (idx ! mid)) axis"
    using ok(2) d by (auto simp: axis_less_def not_less)
  show "\<forall>j \<in> set (drop (mid + 1) idx). (pts ! nat (idx ! mid)) axis \<le> (pts ! nat j) axis"
    using ok(3) d by (auto simp: axis_less_def not_less)
qed

lemma height_step:
  assumes "0 < n" "2 ^ hl \<le> max (1::nat) (2 * ((n - 1) div 2))" "2 ^ hr \<le> max 1 (2 * (n - (n - 1) div 2 - 1))"
  shows "2 ^ Suc (max hl hr) \<le> 2 * n"
proof (cases "hl \<le> hr")
  case True
  then have "(2::nat) ^ Suc (max hl hr) \<le> 2 * max 1 (2 * (n - (n - 1) div 2 - 1))" using assms(3) by (simp add: max_def)
  also have "\<dots> \<le> 2 * n" using assms(1) by (auto simp: max_def)
  finally show ?thesis .
next
  case False
  then have "(2::nat) ^ Suc (max hl hr) \<le> 2 * max 1 (2 * ((n - 1) div 2))" using assms(2) by (simp add: max_def)
  also have "\<dots> \<le> 2 * n" using assms(1) by (auto simp: max_def)
  finally show ?thesis .
qed

lemma built_node:
  assumes "i + length indices \<le> length ns" "mid < length indices" "mid = (length indices - 1) div 2"
    and idx: "take mid idx @ x # rest = idx" "length idx = length indices" "mset idx = mset indices"
    and ord: "\<forall>j \<in> set (take mid idx). (pts ! nat j) ax \<le> (pts ! nat x) ax"
      "\<forall>j \<in> set rest. (pts ! nat x) ax \<le> (pts ! nat j) ax"
    and ax: "ax < dim" and i1: "ns1 = ns[i := (ns ! i)\<lparr>kn_index := x, kn_axis := int ax\<rparr>]"
    and l: "built dim pts (take mid idx) (i + 1) ns1 lt1 ns2"
    and i3: "ns3 = ns2[i := (ns2 ! i)\<lparr>kn_children := (kd_ref (i + 1) lt1, c)\<rparr>]"
    and r: "built dim pts rest (i + 1 + mid) ns3 rt1 ns4"
  shows "built dim pts indices i ns (Node lt1 (x, ax) rt1)
     (ns4[i := (ns4 ! i)\<lparr>kn_children := (fst (kn_children (ns4 ! i)), kd_ref (i + 1 + mid) rt1)\<rparr>])"
proof -
  let ?ns = "ns4[i := (ns4 ! i)\<lparr>kn_children := (fst (kn_children (ns4 ! i)), kd_ref (i + 1 + mid) rt1)\<rparr>]"
  have len: "length (take mid idx) = mid" "length rest = length indices - mid - 1"
    using assms(2) idx(2) arg_cong [OF idx(1), of length] by simp_all
  have lens: "length ns1 = length ns" "length ns2 = length ns" "length ns3 = length ns" "length ns4 = length ns"
    using i1 i3 l r by (simp_all add: built_def)
  have sz: "size lt1 = mid" "size rt1 = length indices - mid - 1"
    using l r len by (metis built_def length_kd_indices size_mset)+
  have i: "i < length ns" using assms(1,2) by simp
  have at_i: "ns4 ! i = ns3 ! i" "ns2 ! i = ns1 ! i" using l r by (simp_all add: built_def)
  have other: "?ns ! j = ns4 ! j" "ns3 ! j = ns2 ! j" "ns1 ! j = ns ! j" if "j \<noteq> i" for j using that i1 i3 by simp_all
  have node: "?ns ! i = \<lparr>kn_index = x, kn_children = (kd_ref (i + 1) lt1, kd_ref (i + 1 + mid) rt1), kn_axis = int ax\<rparr>"
    using i lens at_i i1 i3 by simp
  have low: "ns4 ! j = ns2 ! j" if "i < j" "j < i + 1 + mid" for j using r that other(2) [of j] by (simp add: built_def)
  have "kd_lay ?ns (i + 1) lt1"
    using l low lens by (subst kd_lay_cong [of _ ns2]) (auto simp: built_def sz)
  moreover have "kd_lay ?ns (i + 1 + mid) rt1"
    using r lens by (subst kd_lay_cong [of _ ns4]) (auto simp: built_def)
  ultimately have lay: "kd_lay ?ns i (Node lt1 (x, ax) rt1)" using node i lens sz by simp
  have keepl: "ns2 ! j = ns1 ! j" if "j < i + 1 \<or> i + 1 + mid \<le> j" for j
    using l that len(1) unfolding built_def by metis
  have "i + 1 + mid + length rest = i + length indices" using len(2) assms(2) by simp
  then have keepr: "ns4 ! j = ns3 ! j" if "j < i + 1 + mid \<or> i + length indices \<le> j" for j
    using r that unfolding built_def by metis
  have keep: "?ns ! j = ns ! j" if "j < i \<or> i + length indices \<le> j" for j
  proof -
    have "j \<noteq> i" "j < i + 1 \<or> i + 1 + mid \<le> j" "j < i + 1 + mid \<or> i + length indices \<le> j" using that assms(2) by auto
    then show ?thesis using keepl [of j] keepr [of j] other [of j] by simp
  qed
  have m: "mset (kd_indices lt1) = mset (take mid idx)" "mset (kd_indices rt1) = mset rest" using l r by (simp_all add: built_def)
  have "mset (kd_indices (Node lt1 (x, ax) rt1)) = mset (take mid idx @ x # rest)" using m by simp
  then have ms: "mset (kd_indices (Node lt1 (x, ax) rt1)) = mset indices" using idx by metis
  have "kd_ordered dim pts (Node lt1 (x, ax) rt1)"
    using l r ax ord mset_eq_setD [OF m(1)] mset_eq_setD [OF m(2)] by (simp add: built_def)
  moreover have "2 ^ height (Node lt1 (x, ax) rt1) \<le> max 1 (2 * length indices)"
    using height_step [of "length indices" "height lt1" "height rt1"] l r len assms(2,3)
    by (cases "indices = []") (auto simp: built_def)
  ultimately show ?thesis using lay keep ms lens unfolding built_def by simp
qed

lemma build_recursive_step:
  assumes "indices \<noteq> []" "i < length ns" "mid = (length indices - 1) div 2"
    and "idx = nth_el (axis_less pts (depth mod dim)) mid indices"
    and "ns1 = ns[i := (ns ! i)\<lparr>kn_index := idx ! mid, kn_axis := int (depth mod dim)\<rparr>]"
    and "build_recursive nth_el dim pts (take mid idx) (depth + 1) (i + 1) ns1 = Some (l, ns2)"
    and "ns3 = ns2[i := (ns2 ! i)\<lparr>kn_children := (l, snd (kn_children (ns2 ! i)))\<rparr>]"
    and "build_recursive nth_el dim pts (take (length indices - mid - 1) (drop (mid + 1) idx)) (depth + 1) (i + 1 + mid) ns3
      = Some (r, ns4)"
  shows "build_recursive nth_el dim pts indices depth i ns
    = Some (Some i, ns4[i := (ns4 ! i)\<lparr>kn_children := (fst (kn_children (ns4 ! i)), r)\<rparr>])"
  using assms by (subst build_recursive.simps) (simp add: Let_def)

lemma build_recursive_built:
  assumes "nth_element_ok nth_el" "0 < dim" "i + length indices \<le> length ns"
  shows "\<exists>t ns'. build_recursive nth_el dim pts indices depth i ns = Some (kd_ref i t, ns') \<and> built dim pts indices i ns t ns'"
  using assms
proof (induction nth_el dim pts indices depth i ns rule: build_recursive.induct)
  case (1 nth_el dim pts indices depth i ns)
  show ?case
  proof (cases "indices = []")
    case True
    then show ?thesis
      by (intro exI [of _ Leaf] exI [of _ ns]) (simp add: build_recursive.simps kd_ref_def built_def)
  next
    case False
    define mid where "mid = (length indices - 1) div 2"
    define idx where "idx = nth_el (axis_less pts (depth mod dim)) mid indices"
    define ns1 where "ns1 = ns[i := (ns ! i)\<lparr>kn_index := idx ! mid, kn_axis := int (depth mod dim)\<rparr>]"
    have mid: "mid < length indices" using False by (cases indices) (auto simp: mid_def)
    note split = nth_element_split [OF 1(3) mid idx_def]
    have i: "\<not> length ns \<le> i" using 1(5) mid by simp
    note IH = 1(1,2) [OF False i refl mid_def idx_def ns1_def]
    obtain lt1 ns2 where l: "build_recursive nth_el dim pts (take mid idx) (depth + 1) (i + 1) ns1 = Some (kd_ref (i + 1) lt1, ns2)"
      "built dim pts (take mid idx) (i + 1) ns1 lt1 ns2"
      using IH(1) 1(3-5) mid split(2) by (auto simp: ns1_def)
    define ns3 where "ns3 = ns2[i := (ns2 ! i)\<lparr>kn_children := (kd_ref (i + 1) lt1, snd (kn_children (ns2 ! i)))\<rparr>]"
    have rest: "take (length indices - mid - 1) (drop (mid + 1) idx) = drop (mid + 1) idx" using split(2) by simp
    have room: "i + 1 + mid + length (drop (mid + 1) idx) \<le> length ns3"
      using 1(5) l(2) mid split(2) by (simp add: ns3_def ns1_def built_def)
    obtain rt1 ns4 where r: "build_recursive nth_el dim pts (drop (mid + 1) idx) (depth + 1) (i + 1 + mid) ns3 = Some (kd_ref (i + 1 + mid) rt1, ns4)"
      "built dim pts (drop (mid + 1) idx) (i + 1 + mid) ns3 rt1 ns4"
      using IH(2) [OF l(1) refl ns3_def, unfolded rest, OF 1(3,4) room] by auto
    have "build_recursive nth_el dim pts indices depth i ns = Some (Some i,
        ns4[i := (ns4 ! i)\<lparr>kn_children := (fst (kn_children (ns4 ! i)), kd_ref (i + 1 + mid) rt1)\<rparr>])"
      by (rule build_recursive_step [OF False _ mid_def idx_def ns1_def l(1) ns3_def])
         (use i r(1) rest in simp_all)
    moreover have "built dim pts indices i ns (Node lt1 (idx ! mid, depth mod dim) rt1)
        (ns4[i := (ns4 ! i)\<lparr>kn_children := (fst (kn_children (ns4 ! i)), kd_ref (i + 1 + mid) rt1)\<rparr>])"
      by (rule built_node [OF 1(5) mid mid_def split(1-5) _ ns1_def l(2) ns3_def r(2)]) (use 1(4) in simp)
    ultimately show ?thesis by (intro exI conjI) (simp_all add: kd_ref_def)
  qed
qed

text \<open>The concrete partition used in the examples: insertion sort.\<close>

fun insert_by :: "(int \<Rightarrow> int \<Rightarrow> bool) \<Rightarrow> int \<Rightarrow> int list \<Rightarrow> int list" where
  "insert_by lt x [] = [x]"
| "insert_by lt x (y # ys) = (if lt y x then y # insert_by lt x ys else x # y # ys)"

definition nth_by_sorting :: nth_element where
  "nth_by_sorting lt k xs = foldr (insert_by lt) xs []"

lemma insert_by_sorted:
  "strict_weak lt \<Longrightarrow> sorted_wrt (\<lambda>a b. \<not> lt b a) ys \<Longrightarrow>
     mset (insert_by lt x ys) = add_mset x (mset ys) \<and> sorted_wrt (\<lambda>a b. \<not> lt b a) (insert_by lt x ys)"
proof (induction ys)
  case (Cons y ys)
  have "set (insert_by lt x ys) = insert x (set ys)"
    using Cons by (metis set_mset_add_mset_insert set_mset_mset sorted_wrt.simps(2))
  moreover have "\<not> lt z x" if "z \<in> set ys" "\<not> lt y x" for z
    using Cons.prems that unfolding strict_weak_def by (metis sorted_wrt.simps(2))
  ultimately show ?case using Cons by (auto simp: strict_weak_def)
qed simp

lemma nth_by_sorting_ok: "nth_element_ok nth_by_sorting"
proof -
  have "mset (foldr (insert_by lt) xs []) = mset xs \<and> sorted_wrt (\<lambda>a b. \<not> lt b a) (foldr (insert_by lt) xs [])"
    if "strict_weak lt" for lt :: "int \<Rightarrow> int \<Rightarrow> bool" and xs
    using that by (induction xs) (auto simp: insert_by_sorted)
  then have sorted: "mset ys = mset xs \<and> sorted_wrt (\<lambda>a b. \<not> lt b a) ys" if "strict_weak lt" "ys = nth_by_sorting lt k xs" for lt k xs ys
    using that by (simp add: nth_by_sorting_def)
  show ?thesis
    unfolding nth_element_ok_def
  proof (intro allI impI)
    fix lt :: "int \<Rightarrow> int \<Rightarrow> bool" and k and xs :: "int list" assume k: "strict_weak lt \<and> k < length xs"
    define ys where "ys = nth_by_sorting lt k xs"
    have s: "mset ys = mset xs" "sorted_wrt (\<lambda>a b. \<not> lt b a) ys" using sorted [of lt ys k xs] k by (simp_all add: ys_def)
    have len: "length ys = length xs" using s(1) by (metis size_mset)
    have d: "drop k ys = ys ! k # drop (Suc k) ys" using k len by (simp add: Cons_nth_drop_Suc)
    have "sorted_wrt (\<lambda>a b. \<not> lt b a) (take k ys @ drop k ys)" using s(2) by simp
    then have "(\<forall>a \<in> set (take k ys). \<forall>b \<in> set (drop k ys). \<not> lt b a) \<and> sorted_wrt (\<lambda>a b. \<not> lt b a) (drop k ys)"
      unfolding sorted_wrt_append by blast
    moreover from this have "\<forall>b \<in> set (drop k ys). \<not> lt b (ys ! k)"
      using k unfolding d by (auto simp: strict_weak_def)
    ultimately show "mset (nth_by_sorting lt k xs) = mset xs
      \<and> (\<forall>a \<in> set (take k (nth_by_sorting lt k xs)). \<forall>b \<in> set (drop k (nth_by_sorting lt k xs)). \<not> lt b a)
      \<and> (\<forall>b \<in> set (drop k (nth_by_sorting lt k xs)). \<not> lt b (nth_by_sorting lt k xs ! k))"
      using s(1) by (simp add: ys_def)
  qed
qed

text \<open>A finished tree: what the constructor returns and the searches rely on.\<close>

definition kd_tree :: "nat \<Rightarrow> 'd::linordered_idom kdtree \<Rightarrow> 'd point list \<Rightarrow> (int \<times> nat) tree \<Rightarrow> bool" where
  "kd_tree dim kd pts t \<longleftrightarrow> kd_points kd = pts \<and> length (kd_nodes kd) = length pts \<and> kd_lay (kd_nodes kd) 0 t
     \<and> mset (kd_indices t) = mset (map int [0..<length pts]) \<and> kd_ordered dim pts t"

lemma kd_initialize_total:
  assumes "nth_element_ok nth_el" "0 < dim"
  shows "\<exists>kd' t. kd_initialize nth_el dim pts kd = Some kd' \<and> kd_tree dim kd' pts t
    \<and> 2 ^ height t \<le> max 1 (2 * length pts)"
proof -
  have len: "length (nodes_resize n ns) = n" for n ns by (simp add: nodes_resize_def)
  obtain t ns' where b: "build_recursive nth_el dim pts (map int [0..<length pts]) 0 0 (nodes_resize (length pts) (kd_nodes kd))
      = Some (kd_ref 0 t, ns')"
    and t: "built dim pts (map int [0..<length pts]) 0 (nodes_resize (length pts) (kd_nodes kd)) t ns'"
    using build_recursive_built [OF assms, of 0 "map int [0..<length pts]" "nodes_resize (length pts) (kd_nodes kd)" pts 0]
    by (auto simp: len)
  then show ?thesis by (intro exI) (auto simp: kd_initialize_def kd_tree_def built_def len)
qed



end
