(* ===== verification/Kd_Search.thy ===== *)
theory Kd_Search
  imports Kd_Build
begin

text \<open>
  The searches of \<open>kdtree\<close>.  All three are one walk over the tree with a bound that may shrink; the
  locale \<open>pruned_walk\<close> proves once that the subtrees such a walk leaves out do not matter, and is
  interpreted with what each search does at a node.
\<close>

section \<open>Pruned walks\<close>

fun kd_walk :: "'d::linordered_idom point list \<Rightarrow> 'd point \<Rightarrow> ('s \<Rightarrow> 'd) \<Rightarrow> (int \<Rightarrow> 's \<Rightarrow> 's option) \<Rightarrow> (int \<times> nat) tree \<Rightarrow>
    's \<Rightarrow> 's option" where
  "kd_walk pts query bound visit Leaf s = Some s"
| "kd_walk pts query bound visit (Node l x r) s = do {
     s \<leftarrow> visit (fst x) s;
     let d = query (snd x) - (pts ! nat (fst x)) (snd x);
     s \<leftarrow> kd_walk pts query bound visit (if d < 0 then l else r) s;
     (if d * d < bound s then kd_walk pts query bound visit (if d < 0 then r else l) s else Some s)
   }"

lemma axis_dist_le: "a < dim \<Longrightarrow> (query a - p a) * (query a - p a) \<le> sdistance dim query p"
proof -
  assume a: "a < dim"
  let ?sq = "\<lambda>i. (query i - p i) * (query i - p i)"
  have "sdistance n query p = (\<Sum>i<n. ?sq i)" for n by (induction n) (simp_all add: sdistance_def for_up_Suc)
  moreover have "(\<Sum>i \<in> {a}. ?sq i) \<le> (\<Sum>i<dim. ?sq i)" by (rule sum_mono2) (use a in auto)
  ultimately show ?thesis by simp
qed

lemma square_mono: "(0::'a::linordered_idom) \<le> a \<Longrightarrow> a \<le> b \<or> a \<le> - b \<Longrightarrow> a * a \<le> b * b"
  by (metis mult_mono' minus_mult_minus)

text \<open>On the far side of the splitting plane nothing is nearer than the plane.\<close>

lemma far_side:
  assumes "kd_ordered dim pts (Node l x r)" "d = query (snd x) - (pts ! nat (fst x)) (snd x)"
    and "j \<in> set (kd_indices (if d < 0 then r else l))"
  shows "d * d \<le> sdistance dim query (pts ! nat j)"
proof -
  let ?e = "query (snd x) - (pts ! nat j) (snd x)"
  have "(d < 0 \<longrightarrow> ?e \<le> d) \<and> (\<not> d < 0 \<longrightarrow> d \<le> ?e)" using assms by (auto split: if_splits)
  then have "d * d \<le> ?e * ?e"
    using square_mono [of d ?e] square_mono [of "- d" ?e] by (cases "d < 0") auto
  also have "\<dots> \<le> sdistance dim query (pts ! nat j)" by (rule axis_dist_le) (use assms(1) in simp)
  finally show ?thesis .
qed

text \<open>\<open>inv V s\<close>: the state after the points of \<open>V\<close> have been taken into account.  A point that is not
  below the bound may be left out.\<close>

locale pruned_walk =
  fixes dim :: nat and pts :: "'d::linordered_idom point list" and query :: "'d point"
    and bound :: "'s \<Rightarrow> 'd" and visit :: "int \<Rightarrow> 's \<Rightarrow> 's option" and inv :: "int set \<Rightarrow> 's \<Rightarrow> bool"
  assumes visit_inv: "inv V s \<Longrightarrow> i \<notin> V \<Longrightarrow> \<exists>s'. visit i s = Some s' \<and> inv (insert i V) s'"
    and skip_inv: "inv V s \<Longrightarrow> i \<notin> V \<Longrightarrow> bound s \<le> sdistance dim query (pts ! nat i) \<Longrightarrow> inv (insert i V) s"
begin

lemma skip_all:
  assumes "finite W" "inv V s" "V \<inter> W = {}" "\<forall>i \<in> W. bound s \<le> sdistance dim query (pts ! nat i)"
  shows "inv (V \<union> W) s"
  using assms
proof (induction W)
  case (insert i W)
  then show ?case using skip_inv [of "V \<union> W" s i] by simp
qed simp

lemma walk_inv:
  assumes "kd_ordered dim pts t" "distinct (kd_indices t)" "inv V s" "V \<inter> set (kd_indices t) = {}"
  shows "\<exists>s'. kd_walk pts query bound visit t s = Some s' \<and> inv (V \<union> set (kd_indices t)) s'"
  using assms
proof (induction t arbitrary: V s)
  case (Node l x r)
  define d where "d = query (snd x) - (pts ! nat (fst x)) (snd x)"
  define near far where "near = (if d < 0 then l else r)" and "far = (if d < 0 then r else l)"
  have sides: "kd_ordered dim pts near" "kd_ordered dim pts far" "distinct (kd_indices near)" "distinct (kd_indices far)"
    "set (kd_indices near) \<inter> set (kd_indices far) = {}" "fst x \<notin> set (kd_indices near) \<union> set (kd_indices far)"
    "set (kd_indices (Node l x r)) = insert (fst x) (set (kd_indices near) \<union> set (kd_indices far))"
    using Node.prems(1,2) by (auto simp: near_def far_def)
  have IH: "\<exists>s'. kd_walk pts query bound visit u s = Some s' \<and> inv (V \<union> set (kd_indices u)) s'"
    if "u = near \<or> u = far" "inv V s" "V \<inter> set (kd_indices u) = {}" for u V s
    using Node.IH [of V s] sides that by (auto simp: near_def far_def split: if_splits)
  obtain s1 where s1: "visit (fst x) s = Some s1" "inv (insert (fst x) V) s1"
    using visit_inv [OF Node.prems(3), of "fst x"] Node.prems(4) by auto
  obtain s2 where s2: "kd_walk pts query bound visit near s1 = Some s2" "inv (insert (fst x) V \<union> set (kd_indices near)) s2"
    using IH [of near, OF _ s1(2)] sides(6,7) Node.prems(4) by auto
  have disj: "(insert (fst x) V \<union> set (kd_indices near)) \<inter> set (kd_indices far) = {}"
    using sides(5-7) Node.prems(4) by auto
  have all: "insert (fst x) V \<union> set (kd_indices near) \<union> set (kd_indices far) = V \<union> set (kd_indices (Node l x r))"
    using sides(7) by auto
  have walk: "kd_walk pts query bound visit (Node l x r) s
      = (if d * d < bound s2 then kd_walk pts query bound visit far s2 else Some s2)"
    using s1 s2 by (simp add: Let_def d_def [symmetric] near_def far_def)
  have plane: "d * d \<le> sdistance dim query (pts ! nat j)" if "j \<in> set (kd_indices far)" for j
    using far_side [of dim pts l x r d query j] Node.prems(1) that unfolding d_def far_def by blast
  show ?case
  proof (cases "d * d < bound s2")
    case True
    then show ?thesis using IH [of far, OF _ s2(2) disj] walk all by simp
  next
    case False
    have "inv (insert (fst x) V \<union> set (kd_indices near) \<union> set (kd_indices far)) s2"
      by (rule skip_all [OF _ s2(2) disj]) (use False plane in \<open>force simp: not_less\<close>)+
    then show ?thesis using False walk all by simp
  qed
qed simp

end

section \<open>The searches are pruned walks\<close>

lemma kd_ref_simps [simp]: "kd_ref i Leaf = None" "kd_ref i (Node l x r) = Some i"
  by (simp_all add: kd_ref_def)

definition valid_indices :: "'d point list \<Rightarrow> (int \<times> nat) tree \<Rightarrow> bool" where
  "valid_indices pts t \<longleftrightarrow> (\<forall>j \<in> set (kd_indices t). 0 \<le> j \<and> nat j < length pts)"

lemma valid_indices_simps [simp]:
  "valid_indices pts Leaf"
  "valid_indices pts (Node l x r) \<longleftrightarrow> 0 \<le> fst x \<and> nat (fst x) < length pts \<and> valid_indices pts l \<and> valid_indices pts r"
  by (auto simp: valid_indices_def)

lemma kd_train_node:
  assumes "kd_lay (kd_nodes kd) i (Node l x r)" "valid_indices (kd_points kd) (Node l x r)"
  shows "kd_train kd i = Some (kd_nodes kd ! i, kd_points kd ! nat (fst x))"
  using assms by (simp add: kd_train_def)

lemma search_radius_walk:
  "kd_lay (kd_nodes kd) i t \<Longrightarrow> valid_indices (kd_points kd) t \<Longrightarrow>
   search_radius_recursive dim kd query sr (kd_ref i t) s
     = kd_walk (kd_points kd) query (\<lambda>_. sr)
         (\<lambda>j s. Some (radius_visit sr (sdistance dim query (kd_points kd ! nat j)) j s)) t s"
proof (induction t arbitrary: i s)
  case Leaf
  then show ?case by (simp add: search_radius_recursive.simps)
next
  case (Node l x r)
  then show ?case
    using kd_train_node [OF Node.prems]
    by (subst search_radius_recursive.simps) (simp add: Let_def kd_child_def cong: if_cong)
qed

lemma search_nearest_walk:
  "kd_lay (kd_nodes kd) i t \<Longrightarrow> valid_indices (kd_points kd) t \<Longrightarrow>
   search_nearest_recursive dim kd query (kd_ref i t) s
     = kd_walk (kd_points kd) query snd (\<lambda>j s. Some (nearest_visit (sdistance dim query (kd_points kd ! nat j)) j s)) t s"
proof (induction t arbitrary: i s)
  case Leaf
  then show ?case by (simp add: search_nearest_recursive.simps)
next
  case (Node l x r)
  then show ?case
    using kd_train_node [OF Node.prems]
    by (subst search_nearest_recursive.simps) (simp add: Let_def kd_child_def cong: if_cong)
qed

lemma search_k_radius_walk:
  "kd_lay (kd_nodes kd) i t \<Longrightarrow> valid_indices (kd_points kd) t \<Longrightarrow>
   search_k_radius_recursive dim kd query sr k (kd_ref i t) s
     = kd_walk (kd_points kd) query (queue_bound sr)
         (\<lambda>j s. k_visit sr k (sdistance dim query (kd_points kd ! nat j)) j s) t s"
proof (induction t arbitrary: i s)
  case Leaf
  then show ?case by (simp add: search_k_radius_recursive.simps)
next
  case (Node l x r)
  then show ?case
    using kd_train_node [OF Node.prems]
    by (subst search_k_radius_recursive.simps) (simp add: Let_def kd_child_def cong: if_cong)
qed

lemmas search_walks = search_radius_walk search_nearest_walk search_k_radius_walk

section \<open>What the searches keep track of\<close>

definition radius_inv :: "nat \<Rightarrow> 'd::linordered_idom point list \<Rightarrow> 'd point \<Rightarrow> 'd \<Rightarrow> int list \<Rightarrow> int set \<Rightarrow> int list \<Rightarrow> bool" where
  "radius_inv dim pts query sr before V s \<longleftrightarrow>
     (\<exists>xs. s = before @ xs \<and> distinct xs \<and> set xs = {i \<in> V. sdistance dim query (pts ! nat i) < sr})"

definition nearest_inv :: "nat \<Rightarrow> 'd::linordered_idom point list \<Rightarrow> 'd point \<Rightarrow> 'd \<Rightarrow> int set \<Rightarrow> int \<times> 'd \<Rightarrow> bool" where
  "nearest_inv dim pts query dmax V s \<longleftrightarrow>
     (s = (-1, dmax) \<or> fst s \<in> V \<and> snd s = sdistance dim query (pts ! nat (fst s)) \<and> snd s < dmax)
     \<and> (\<forall>i \<in> V. snd s \<le> sdistance dim query (pts ! nat i))"

text \<open>The front of the queue is the nearest point so far; the bound is its last distance.\<close>

definition front :: "'d::linordered_idom \<Rightarrow> ('d \<times> int) list \<Rightarrow> 'd" where
  "front sr q = (if q = [] then sr else fst (hd q))"

definition k_inv :: "nat \<Rightarrow> 'd::linordered_idom point list \<Rightarrow> 'd point \<Rightarrow> 'd \<Rightarrow> int \<Rightarrow> int set \<Rightarrow> ('d \<times> int) list \<Rightarrow> bool" where
  "k_inv dim pts query sr k V q \<longleftrightarrow> 0 < k \<and> k < 2 ^ 31 \<and> int (length q) \<le> k \<and> sorted (map fst q) \<and> distinct (map snd q)
     \<and> (\<forall>x \<in> set q. snd x \<in> V \<and> fst x = sdistance dim query (pts ! nat (snd x)) \<and> fst x < sr)
     \<and> (\<forall>i \<in> V. front sr q \<le> sdistance dim query (pts ! nat i))"

interpretation radius: pruned_walk dim pts query "\<lambda>_. sr"
    "\<lambda>j s. Some (radius_visit sr (sdistance dim query (pts ! nat j)) j s)" "radius_inv dim pts query sr before"
  for dim pts query sr before
  by unfold_locales (auto simp: radius_inv_def radius_visit_def)

interpretation nearest: pruned_walk dim pts query snd
    "\<lambda>j s. Some (nearest_visit (sdistance dim query (pts ! nat j)) j s)" "nearest_inv dim pts query dmax"
  for dim pts query dmax
  by unfold_locales (auto simp: nearest_inv_def nearest_visit_def)

lemma mset_queue_insert [simp]: "mset (queue_insert p q) = add_mset p (mset q)"
proof -
  have "mset (takeWhile P q @ p # dropWhile P q) = add_mset p (mset (takeWhile P q @ dropWhile P q))" for P
    by (simp del: takeWhile_dropWhile_id)
  then show ?thesis by (simp only: queue_insert_def takeWhile_dropWhile_id)
qed

lemma set_queue_insert [simp]: "set (queue_insert p q) = insert p (set q)"
  by (metis mset_queue_insert set_mset_add_mset_insert set_mset_mset)

lemma length_queue_insert [simp]: "length (queue_insert p q) = Suc (length q)"
  by (metis mset_queue_insert size_add_mset size_mset)

lemma distinct_queue_insert: "distinct (map snd (queue_insert p q)) \<longleftrightarrow> snd p \<notin> snd ` set q \<and> distinct (map snd q)"
proof -
  have "mset (map snd (queue_insert p q)) = mset (snd p # map snd q)" by simp
  then show ?thesis by (metis distinct.simps(2) mset_eq_imp_distinct_iff set_map)
qed

lemma sorted_queue_insert:
  assumes "sorted (map fst q)"
  shows "sorted (map fst (queue_insert p q))"
proof -
  let ?P = "\<lambda>x. \<not> entry_less p x"
  have sq: "sorted (map fst (takeWhile ?P q @ dropWhile ?P q))" using assms by simp
  have low: "\<forall>x \<in> set (takeWhile ?P q). fst x \<le> fst p" by (auto dest: set_takeWhileD simp: entry_less_def)
  have high: "\<forall>x \<in> set (dropWhile ?P q). fst p \<le> fst x"
  proof (cases "dropWhile ?P q")
    case (Cons y ys)
    then have "entry_less p y" by (metis dropWhile_eq_Cons_conv)
    moreover have "sorted (map fst (y # ys))" using sq unfolding Cons map_append sorted_append by blast
    ultimately show ?thesis unfolding Cons by (auto simp: entry_less_def)
  next
    case Nil
    show ?thesis unfolding Nil by simp
  qed
  have parts: "sorted (map fst (takeWhile ?P q))" "sorted (map fst (dropWhile ?P q))"
    "\<forall>x \<in> set (map fst (takeWhile ?P q)). \<forall>y \<in> set (map fst (dropWhile ?P q)). x \<le> y"
    using sq unfolding map_append sorted_append by blast+
  then show ?thesis using low high by (simp add: queue_insert_def sorted_append)
qed

lemma front_le: "sorted (map fst q) \<Longrightarrow> x \<in> set q \<Longrightarrow> front sr q \<le> fst x"
  by (cases q) (auto simp: front_def)

lemma front_in: "q \<noteq> [] \<Longrightarrow> \<exists>x \<in> set q. front sr q = fst x"
  by (cases q) (auto simp: front_def)

lemma front_le_bound:
  assumes "sorted (map fst q)"
  shows "front sr q \<le> queue_bound sr q"
  using front_le [OF assms, of "last q" sr] by (cases "q = []") (auto simp: queue_bound_def front_def)

lemma butlast_front:
  "sorted (map fst q) \<Longrightarrow> sorted (map fst (butlast q)) \<and> (butlast q = [] \<or> front sr (butlast q) = front sr q)"
proof -
  assume "sorted (map fst q)"
  then have "sorted (butlast (map fst q))" by (rule sorted_butlast)
  moreover have "butlast q = [] \<or> front sr (butlast q) = front sr q" by (cases q) (auto simp: front_def)
  ultimately show ?thesis by (simp add: map_butlast)
qed

lemma k_visit_inv:
  assumes inv: "k_inv dim pts query sr k V q" and new: "i \<notin> V"
  shows "\<exists>q'. k_visit sr k (sdistance dim query (pts ! nat i)) i q = Some q' \<and> k_inv dim pts query sr k (insert i V) q'"
proof -
  define d where "d = sdistance dim query (pts ! nat i)"
  have k: "k mod 2 ^ 64 = k" using inv by (simp add: k_inv_def)
  have sorted: "sorted (map fst q)" using inv by (simp add: k_inv_def)
  show ?thesis
  proof (cases "d < queue_bound sr q")
    case False
    then have "front sr q \<le> d" using front_le_bound [OF sorted, of sr] by simp
    then show ?thesis using inv False by (auto simp: k_visit_def k_inv_def d_def)
  next
    case True
    define q1 where "q1 = (if int (length q) = k then butlast q else q)"
    have q': "k_visit sr k d i q = Some (queue_insert (d, i) q1)"
      using True inv by (auto simp: k_visit_def k q1_def k_inv_def)
    have q1: "sorted (map fst q1)" "set q1 \<subseteq> set q" "distinct (map snd q1)" "int (length q1) < k"
      using butlast_front [OF sorted, of sr] inv
      by (auto simp: q1_def k_inv_def map_butlast distinct_butlast dest: in_set_butlastD)
    have "q \<noteq> [] \<Longrightarrow> fst (last q) < sr" using inv last_in_set [of q] unfolding k_inv_def by blast
    then have sr: "queue_bound sr q \<le> sr" by (simp add: queue_bound_def less_imp_le)
    have ins: "sorted (map fst (queue_insert (d, i) q1))" by (rule sorted_queue_insert [OF q1(1)])
    have fd: "front sr (queue_insert (d, i) q1) \<le> d" using front_le [OF ins, of "(d, i)" sr] by simp
    have "front sr (queue_insert (d, i) q1) \<le> front sr q"
    proof (cases "q1 = []")
      case True
      then have "queue_bound sr q = front sr q" by (cases q) (auto simp: q1_def queue_bound_def front_def split: if_splits)
      then show ?thesis using fd \<open>d < queue_bound sr q\<close> by simp
    next
      case False
      then have "front sr q1 = front sr q" using butlast_front [OF sorted, of sr] by (auto simp: q1_def split: if_splits)
      moreover obtain x where "x \<in> set q1" "front sr q1 = fst x" using front_in [OF False, of sr] by blast
      ultimately show ?thesis using front_le [OF ins, of x sr] by simp
    qed
    with fd inv have low: "\<forall>j \<in> insert i V. front sr (queue_insert (d, i) q1) \<le> sdistance dim query (pts ! nat j)"
      unfolding k_inv_def d_def by (metis insert_iff order_trans)
    have entries: "\<forall>x \<in> set (queue_insert (d, i) q1). snd x \<in> insert i V
        \<and> fst x = sdistance dim query (pts ! nat (snd x)) \<and> fst x < sr"
      using inv q1(2) True sr by (auto simp: k_inv_def d_def)
    have "i \<notin> snd ` set q1" using inv new q1(2) by (auto simp: k_inv_def)
    then have "distinct (map snd (queue_insert (d, i) q1))" using q1(3) by (simp add: distinct_queue_insert)
    moreover have "int (length (queue_insert (d, i) q1)) \<le> k" using q1(4) by simp
    moreover have "0 < k" "k < 2 ^ 31" using inv by (simp_all add: k_inv_def)
    ultimately have "k_inv dim pts query sr k (insert i V) (queue_insert (d, i) q1)"
      using low entries ins unfolding k_inv_def by blast
    then show ?thesis using q' by (simp add: d_def)
  qed
qed

interpretation k_nearest: pruned_walk dim pts query "queue_bound sr"
    "\<lambda>j s. k_visit sr k (sdistance dim query (pts ! nat j)) j s" "k_inv dim pts query sr k"
  for dim pts query sr k
proof
  show "k_inv dim pts query sr k (insert i V) s"
    if "k_inv dim pts query sr k V s" "i \<notin> V" "queue_bound sr s \<le> sdistance dim query (pts ! nat i)" for V s i
  proof -
    have "front sr s \<le> queue_bound sr s" using that(1) by (simp add: k_inv_def front_le_bound)
    then show ?thesis using that by (auto simp: k_inv_def)
  qed
qed (rule k_visit_inv)

section \<open>Results\<close>

lemma kd_tree_facts:
  assumes "kd_tree dim kd pts t"
  shows "kd_points kd = pts" "kd_lay (kd_nodes kd) 0 t" "kd_ordered dim pts t" "distinct (kd_indices t)"
    "set (kd_indices t) = int ` {..<length pts}" "valid_indices pts t" "kd_nodes kd = [] \<longleftrightarrow> t = Leaf"
proof -
  show "kd_points kd = pts" "kd_lay (kd_nodes kd) 0 t" "kd_ordered dim pts t" using assms by (simp_all add: kd_tree_def)
  have m: "mset (kd_indices t) = mset (map int [0..<length pts])" using assms by (simp add: kd_tree_def)
  show "distinct (kd_indices t)" using mset_eq_imp_distinct_iff [OF m] by (simp add: distinct_map)
  show s: "set (kd_indices t) = int ` {..<length pts}" using mset_eq_setD [OF m] by (simp add: atLeast0LessThan)
  then show "valid_indices pts t" by (auto simp: valid_indices_def)
  have "size t = length pts" using arg_cong [OF m, of size] by simp
  then show "kd_nodes kd = [] \<longleftrightarrow> t = Leaf" using assms by (auto simp: kd_tree_def)
qed

lemma search_root:
  assumes "kd_tree dim kd pts t" "kd_nodes kd \<noteq> []"
  shows "Some 0 = kd_ref 0 t"
  using kd_tree_facts(7) [OF assms(1)] assms(2) by (simp add: kd_ref_def)

text \<open>C10. \<open>search_radius\<close> on an initialised tree appends, each once, exactly the indices of the points whose
  squared distance to the query is below the square of the radius.\<close>

theorem search_radius_exact:
  assumes "nth_element_ok nth_el" "0 < dim" "kd_initialize nth_el dim pts kd0 = Some kd"
  shows "\<exists>xs. search_radius dim kd query radius indices = Some (indices @ xs) \<and> distinct xs
    \<and> set xs = {int i | i. i < length pts \<and> sdistance dim query (pts ! i) < radius * radius}"
proof -
  obtain t where t: "kd_tree dim kd pts t"
    using kd_initialize_total [OF assms(1,2), of pts kd0] assms(3) by auto
  note f = kd_tree_facts [OF t]
  have "radius_inv dim pts query (radius * radius) indices {} indices" by (simp add: radius_inv_def)
  then obtain s where s: "kd_walk pts query (\<lambda>_. radius * radius)
      (\<lambda>j s. Some (radius_visit (radius * radius) (sdistance dim query (pts ! nat j)) j s)) t indices = Some s"
    "radius_inv dim pts query (radius * radius) indices (set (kd_indices t)) s"
    using radius.walk_inv [OF f(3,4)] by fastforce
  have "search_radius dim kd query radius indices = Some s"
    using s(1) search_radius_walk [of kd 0 t] search_root [OF t] f by (auto simp: search_radius_def)
  moreover have "{i \<in> set (kd_indices t). sdistance dim query (pts ! nat i) < radius * radius}
      = {int i | i. i < length pts \<and> sdistance dim query (pts ! i) < radius * radius}"
    using f(5) by auto
  ultimately show ?thesis using s(2) by (auto simp: radius_inv_def)
qed

theorem search_radius_exact_witness:
  "\<exists>kd xs. kd_initialize nth_by_sorting 1 [\<lambda>_. 5, \<lambda>_. 1, \<lambda>_. 3] kd_empty = Some kd
     \<and> search_radius 1 kd (\<lambda>_. 2::int) 2 [7] = Some (7 # xs) \<and> distinct xs \<and> set xs = {1, 2}"
proof -
  let ?pts = "[\<lambda>_. 5, \<lambda>_. 1, \<lambda>_. 3] :: int point list"
  obtain kd where kd: "kd_initialize nth_by_sorting 1 ?pts kd_empty = Some kd"
    using kd_initialize_total [OF nth_by_sorting_ok, of 1 ?pts kd_empty] by auto
  have "{int i | i. i < length ?pts \<and> sdistance 1 (\<lambda>_. 2) (?pts ! i) < 2 * 2} = {1, 2}"
    by (force simp: sdistance_def less_Suc_eq numeral_3_eq_3)
  then show ?thesis
    using search_radius_exact [OF nth_by_sorting_ok, of 1 ?pts kd_empty kd "\<lambda>_. 2" 2 "[7]"] kd by auto
qed

text \<open>C21. \<open>search_nearest\<close> returns -1 when no point is nearer than the greatest distance of the type, and
  otherwise the index of a point no other point is nearer than.\<close>

theorem search_nearest_correct:
  assumes "nth_element_ok nth_el" "0 < dim" "kd_initialize nth_el dim pts kd0 = Some kd"
  shows "\<exists>r. search_nearest dim dmax kd query = Some r
    \<and> (r = -1 \<longleftrightarrow> (\<forall>i < length pts. dmax \<le> sdistance dim query (pts ! i)))
    \<and> (r \<noteq> -1 \<longrightarrow> (\<exists>i < length pts. r = int i
          \<and> (\<forall>j < length pts. sdistance dim query (pts ! i) \<le> sdistance dim query (pts ! j))))"
proof -
  obtain t where t: "kd_tree dim kd pts t"
    using kd_initialize_total [OF assms(1,2), of pts kd0] assms(3) by auto
  note f = kd_tree_facts [OF t]
  have "nearest_inv dim pts query dmax {} (-1, dmax)" by (simp add: nearest_inv_def)
  then obtain s where s: "kd_walk pts query snd
      (\<lambda>j s. Some (nearest_visit (sdistance dim query (pts ! nat j)) j s)) t (-1, dmax) = Some s"
    "nearest_inv dim pts query dmax (int ` {..<length pts}) s"
    using nearest.walk_inv [OF f(3,4)] f(5) by fastforce
  have "search_nearest dim dmax kd query = Some (fst s)"
    using s(1) search_nearest_walk [of kd 0 t] search_root [OF t] f by (auto simp: search_nearest_def)
  moreover have "fst s = -1 \<longleftrightarrow> (\<forall>i < length pts. dmax \<le> sdistance dim query (pts ! i))"
    using s(2) unfolding nearest_inv_def by force
  moreover have "\<exists>i < length pts. fst s = int i \<and> (\<forall>j < length pts. sdistance dim query (pts ! i) \<le> sdistance dim query (pts ! j))"
    if "fst s \<noteq> -1"
    using s(2) that unfolding nearest_inv_def by force
  ultimately show ?thesis by blast
qed

theorem search_nearest_correct_witness:
  "\<exists>kd. kd_initialize nth_by_sorting 1 [\<lambda>_. 5, \<lambda>_. 1, \<lambda>_. 4] kd_empty = Some kd
     \<and> search_nearest 1 1000 kd (\<lambda>_. 2::int) = Some 1"
proof -
  let ?pts = "[\<lambda>_. 5, \<lambda>_. 1, \<lambda>_. 4] :: int point list"
  obtain kd where kd: "kd_initialize nth_by_sorting 1 ?pts kd_empty = Some kd"
    using kd_initialize_total [OF nth_by_sorting_ok, of 1 ?pts kd_empty] by auto
  have all: "(\<forall>i < length ?pts. P i) \<longleftrightarrow> P 0 \<and> P 1 \<and> P 2" for P by (auto simp: less_Suc_eq numeral_2_eq_2)
  have ex: "(\<exists>i < length ?pts. P i) \<longleftrightarrow> P 0 \<or> P 1 \<or> P 2" for P by (auto simp: less_Suc_eq numeral_2_eq_2)
  show ?thesis
    using search_nearest_correct [OF nth_by_sorting_ok _ kd, of 1000 "\<lambda>_. 2"] kd
    unfolding all ex by (auto simp: sdistance_def)
qed

text \<open>C30. \<open>search_k_radius\<close> with a fresh queue and \<open>0 < k\<close> returns at most \<open>k\<close> different points inside the
  radius in the order of their distance, the first of them a nearest one; it returns none only when
  no point is inside.\<close>

theorem search_k_radius_correct:
  assumes "nth_element_ok nth_el" "0 < dim" "kd_initialize nth_el dim pts kd0 = Some kd" "0 < k" "k < 2 ^ 31"
  shows "\<exists>q. search_k_radius dim kd query radius k [] = Some q \<and> int (length q) \<le> k
    \<and> sorted (map fst q) \<and> distinct (map snd q)
    \<and> (\<forall>(d, j) \<in> set q. \<exists>i < length pts. j = int i \<and> d = sdistance dim query (pts ! i) \<and> d < radius * radius)
    \<and> (q = [] \<longleftrightarrow> (\<forall>i < length pts. radius * radius \<le> sdistance dim query (pts ! i)))
    \<and> (q \<noteq> [] \<longrightarrow> (\<forall>i < length pts. fst (hd q) \<le> sdistance dim query (pts ! i)))"
proof -
  let ?sr = "radius * radius"
  obtain t where t: "kd_tree dim kd pts t"
    using kd_initialize_total [OF assms(1,2), of pts kd0] assms(3) by auto
  note f = kd_tree_facts [OF t]
  have "k_inv dim pts query ?sr k {} []" using assms(4,5) by (simp add: k_inv_def)
  then obtain q where q: "kd_walk pts query (queue_bound ?sr)
      (\<lambda>j s. k_visit ?sr k (sdistance dim query (pts ! nat j)) j s) t [] = Some q"
    "k_inv dim pts query ?sr k (int ` {..<length pts}) q"
    using k_nearest.walk_inv [OF f(3,4)] f(5) by fastforce
  have "search_k_radius dim kd query radius k [] = Some q"
    using q(1) search_k_radius_walk [of kd 0 t] search_root [OF t] f by (auto simp: search_k_radius_def)
  moreover have low: "\<forall>i < length pts. front ?sr q \<le> sdistance dim query (pts ! i)"
    using q(2) unfolding k_inv_def by force
  moreover have entries: "\<forall>(d, j) \<in> set q. \<exists>i < length pts. j = int i \<and> d = sdistance dim query (pts ! i) \<and> d < ?sr"
    using q(2) unfolding k_inv_def by force
  moreover have "q = [] \<longleftrightarrow> (\<forall>i < length pts. ?sr \<le> sdistance dim query (pts ! i))"
  proof (cases q)
    case (Cons x q')
    then show ?thesis using entries by fastforce
  qed (use low in \<open>simp add: front_def\<close>)
  moreover have "q \<noteq> [] \<longrightarrow> (\<forall>i < length pts. fst (hd q) \<le> sdistance dim query (pts ! i))"
    using low by (metis front_def)
  moreover have "int (length q) \<le> k" "sorted (map fst q)" "distinct (map snd q)" using q(2) by (simp_all add: k_inv_def)
  ultimately show ?thesis by blast
qed

theorem search_k_radius_correct_witness:
  "\<exists>kd q. kd_initialize nth_by_sorting 1 [\<lambda>_. 5, \<lambda>_. 1, \<lambda>_. 4] kd_empty = Some kd
     \<and> search_k_radius 1 kd (\<lambda>_. 2::int) 3 2 [] = Some q \<and> hd q = (1, 1)"
proof -
  let ?pts = "[\<lambda>_. 5, \<lambda>_. 1, \<lambda>_. 4] :: int point list"
  obtain kd where kd: "kd_initialize nth_by_sorting 1 ?pts kd_empty = Some kd"
    using kd_initialize_total [OF nth_by_sorting_ok, of 1 ?pts kd_empty] by auto
  have all: "(\<forall>i < length ?pts. P i) \<longleftrightarrow> P 0 \<and> P 1 \<and> P 2" for P by (auto simp: less_Suc_eq numeral_2_eq_2)
  have ex: "(\<exists>i < length ?pts. P i) \<longleftrightarrow> P 0 \<or> P 1 \<or> P 2" for P by (auto simp: less_Suc_eq numeral_2_eq_2)
  obtain q where q: "search_k_radius 1 kd (\<lambda>_. 2) 3 2 [] = Some q"
    "\<forall>(d, j) \<in> set q. d = (3::int) * 3 \<or> d = 1 \<and> j = 1 \<or> d = 4 \<and> j = 2" "q \<noteq> []" "fst (hd q) \<le> 1"
    using search_k_radius_correct [OF nth_by_sorting_ok _ kd, of 2 "\<lambda>_. 2" 3]
    unfolding all ex by (auto simp: sdistance_def)
  obtain d j where h: "hd q = (d, j)" by (cases "hd q") simp
  then have "(d, j) \<in> set q" using hd_in_set [OF q(3)] by simp
  then have "hd q = (1, 1)" using q(2,4) h by auto
  then show ?thesis using kd q(1) by blast
qed

text \<open>The queue's last distance is the bound even while the queue is short, so points behind the first
  hits are given up: here two points are wanted and three are inside the radius, but one is found.\<close>

lemma search_k_radius_stops_short:
  "map_option (\<lambda>kd. search_k_radius 1 kd (\<lambda>_. 2) 10 2 []) (kd_ctor nth_by_sorting 1 [\<lambda>_. 1, \<lambda>_. 2, \<lambda>_. 3 :: int])
     = Some (Some [(0, 1)])"
  by code_simp

end
