(* ===== verification/Stack_Allocator.thy ===== *)
theory Stack_Allocator
  imports Ring_Buffer "HOL-Library.Monad_Syntax"
begin

text \<open>
  The scratch memory of the library: \<open>stack_allocator\<close> (\<open>DotsRuntime/DotsRuntime.h\<close>) and its two
  users \<open>stack_object\<close> and \<open>adaptive_object\<close> (\<open>Dots/Database.cpp\<close>), which free what they allocated
  when their scope ends.  In front of a block lies a header of four bytes with the offset of the
  stack's top before the allocation.
\<close>

record stack_allocator =
  stackbuffer :: ptr
  stacktop :: ptr
  stackSize :: nat
  sa_mem :: bmem

definition stack_init :: "ptr \<Rightarrow> nat \<Rightarrow> bmem \<Rightarrow> stack_allocator" where
  "stack_init base sz m = \<lparr>stackbuffer = base, stacktop = base, stackSize = sz, sa_mem = m\<rparr>"

definition stack_reset :: "stack_allocator \<Rightarrow> stack_allocator" where
  "stack_reset s = s\<lparr>stackbuffer := 0, stacktop := 0, stackSize := 0\<rparr>"

text \<open>\<open>std::align\<close>: the aligned address and the space left behind the padding, if the block fits.\<close>

definition std_align :: "nat \<Rightarrow> nat \<Rightarrow> ptr \<Rightarrow> nat \<Rightarrow> (ptr \<times> nat) option" where
  "std_align align sz p space =
     (let aligned = align * ((p + align - 1) div align)
      in if sz + (aligned - p) > space then None else Some (aligned, space - (aligned - p)))"

definition stack_alloc :: "nat \<Rightarrow> nat \<Rightarrow> stack_allocator \<Rightarrow> ptr \<times> stack_allocator" where
  "stack_alloc sz align s =
     (let offset = u32 (sub64 (stacktop s) (stackbuffer s));
          s1 = s\<lparr>stacktop := stacktop s + 4\<rparr>
      in case std_align align sz (stacktop s1) (stackSize s1) of
           None \<Rightarrow> (0, s1)
         | Some (p, space) \<Rightarrow>
             (p, s1\<lparr>sa_mem := wr 4 (sa_mem s1) (p - 4) offset, stacktop := p + sz,
                      stackSize := sub64 space (sz + 4)\<rparr>))"

definition stack_free :: "ptr \<Rightarrow> nat \<Rightarrow> stack_allocator \<Rightarrow> stack_allocator" where
  "stack_free p sz s =
     (let offset = u32 (sub64 (stacktop s) (stackbuffer s));
          oldOffset = rd 4 (sa_mem s) (p - 4)
      in s\<lparr>stackSize := u64 (stackSize s + sub32 offset oldOffset), stacktop := stackbuffer s + oldOffset\<rparr>)"

definition kFastBinCapacity :: nat where "kFastBinCapacity = 800"

datatype ao_kind = Pool | Heap | Stack

definition adaptive_kind :: "nat \<Rightarrow> nat \<Rightarrow> ao_kind" where
  "adaptive_kind space sz = (if sub64 space sz > 1024 then Stack else if sz < kFastBinCapacity then Pool else Heap)"

text \<open>\<open>pool\<close> and \<open>heap\<close> are the addresses the pool of 64 KB blocks and the C heap give.\<close>

definition adaptive_ctor :: "ptr \<Rightarrow> ptr \<Rightarrow> nat \<Rightarrow> stack_allocator \<Rightarrow> (ao_kind \<times> ptr) \<times> stack_allocator" where
  "adaptive_ctor pool heap sz s =
     (case adaptive_kind (stackSize s) sz of
        Stack \<Rightarrow> (let (p, s1) = stack_alloc sz 4 s in ((Stack, p), s1))
      | Pool \<Rightarrow> ((Pool, pool), s)
      | Heap \<Rightarrow> ((Heap, heap), s))"

definition adaptive_dtor :: "ao_kind \<times> ptr \<Rightarrow> nat \<Rightarrow> stack_allocator \<Rightarrow> stack_allocator" where
  "adaptive_dtor o' sz s = (if fst o' = Stack then stack_free (snd o') sz s else s)"

section \<open>Scopes\<close>

text \<open>
  \<open>ao_scope L s s'\<close>: a run of a program that uses adaptive objects from state \<open>s\<close> to \<open>s'\<close>.  It writes
  to bytes it owns (\<open>L\<close>, the blocks of the enclosing scopes, and the blocks of its own), and opens
  further scopes, one after the other or nested.
\<close>

inductive ao_scope :: "ptr set \<Rightarrow> stack_allocator \<Rightarrow> stack_allocator \<Rightarrow> bool" where
  enter: "ao_scope L s s"
| store: "ao_scope L s s1 \<Longrightarrow> x \<in> L \<Longrightarrow> ao_scope L s (s1\<lparr>sa_mem := (sa_mem s1)(x := v)\<rparr>)"
| nested: "ao_scope L s s1 \<Longrightarrow> sz \<le> stackSize s1 \<Longrightarrow> adaptive_ctor pool heap sz s1 = ((kind, p), s2) \<Longrightarrow>
     block = (if kind = Stack then {p..<p + sz} else {}) \<Longrightarrow>
     ao_scope (L \<union> block) s2 s3 \<Longrightarrow> ao_scope L s (adaptive_dtor (kind, p) sz s3)"

definition sa_inv :: "nat \<Rightarrow> stack_allocator \<Rightarrow> bool" where
  "sa_inv room s \<longleftrightarrow> 0 < stackbuffer s \<and> stackbuffer s \<le> stacktop s \<and> stacktop s + stackSize s = stackbuffer s + room
     \<and> room < 2 ^ 32 \<and> stackbuffer s + room < 2 ^ 64"

lemma align_up:
  assumes "0 < al"
  shows "al dvd al * ((p + al - 1) div al)" "p \<le> al * ((p + al - 1) div (al::nat))" "al * ((p + al - 1) div al) < p + al"
proof -
  have "(p + al - 1) mod al < al" using assms by simp
  moreover have "al * ((p + al - 1) div al) + (p + al - 1) mod al = p + al - 1" by simp
  ultimately show "p \<le> al * ((p + al - 1) div al)" "al * ((p + al - 1) div al) < p + al" using assms by linarith+
qed simp

text \<open>An allocation that fits together with its header.\<close>

lemma stack_alloc_fits:
  assumes inv: "sa_inv room s" and fits: "sz + al + 4 \<le> stackSize s" and al: "0 < al"
  shows "\<exists>p s'. stack_alloc sz al s = (p, s') \<and> al dvd p \<and> stacktop s + 4 \<le> p \<and> sa_inv room s'
     \<and> stackbuffer s' = stackbuffer s \<and> stacktop s' = p + sz
     \<and> rd 4 (sa_mem s') (p - 4) = stacktop s - stackbuffer s
     \<and> (\<forall>x < stacktop s. sa_mem s' x = sa_mem s x)"
proof -
  let ?p = "al * ((stacktop s + 4 + al - 1) div al)"
  note a = align_up [OF al, of "stacktop s + 4"]
  have off: "u32 (sub64 (stacktop s) (stackbuffer s)) = stacktop s - stackbuffer s"
    "stacktop s - stackbuffer s < 256 ^ 4"
    using inv by (auto simp: sa_inv_def sub64_cases u32_def)
  have "sub64 (stackSize s - (?p - (stacktop s + 4))) (sz + 4) = stackSize s - (?p - (stacktop s + 4)) - (sz + 4)"
    using fits a inv by (auto simp: sub64_cases sa_inv_def)
  then show ?thesis
    using off a inv fits
    by (auto simp: stack_alloc_def std_align_def Let_def sa_inv_def rd_wr_same wr_out)
qed

lemma adaptive_kind_Stack: "sz \<le> space \<Longrightarrow> space < 2 ^ 64 \<Longrightarrow> adaptive_kind space sz = Stack \<Longrightarrow> sz + 1024 < space"
  by (auto simp: adaptive_kind_def sub64_cases split: if_splits)

lemma stack_free_restores:
  assumes inv: "sa_inv room s1" and p: "stacktop s1 + 4 \<le> p" and inv3: "sa_inv room s3"
    and top: "stacktop s3 = p + sz" "stackbuffer s3 = stackbuffer s1"
    and header: "rd 4 (sa_mem s3) (p - 4) = stacktop s1 - stackbuffer s1"
  shows "stack_free p sz s3 = s3\<lparr>stackSize := stackSize s1, stacktop := stacktop s1\<rparr>"
proof -
  have "u32 (sub64 (stacktop s3) (stackbuffer s3)) = p + sz - stackbuffer s1" "p + sz - stackbuffer s1 < 2 ^ 32"
    using inv3 top by (auto simp: sa_inv_def sub64_cases u32_def)
  moreover have "stackSize s3 + (p + sz - stackbuffer s1 - (stacktop s1 - stackbuffer s1)) = stackSize s1"
    using inv inv3 top p unfolding sa_inv_def by linarith
  moreover have "stackSize s1 < 2 ^ 64" "stackbuffer s1 \<le> stacktop s1" using inv by (auto simp: sa_inv_def)
  ultimately show ?thesis
    using header p top(2) by (simp add: stack_free_def Let_def wrap_simps)
qed

lemma ao_scope_lifo:
  "ao_scope L s s' \<Longrightarrow> sa_inv room s \<Longrightarrow> \<forall>x \<in> L. x < stacktop s \<Longrightarrow>
     sa_inv room s' \<and> stackbuffer s' = stackbuffer s \<and> stacktop s' = stacktop s \<and> stackSize s' = stackSize s
     \<and> (\<forall>x < stacktop s. x \<notin> L \<longrightarrow> sa_mem s' x = sa_mem s x)"
proof (induction rule: ao_scope.induct)
  case (enter L s)
  then show ?case by simp
next
  case (store L s s1 x v)
  then show ?case by (auto simp: sa_inv_def)
next
  case (nested L s s1 sz pool heap kind p s2 block s3)
  note IH1 = nested.IH(1) [OF nested.prems]
  show ?case
  proof (cases "kind = Stack")
    case False
    then have "s2 = s1" "block = {}"
      using nested.hyps by (auto simp: adaptive_ctor_def split: ao_kind.splits prod.splits)
    then show ?thesis using nested.IH IH1 nested.prems False by (simp add: adaptive_dtor_def)
  next
    case True
    have small: "stackSize s1 < 2 ^ 64" using IH1 by (auto simp: sa_inv_def)
    have k: "adaptive_kind (stackSize s1) sz = Stack" and alloc: "stack_alloc sz 4 s1 = (p, s2)"
      using nested.hyps True by (auto simp: adaptive_ctor_def split: ao_kind.splits prod.splits)
    have "sz + 4 + 4 \<le> stackSize s1" using adaptive_kind_Stack [OF nested.hyps(2) small k] by simp
    then have a: "stacktop s1 + 4 \<le> p" "sa_inv room s2" "stackbuffer s2 = stackbuffer s1" "stacktop s2 = p + sz"
      "rd 4 (sa_mem s2) (p - 4) = stacktop s1 - stackbuffer s1" "\<forall>x < stacktop s1. sa_mem s2 x = sa_mem s1 x"
      using stack_alloc_fits [of room s1 sz 4] IH1 alloc by auto
    have block: "block = {p..<p + sz}" using nested.hyps True by simp
    have "\<forall>x \<in> L \<union> block. x < stacktop s2" using nested.prems IH1 a(1,4) block by auto
    then have IH2: "sa_inv room s3" "stackbuffer s3 = stackbuffer s2" "stacktop s3 = stacktop s2"
      "\<forall>x < stacktop s2. x \<notin> L \<union> block \<longrightarrow> sa_mem s3 x = sa_mem s2 x"
      using nested.IH(2) [OF a(2)] by blast+
    have "rd 4 (sa_mem s3) (p - 4) = rd 4 (sa_mem s2) (p - 4)"
    proof (rule rd_cong)
      fix i :: nat assume i: "i < 4"
      then have "p - 4 + i \<notin> L \<union> block" using nested.prems IH1 a(1) block by fastforce
      then show "sa_mem s3 (p - 4 + i) = sa_mem s2 (p - 4 + i)" using IH2(4) i a(1,4) by simp
    qed
    then have free: "adaptive_dtor (kind, p) sz s3 = s3\<lparr>stackSize := stackSize s1, stacktop := stacktop s1\<rparr>"
      using stack_free_restores [OF _ a(1) IH2(1)] IH1 IH2(2,3) a(3-5) True by (simp add: adaptive_dtor_def)
    have "sa_mem s3 x = sa_mem s x" if "x < stacktop s" "x \<notin> L" for x
    proof -
      have "x < stacktop s1" "x < stacktop s2" "x \<notin> block" using that IH1 a(1,4) block by auto
      then show ?thesis using that IH1 IH2(4) a(6) by simp
    qed
    then show ?thesis using IH1 IH2(1,2) a(3) unfolding free by (simp add: sa_inv_def)
  qed
qed

text \<open>C29. Adaptive objects, opened and closed as scopes in any nesting, leave the stack as it was: its top,
  its free space and every byte they do not own, among them the headers and blocks of the scopes
  around them.  A new block on the stack is aligned, lies above all older ones and below the end.
  But a request beyond the free space is sent to the stack too, and gets the null pointer.\<close>

theorem adaptive_objects_lifo:
  assumes inv: "sa_inv room s" and L: "\<forall>x \<in> L. x < stacktop s" and run: "ao_scope L s s'"
  shows "stacktop s' = stacktop s \<and> stackSize s' = stackSize s \<and> (\<forall>x < stacktop s. x \<notin> L \<longrightarrow> sa_mem s' x = sa_mem s x)
    \<and> (\<forall>sz p s2. sz \<le> stackSize s \<and> adaptive_ctor pool heap sz s' = ((Stack, p), s2) \<longrightarrow>
          4 dvd p \<and> stacktop s + 4 \<le> p \<and> p + sz \<le> stackbuffer s + room)
    \<and> (\<forall>sz. stackSize s < sz \<and> sz < 2 ^ 63 \<longrightarrow> fst (adaptive_ctor pool heap sz s') = (Stack, 0))"
proof -
  note lifo = ao_scope_lifo [OF run inv L]
  have small: "stackSize s' < 2 ^ 32" using lifo by (auto simp: sa_inv_def)
  have fits: "4 dvd p \<and> stacktop s + 4 \<le> p \<and> p + sz \<le> stackbuffer s + room"
    if "sz \<le> stackSize s" "adaptive_ctor pool heap sz s' = ((Stack, p), s2)" for sz p s2
  proof -
    have k: "adaptive_kind (stackSize s') sz = Stack" and alloc: "stack_alloc sz 4 s' = (p, s2)"
      using that(2) by (auto simp: adaptive_ctor_def split: ao_kind.splits prod.splits)
    have "sz + 1024 < stackSize s'" by (rule adaptive_kind_Stack [OF _ _ k]) (use that(1) lifo small in auto)
    then have "4 dvd p" "stacktop s' + 4 \<le> p" "sa_inv room s2" "stackbuffer s2 = stackbuffer s'" "stacktop s2 = p + sz"
      using stack_alloc_fits [of room s' sz 4] lifo alloc by auto
    then show ?thesis using lifo by (auto simp: sa_inv_def)
  qed
  have "fst (adaptive_ctor pool heap sz s') = (Stack, 0)" if "stackSize s < sz" "sz < 2 ^ 63" for sz
  proof -
    have "adaptive_kind (stackSize s') sz = Stack" using that lifo small by (simp add: adaptive_kind_def sub64_cases)
    moreover have "stack_alloc sz 4 s' = (0, s'\<lparr>stacktop := stacktop s' + 4\<rparr>)"
      using that lifo by (simp add: stack_alloc_def std_align_def Let_def)
    ultimately show ?thesis by (simp add: adaptive_ctor_def)
  qed
  then show ?thesis using lifo fits by blast
qed

theorem adaptive_objects_lifo_witness:
  "\<exists>s'. ao_scope {} (stack_init 1000 10000 (\<lambda>_. 7)) s' \<and> stacktop s' = 1000 \<and> stackSize s' = 10000
     \<and> fst (adaptive_ctor 5 6 20000 s') = (Stack, 0)"
proof -
  let ?s = "stack_init 1000 10000 (\<lambda>_. 7)"
  obtain s2 where c: "adaptive_ctor 5 6 64 ?s = ((Stack, 1004), s2)"
    by (simp add: stack_init_def adaptive_ctor_def adaptive_kind_def stack_alloc_def std_align_def Let_def sub64_cases)
  have "ao_scope {} ?s (adaptive_dtor (Stack, 1004) 64 s2)"
    by (rule ao_scope.nested [OF ao_scope.enter _ c refl]) (simp_all add: stack_init_def ao_scope.enter)
  moreover have "sa_inv 10000 ?s" by (simp add: sa_inv_def stack_init_def)
  ultimately show ?thesis
    using adaptive_objects_lifo [of 10000 ?s "{}" "adaptive_dtor (Stack, 1004) 64 s2" 5 6]
    by (intro exI [of _ "adaptive_dtor (Stack, 1004) 64 s2"]) (simp add: stack_init_def)
qed

end
