(* ===== verification/Allocation.thy ===== *)
theory Allocation
  imports Chunk_Ops Chunk_Rows Entity_Table
begin

text \<open>
  Allocation of entities, from the free memory to the finished rows.  \<open>pool_ok\<close> puts the
  invariants of the components together: the chunk list of the archetype, full chunks before free
  ones, the free memory, and the entity table with the live rows \<open>L\<close>.  \<open>U\<close> are the chunks in use.
\<close>

section \<open>Free memory\<close>

definition mem_ok :: "world \<Rightarrow> ptr set \<Rightarrow> bool" where
  "mem_ok w U \<longleftrightarrow> 0 < next_ptr w \<and> (\<forall>u \<in> U. 0 < u \<and> u < next_ptr w)
     \<and> (\<forall>t. distinct (bins w t) \<and> (\<forall>p \<in> set (bins w t). 0 < p \<and> p < next_ptr w \<and> p \<notin> U))
     \<and> (\<forall>t t'. t \<noteq> t' \<longrightarrow> set (bins w t) \<inter> set (bins w t') = {})"

lemma context_malloc_ok:
  assumes "mem_ok w U" "context_malloc t w = (c, w1)"
  shows "c \<noteq> 0 \<and> c \<notin> U \<and> mem_ok w1 (insert c U) \<and> chunks w1 = chunks w \<and> archs w1 = archs w \<and> ents w1 = ents w
    \<and> fresh_data w1 = fresh_data w"
proof (cases "bins w t")
  case Nil
  then have "c = next_ptr w" "w1 = w\<lparr>next_ptr := Suc (next_ptr w)\<rparr>" using assms(2) by (auto simp: context_malloc_def)
  moreover have "\<forall>u \<in> U. u < next_ptr w" "\<forall>t. \<forall>p \<in> set (bins w t). p < next_ptr w" using assms(1) by (simp_all add: mem_ok_def)
  ultimately show ?thesis using assms(1) by (fastforce simp: mem_ok_def)
next
  case (Cons p ps)
  then have c: "c = p" "w1 = w\<lparr>bins := (bins w)(t := ps)\<rparr>" using assms(2) by (auto simp: context_malloc_def)
  have p: "p \<in> set (bins w t)" "set ps \<subseteq> set (bins w t)" "p \<notin> set ps" "distinct ps"
    using Cons assms(1) unfolding mem_ok_def by (metis distinct.simps(2) list.set_intros(1) set_subset_Cons)+
  have other: "p \<notin> set (bins w t')" if "t' \<noteq> t" for t' using assms(1) p(1) that unfolding mem_ok_def by blast
  have "mem_ok w1 (insert c U)"
    unfolding mem_ok_def c
  proof (intro conjI allI impI ballI)
    fix t' q assume "q \<in> set (bins (w\<lparr>bins := (bins w)(t := ps)\<rparr>) t')"
    then have "q \<in> set (bins w t')" "q \<noteq> p" using p other by (auto split: if_splits)
    then show "0 < q" "q < next_ptr (w\<lparr>bins := (bins w)(t := ps)\<rparr>)" "q \<notin> insert p U"
      using assms(1) by (auto simp: mem_ok_def)
  next
    fix t1 t2 :: alloc_type assume "t1 \<noteq> t2"
    then have "set (bins w t1) \<inter> set (bins w t2) = {}" using assms(1) by (simp add: mem_ok_def)
    then show "set (bins (w\<lparr>bins := (bins w)(t := ps)\<rparr>) t1) \<inter> set (bins (w\<lparr>bins := (bins w)(t := ps)\<rparr>) t2) = {}"
      using p(2) by auto
  qed (use assms(1) p in \<open>auto simp: mem_ok_def\<close>)
  then show ?thesis using c p(1) assms(1) by (auto simp: mem_ok_def)
qed

lemma mem_ok_cong: "bins w' = bins w \<Longrightarrow> next_ptr w' = next_ptr w \<Longrightarrow> mem_ok w' U = mem_ok w U"
  by (simp add: mem_ok_def)

lemma malloc_chunk_ok:
  assumes "mem_ok w U" "malloc_chunk t w = (c, w1)"
  shows "c \<noteq> 0" "c \<notin> U" "mem_ok w1 (insert c U)" "archs w1 = archs w" "ents w1 = ents w" "fresh_data w1 = fresh_data w"
    "chunks w1 = (chunks w)(c := (chunks w c)\<lparr>c_ct := t, c_count := 0, c_prev := 0, c_next := 0\<rparr>)"
proof -
  obtain w0 where m: "context_malloc t w = (c, w0)" and w1: "w1 = upd_chunk c (\<lambda>ch. ch\<lparr>c_ct := t, c_count := 0, c_prev := 0, c_next := 0\<rparr>) w0"
    using assms(2) by (auto simp: malloc_chunk_def Let_def split: prod.splits)
  note ok = context_malloc_ok [OF assms(1) m]
  have "mem_ok w1 (insert c U) = mem_ok w0 (insert c U)" by (rule mem_ok_cong) (simp_all add: w1)
  then show "c \<noteq> 0" "c \<notin> U" "mem_ok w1 (insert c U)" "archs w1 = archs w" "ents w1 = ents w" "fresh_data w1 = fresh_data w"
    "chunks w1 = (chunks w)(c := (chunks w c)\<lparr>c_ct := t, c_count := 0, c_prev := 0, c_next := 0\<rparr>)"
    using ok by (simp_all add: w1)
qed

section \<open>The invariant\<close>

definition pool_ok :: "world \<Rightarrow> ptr \<Rightarrow> ptr list \<Rightarrow> ptr list \<Rightarrow> ptr set \<Rightarrow> (ptr \<times> nat) set \<Rightarrow> nat list \<Rightarrow> bool" where
  "pool_ok w g full free U L fl \<longleftrightarrow> arch_chunks w g full free
     \<and> (\<forall>c \<in> set full. c_count (chunks w c) = chunk_capacity w g c)
     \<and> (\<forall>c \<in> set free. c_count (chunks w c) < chunk_capacity w g c)
     \<and> (\<forall>c \<in> set (full @ free). c_type (chunks w c) = g)
     \<and> (\<forall>ct. 0 < chunkCapacity (archs w g) ct \<and> chunkCapacity (archs w g) ct < 2 ^ 24)
     \<and> mem_ok w U \<and> set (full @ free) \<subseteq> U \<and> fst ` L \<subseteq> U
     \<and> (\<forall>(c, r) \<in> L. r < c_count (chunks w c)) \<and> tab_inv w L fl"

text \<open>What \<open>pool_ok\<close> looks at.\<close>

definition same_shape :: "world \<Rightarrow> world \<Rightarrow> bool" where
  "same_shape w w' \<longleftrightarrow> (\<forall>x. c_next (chunks w' x) = c_next (chunks w x) \<and> c_prev (chunks w' x) = c_prev (chunks w x)
       \<and> c_count (chunks w' x) = c_count (chunks w x) \<and> c_ct (chunks w' x) = c_ct (chunks w x)
       \<and> c_type (chunks w' x) = c_type (chunks w x))
     \<and> (\<forall>x. firstChunk (archs w' x) = firstChunk (archs w x) \<and> lastChunk (archs w' x) = lastChunk (archs w x)
       \<and> firstFree (archs w' x) = firstFree (archs w x) \<and> chunkCapacity (archs w' x) = chunkCapacity (archs w x))
     \<and> bins w' = bins w \<and> next_ptr w' = next_ptr w"

lemma same_shape_trans: "same_shape u v \<Longrightarrow> same_shape v w \<Longrightarrow> same_shape u w"
  unfolding same_shape_def by metis

lemma arch_chunks_cong: "same_shape w w' \<Longrightarrow> arch_chunks w' g full free = arch_chunks w g full free"
proof -
  assume s: "same_shape w w'"
  then have "dseg (chunks w') p h xs t n = dseg (chunks w) p h xs t n" for p h xs t n
    by (intro dseg_cong) (simp add: same_shape_def)
  then show ?thesis using s by (simp add: arch_chunks_def arch_list_def same_shape_def)
qed

lemma tab_inv_cong:
  "ents w' = ents w \<Longrightarrow> fresh_data w' = fresh_data w \<Longrightarrow> (\<And>c r. (c, r) \<in> L \<Longrightarrow> row_of w' c r = row_of w c r) \<Longrightarrow>
   tab_inv w L fl \<Longrightarrow> tab_inv w' L fl"
  by (auto simp: tab_inv_def located_def entity_exist_def data_of_def Let_def)

lemma pool_ok_shape:
  assumes "same_shape w w'" "pool_ok w g full free U L fl" "fst ` L' \<subseteq> U" "\<forall>(c, r) \<in> L'. r < c_count (chunks w c)" "tab_inv w' L' fl'"
  shows "pool_ok w' g full free U L' fl'"
proof -
  have "mem_ok w' U = mem_ok w U" using assms(1) by (intro mem_ok_cong) (simp_all add: same_shape_def)
  moreover have "chunk_capacity w' g c = chunk_capacity w g c" for c using assms(1) by (simp add: same_shape_def chunk_capacity_def)
  ultimately show ?thesis
    using assms arch_chunks_cong [OF assms(1), of g full free] unfolding pool_ok_def same_shape_def by simp
qed

section \<open>A chunk with room\<close>

text \<open>Everything but links, counts and administration of the archetype.\<close>

definition keeps_rows :: "world \<Rightarrow> world \<Rightarrow> ptr set \<Rightarrow> bool" where
  "keeps_rows w w' U \<longleftrightarrow> ents w' = ents w \<and> fresh_data w' = fresh_data w
     \<and> (\<forall>c \<in> U. c_ents (chunks w' c) = c_ents (chunks w c) \<and> c_data (chunks w' c) = c_data (chunks w c))"

lemma keeps_rows_trans: "keeps_rows u v U \<Longrightarrow> U \<subseteq> V \<Longrightarrow> keeps_rows v w V \<Longrightarrow> keeps_rows u w U"
  by (auto simp: keeps_rows_def)

lemma keeps_rows_refl [simp]: "keeps_rows w w U"
  by (simp add: keeps_rows_def)

lemma tab_inv_keeps:
  assumes "keeps_rows w w' U" "fst ` L \<subseteq> U" "tab_inv w L fl"
  shows "tab_inv w' L fl"
proof (rule tab_inv_cong [OF _ _ _ assms(3)])
  fix c r assume "(c, r) \<in> L"
  then have "c \<in> U" using assms(2) by force
  then show "row_of w' c r = row_of w c r" using assms(1) by (simp add: keeps_rows_def row_of_def)
qed (use assms(1) in \<open>simp_all add: keeps_rows_def\<close>)

lemma structural_change_shape: "same_shape w (structural_change g c w)" "keeps_rows w (structural_change g c w) U"
  by (simp_all add: same_shape_def keeps_rows_def structural_change_def Let_def)

lemma list_frame_add_chunk: "list_frame (add_chunk_prep g c w) (add_chunk g c w)"
  unfolding add_chunk_alt Let_def
  by (intro list_frame_steps list_frame_link list_frame_refl arch_core_links) (auto simp: arch_core_def)

lemma prep_frame:
  "ents (add_chunk_prep g c w) = ents w" "fresh_data (add_chunk_prep g c w) = fresh_data w"
  "bins (add_chunk_prep g c w) = bins w" "next_ptr (add_chunk_prep g c w) = next_ptr w"
  "c_ents (chunks (add_chunk_prep g c w) x) = c_ents (chunks w x)"
  "c_data (chunks (add_chunk_prep g c w) x) = c_data (chunks w x)"
  "c_type (chunks (add_chunk_prep g c w) x) = (if x = c then g else c_type (chunks w x))"
  "w_ctx (add_chunk_prep g c w) = w_ctx w"
  by (simp_all add: add_chunk_prep_def structural_change_def Let_def)

lemma list_frame_views:
  assumes "list_frame w w'"
  shows "c_count (chunks w' x) = c_count (chunks w x)" "c_ct (chunks w' x) = c_ct (chunks w x)"
    "c_type (chunks w' x) = c_type (chunks w x)" "c_ents (chunks w' x) = c_ents (chunks w x)"
    "c_data (chunks w' x) = c_data (chunks w x)" "ents w' = ents w" "fresh_data w' = fresh_data w"
    "bins w' = bins w" "next_ptr w' = next_ptr w" "keeps_rows w w' U" "mem_ok w' U = mem_ok w U"
    "chunk_capacity w' g c = chunk_capacity w g c"
  using assms world_rest_fields [of w' w] list_frame_arch [OF assms]
  by (auto simp: list_frame_def same_payload_def keeps_rows_def mem_ok_def chunk_capacity_def)

lemma add_chunk_frame:
  "c_count (chunks (add_chunk g c w) x) = c_count (chunks w x)" "c_ct (chunks (add_chunk g c w) x) = c_ct (chunks w x)"
  "c_type (chunks (add_chunk g c w) x) = (if x = c then g else c_type (chunks w x))"
  "chunk_capacity (add_chunk g c w) y x = chunk_capacity w y x" "chunkCapacity (archs (add_chunk g c w) y) = chunkCapacity (archs w y)"
  "keeps_rows w (add_chunk g c w) U" "mem_ok (add_chunk g c w) U = mem_ok w U"
  using list_frame_views [OF list_frame_add_chunk [of g c w]] list_frame_views(10,11) [OF list_frame_add_chunk [of g c w], of U] list_frame_arch [OF list_frame_add_chunk [of g c w]]
  by (simp_all add: add_chunk_prep_simps prep_frame keeps_rows_def mem_ok_def chunk_capacity_def)

lemma new_chunk_ok:
  assumes ok: "pool_ok w g full free U L fl" and new: "new_chunk g hint w = (c, w1)"
  shows "pool_ok w1 g full (free @ [c]) (insert c U) L fl \<and> c \<notin> U \<and> c_count (chunks w1 c) = 0 \<and> keeps_rows w w1 U
    \<and> (\<forall>x \<in> U. c_count (chunks w1 x) = c_count (chunks w x)) \<and> g_size (archs w1 g) = u32 (g_size (archs w g))"
proof -
  obtain ct w0 where m: "malloc_chunk ct w = (c, w0)" and w1: "w1 = add_chunk g c w0"
    using new by (auto simp: new_chunk_def Let_def split: prod.splits)
  have mem: "mem_ok w U" "set (full @ free) \<subseteq> U" "fst ` L \<subseteq> U" "tab_inv w L fl"
    and ac: "arch_chunks w g full free" and caps: "\<forall>ct. 0 < chunkCapacity (archs w g) ct \<and> chunkCapacity (archs w g) ct < 2 ^ 24"
    and counts: "\<forall>c \<in> set full. c_count (chunks w c) = chunk_capacity w g c"
      "\<forall>c \<in> set free. c_count (chunks w c) < chunk_capacity w g c"
    and types: "\<forall>c \<in> set (full @ free). c_type (chunks w c) = g"
    and rows: "\<forall>(c, r) \<in> L. r < c_count (chunks w c)"
    using ok by (simp_all add: pool_ok_def)
  note c = malloc_chunk_ok [OF mem(1) m]
  have same: "chunks w0 x = chunks w x" if "x \<in> U" for x using c(2,7) that by auto
  have in_U: "x \<in> U" "x \<noteq> c" if "x \<in> set (full @ free)" for x using mem(2) c(2) that by auto
  have "arch_chunks w0 g full free"
    using ac in_U same unfolding arch_chunks_def arch_list_def c(4)
    by (subst dseg_cong [of _ "chunks w0" "chunks w"]) auto
  moreover have "c \<notin> set (full @ free)" using in_U(2) by blast
  ultimately have list: "arch_chunks w1 g full (free @ [c])"
    unfolding w1 by (rule add_chunk_free [OF _ c(1)]) (use c(4,7) caps in \<open>simp_all add: chunk_capacity_def\<close>)
  have cap: "chunk_capacity w1 g x = chunk_capacity w0 g x" for x by (simp add: w1 add_chunk_frame)
  have cap0: "chunk_capacity w0 g x = chunk_capacity w g x" if "x \<in> U" for x using same [OF that] by (simp add: chunk_capacity_def c(4))
  have kr: "keeps_rows w w1 U"
    using same add_chunk_frame(6) [of w0 g c U] c(5,6) by (simp add: keeps_rows_def w1)
  have "pool_ok w1 g full (free @ [c]) (insert c U) L fl"
    unfolding pool_ok_def
  proof (intro conjI)
    show "\<forall>x \<in> set full. c_count (chunks w1 x) = chunk_capacity w1 g x"
      using counts(1) in_U same cap cap0 by (simp add: w1 add_chunk_frame)
    show "\<forall>x \<in> set (free @ [c]). c_count (chunks w1 x) < chunk_capacity w1 g x"
      using counts(2) in_U same cap cap0 caps c(4,7) by (auto simp: w1 add_chunk_frame chunk_capacity_def)
    show "\<forall>x \<in> set (full @ free @ [c]). c_type (chunks w1 x) = g"
      using types in_U same by (auto simp: w1 add_chunk_frame)
    show "\<forall>ct. 0 < chunkCapacity (archs w1 g) ct \<and> chunkCapacity (archs w1 g) ct < 2 ^ 24"
      using caps by (simp add: w1 add_chunk_frame c(4))
    show "mem_ok w1 (insert c U)" using c(3) by (simp add: w1 add_chunk_frame)
    show "\<forall>(x, r) \<in> L. r < c_count (chunks w1 x)"
      using rows mem(3) same by (force simp: w1 add_chunk_frame)
    show "tab_inv w1 L fl" by (rule tab_inv_keeps [OF kr mem(3,4)])
  qed (use list mem in auto)
  moreover have "\<forall>x \<in> U. c_count (chunks w1 x) = c_count (chunks w x)" using same by (simp add: w1 add_chunk_frame)
  moreover have "g_size (archs w1 g) = u32 (g_size (archs w g))"
    using list_frame_arch(3) [OF list_frame_add_chunk [of g c w0], of g] c(4,7)
    by (simp add: w1 add_chunk_prep_def structural_change_simps)
  ultimately show ?thesis using c(2,7) kr by (simp add: w1 add_chunk_frame)
qed

lemma resize_chunk_grows:
  assumes ok: "pool_ok w g full (c # free) U L fl" and n: "c_count (chunks w c) < n" "n \<le> chunk_capacity w g c"
  shows "\<exists>w'. resize_chunk c n w = Some w' \<and> keeps_rows w w' V
    \<and> pool_ok w' g (if n = chunk_capacity w g c then full @ [c] else full) (if n = chunk_capacity w g c then free else c # free) U L fl
    \<and> (\<forall>x. c_count (chunks w' x) = (if x = c then n else c_count (chunks w x))) \<and> g_size (archs w' g) = g_size (archs w g)
    \<and> (\<forall>x. chunk_capacity w' g x = chunk_capacity w g x)"
proof -
  define w1 where "w1 = (if n = chunk_capacity w g c then unmark_free g c w else w)"
  let ?w' = "upd_chunk c (\<lambda>ch. ch\<lparr>c_count := n\<rparr>) w1"
  let ?full = "if n = chunk_capacity w g c then full @ [c] else full" and ?free = "if n = chunk_capacity w g c then free else c # free"
  have ac: "arch_chunks w g full (c # free)" and ct: "c_type (chunks w c) = g"
    and dist: "c \<notin> set full" "c \<notin> set free"
    using ok by (auto simp: pool_ok_def arch_chunks_def arch_list_def)
  have lf: "list_frame w w1" by (simp add: w1_def list_frame_unmark_free)
  note v = list_frame_views [OF lf]
  have res: "resize_chunk c n w = Some ?w'"
    using n ct by (simp add: resize_chunk_def Let_def w1_def)
  have "arch_chunks w1 g ?full ?free"
    using ac unmark_free_chunks [of w g full "[]" c free] by (simp add: w1_def)
  moreover have "dseg (chunks ?w') p h xs t m = dseg (chunks w1) p h xs t m" for p h xs t m
    by (rule dseg_cong) simp
  ultimately have list: "arch_chunks ?w' g ?full ?free" by (simp add: arch_chunks_def arch_list_def)
  have cap: "chunk_capacity ?w' g x = chunk_capacity w g x" for x using v(12) by (simp add: chunk_capacity_def)
  have cnt: "c_count (chunks ?w' x) = (if x = c then n else c_count (chunks w x))" for x using v(1) by simp
  have kr: "keeps_rows w ?w' V" for V using v(4-7) by (simp add: keeps_rows_def)
  have rows: "\<forall>(x, r) \<in> L. r < c_count (chunks w x)" using ok by (simp add: pool_ok_def)
  have "pool_ok ?w' g ?full ?free U L fl"
    unfolding pool_ok_def
  proof (intro conjI)
    show "\<forall>x \<in> set ?full. c_count (chunks ?w' x) = chunk_capacity ?w' g x"
      using ok dist unfolding cnt cap pool_ok_def by auto
    show "\<forall>x \<in> set ?free. c_count (chunks ?w' x) < chunk_capacity ?w' g x"
      using ok dist n unfolding cnt cap pool_ok_def by auto
    show "\<forall>x \<in> set (?full @ ?free). c_type (chunks ?w' x) = g"
      using ok v(3) unfolding pool_ok_def by auto
    show "\<forall>ct. 0 < chunkCapacity (archs ?w' g) ct \<and> chunkCapacity (archs ?w' g) ct < 2 ^ 24"
      using ok list_frame_arch(1) [OF lf, of g] unfolding pool_ok_def by simp
    show "mem_ok ?w' U" using ok v(8,9) unfolding pool_ok_def mem_ok_def by simp
    show "set (?full @ ?free) \<subseteq> U" using ok unfolding pool_ok_def by auto
    show "\<forall>(x, r) \<in> L. r < c_count (chunks ?w' x)"
      using rows n(1) unfolding cnt by fastforce
    show "tab_inv ?w' L fl"
      by (rule tab_inv_keeps [OF kr]) (use ok in \<open>auto simp: pool_ok_def\<close>)
  qed (use list ok in \<open>auto simp: pool_ok_def\<close>)
  then show ?thesis using res kr cnt cap list_frame_arch(3) [OF lf, of g] by (intro exI [of _ ?w']) simp
qed

text \<open>Every row in use of the chunks is one of \<open>L\<close>.\<close>

definition dense :: "world \<Rightarrow> ptr set \<Rightarrow> (ptr \<times> nat) set \<Rightarrow> bool" where
  "dense w C L \<longleftrightarrow> (\<forall>c \<in> C. \<forall>r < c_count (chunks w c). (c, r) \<in> L)"

text \<open>One step of an allocation: a slice of rows that are not in use yet.\<close>

lemma allocate_slice_ok:
  assumes ok: "pool_ok w g full free U L fl" and n: "0 < n" "n < 2 ^ 32"
  shows "\<exists>s w' full' free' U'. allocate_slice g n w = Some (s, w') \<and> pool_ok w' g full' free' U' L fl \<and> U \<subseteq> U'
    \<and> 0 < sl_count s \<and> sl_count s \<le> n \<and> sl_start s + sl_count s = c_count (chunks w' (sl_c s))
    \<and> sl_start s + sl_count s \<le> chunk_capacity w' g (sl_c s) \<and> sl_c s \<in> set (full' @ free')
    \<and> set (full @ free) \<subseteq> set (full' @ free') \<and> slice_rows s 0 (sl_count s) \<inter> L = {}
    \<and> keeps_rows w w' U \<and> g_size (archs w' g) = u32 (g_size (archs w g) + sl_count s)
    \<and> (\<forall>x \<in> U. x \<noteq> sl_c s \<longrightarrow> c_count (chunks w' x) = c_count (chunks w x))
    \<and> set (full' @ free') \<subseteq> set (full @ free) \<union> - U \<and> (dense w (set (full @ free)) L \<longrightarrow> dense w' (set (full' @ free')) (L \<union> slice_rows s 0 (sl_count s)))"
proof -
  obtain c w1 U1 free1 where c: "(if firstFree (archs w g) = 0 then new_chunk g n w else (firstFree (archs w g), w)) = (c, w1)"
    and ok1: "pool_ok w1 g full (c # free1) U1 L fl" and U: "U \<subseteq> U1" and kr1: "keeps_rows w w1 U"
    and cnt1: "\<forall>x \<in> U. c_count (chunks w1 x) = c_count (chunks w x)" and sz1: "g_size (archs w1 g) = u32 (g_size (archs w g)) \<or> w1 = w"
    and free1: "set free \<subseteq> set (c # free1)" "set free1 \<subseteq> set free" "c \<in> set free \<or> c \<notin> U \<and> c_count (chunks w1 c) = 0"
  proof (cases free)
    case Nil
    then have "firstFree (archs w g) = 0" using ok by (simp add: pool_ok_def arch_chunks_def)
    moreover obtain c w1 where "new_chunk g n w = (c, w1)" by fastforce
    ultimately show ?thesis using that [of c w1 "[]" "insert c U"] new_chunk_ok [OF ok, of n c w1] Nil by auto
  next
    case (Cons f fs)
    then have "firstFree (archs w g) = f" "f \<noteq> 0" using ok dseg_nonzero
      by (fastforce simp: pool_ok_def arch_chunks_def arch_list_def)+
    then show ?thesis using that [of f w fs U] ok Cons by auto
  qed
  define w2 where "w2 = structural_change g c w1"
  define start where "start = c_count (chunks w2 c)"
  define cnt where "cnt = min n (sub32 (chunk_capacity w2 g c) start)"
  define w3 where "w3 = upd_arch g (\<lambda>a. a\<lparr>g_size := u32 (g_size a + cnt)\<rparr>) w2"
  have shape: "same_shape w1 w3" "keeps_rows w1 w3 V" for V
    using structural_change_shape [of w1 g c] by (auto simp: w3_def w2_def same_shape_def keeps_rows_def)
  have L: "fst ` L \<subseteq> U1" "\<forall>(x, r) \<in> L. r < c_count (chunks w1 x)" "tab_inv w1 L fl"
    using ok1 by (simp_all add: pool_ok_def)
  have ok3: "pool_ok w3 g full (c # free1) U1 L fl"
    by (rule pool_ok_shape [OF shape(1) ok1 L(1,2) tab_inv_keeps [OF shape(2) L(1,3)]])
  have cap: "chunk_capacity w2 g c = chunk_capacity w3 g c" "start = c_count (chunks w3 c)"
    by (simp_all add: w3_def start_def chunk_capacity_def)
  have room: "start < chunk_capacity w3 g c" "chunk_capacity w3 g c < 2 ^ 24"
    using ok3 cap(2) by (simp_all add: pool_ok_def chunk_capacity_def)
  have cnt: "cnt = min n (chunk_capacity w3 g c - start)" "0 < cnt" "start + cnt \<le> chunk_capacity w3 g c" "u32 (start + cnt) = start + cnt"
    using room n by (auto simp: cnt_def cap(1) wrap_simps)
  obtain w' where w': "resize_chunk c (start + cnt) w3 = Some w'" "keeps_rows w3 w' U"
    "pool_ok w' g (if start + cnt = chunk_capacity w3 g c then full @ [c] else full)
       (if start + cnt = chunk_capacity w3 g c then free1 else c # free1) U1 L fl"
    "\<forall>x. c_count (chunks w' x) = (if x = c then start + cnt else c_count (chunks w3 x))" "g_size (archs w' g) = g_size (archs w3 g)"
    "\<forall>x. chunk_capacity w' g x = chunk_capacity w3 g x"
    using resize_chunk_grows [OF ok3, of "start + cnt" U] cnt(2,3) cap(2) by (auto simp: less_add_same_cancel1)
  let ?s = "\<lparr>sl_c = c, sl_start = start, sl_count = cnt\<rparr>"
  have res: "allocate_slice g n w = Some (?s, w')"
    using c w'(1) cnt(4)
    by (simp add: allocate_slice_def Let_def w2_def [symmetric] start_def [symmetric] cnt_def [symmetric] w3_def [symmetric])
  have fresh: "slice_rows ?s 0 cnt \<inter> L = {}"
    using ok3 cap(2) by (fastforce simp: pool_ok_def slice_rows_def)
  have kr: "keeps_rows w w' U" using kr1 shape(2) [of U] w'(2) by (meson keeps_rows_trans subset_refl)
  have size: "g_size (archs w' g) = u32 (g_size (archs w g) + cnt)"
    using sz1 w'(5) by (auto simp: w3_def w2_def structural_change_simps u32_def mod_add_left_eq)
  have others: "\<forall>x \<in> U. x \<noteq> c \<longrightarrow> c_count (chunks w' x) = c_count (chunks w x)"
    using w'(4) cnt1 shape(1) by (simp add: same_shape_def)
  have in_U: "set (full @ free) \<subseteq> U" using ok by (simp add: pool_ok_def)
  define F G where "F = (if start + cnt = chunk_capacity w3 g c then full @ [c] else full)"
    and "G = (if start + cnt = chunk_capacity w3 g c then free1 else c # free1)"
  have sets: "c \<in> set (F @ G)" "set (full @ free) \<subseteq> set (F @ G)" using free1 by (auto simp: F_def G_def)
  have new: "set (F @ G) \<subseteq> insert c (set (full @ free))" using free1(2) by (auto simp: F_def G_def)
  have dense: "dense w' (set (F @ G)) (L \<union> slice_rows ?s 0 cnt)" if D: "dense w (set (full @ free)) L"
    unfolding dense_def
  proof (intro ballI allI impI)
    fix x r assume x: "x \<in> set (F @ G)" "r < c_count (chunks w' x)"
    show "(x, r) \<in> L \<union> slice_rows ?s 0 cnt"
    proof (cases "x = c \<and> start \<le> r")
      case True
      then have "r < start + cnt" using x(2) w'(4) by simp
      then have "r = start + (r - start)" "r - start \<in> {0..<cnt}" using True by auto
      then have "(c, r) \<in> slice_rows ?s 0 cnt" unfolding slice_rows_def by (metis chunk_slice.select_convs(1,2) image_eqI)
      then show ?thesis using True by simp
    next
      case False
      have start: "start = c_count (chunks w1 c)" using cap(2) shape(1) by (simp add: same_shape_def)
      have old: "x \<in> set (full @ free)"
      proof (cases "x = c")
        case True
        then have "c_count (chunks w1 c) \<noteq> 0" using False start by simp
        then show ?thesis using True free1(3) by auto
      qed (use new x(1) in auto)
      then have "r < c_count (chunks w x)" using False x(2) w'(4) start cnt1 in_U others by (cases "x = c") auto
      then show ?thesis using D old by (simp add: dense_def)
    qed
  qed
  have fresh_or_old: "set (F @ G) \<subseteq> set (full @ free) \<union> - U" using new free1(3) by auto
  have ok': "pool_ok w' g F G U1 L fl" using w'(3) by (simp only: F_def G_def)
  have le: "cnt \<le> n" using cnt(1) by simp
  have at: "start + cnt = c_count (chunks w' c)" using w'(4) by simp
  have cap': "start + cnt \<le> chunk_capacity w' g c" using cnt(3) w'(6) by simp
  show ?thesis
    using res ok' U cnt(2) le at cap' sets fresh kr size others fresh_or_old dense
    by (intro exI [of _ ?s] exI [of _ w'] exI [of _ F] exI [of _ G] exI [of _ U1]) simp
qed

section \<open>Filling the rows\<close>

lemma chunk_construct_on_mem: "\<exists>f. chunk_construct s w = on_mem (sl_c s) f w"
  unfolding chunk_construct_def Let_def for_up_on_mem
  by (auto simp: on_mem_comp)

lemma chunk_construct_frame:
  "same_shape w (chunk_construct s w)" "ents (chunk_construct s w) = ents w" "fresh_data (chunk_construct s w) = fresh_data w"
  "row_of (chunk_construct s w) = row_of w" "archs (chunk_construct s w) = archs w"
  "x \<noteq> sl_c s \<Longrightarrow> c_data (chunks (chunk_construct s w) x) = c_data (chunks w x)"
proof -
  obtain f where "chunk_construct s w = on_mem (sl_c s) f w" using chunk_construct_on_mem by blast
  then show "same_shape w (chunk_construct s w)" "ents (chunk_construct s w) = ents w" "fresh_data (chunk_construct s w) = fresh_data w"
    "row_of (chunk_construct s w) = row_of w" "archs (chunk_construct s w) = archs w"
    "x \<noteq> sl_c s \<Longrightarrow> c_data (chunks (chunk_construct s w) x) = c_data (chunks w x)"
    by (auto simp: on_mem_def same_shape_def row_of_def [abs_def])
qed

text \<open>What the operations of the entity table leave alone.\<close>

definition table_frame :: "world \<Rightarrow> world \<Rightarrow> bool" where
  "table_frame w w' \<longleftrightarrow> same_shape w w' \<and> archs w' = archs w \<and> (\<forall>x. c_data (chunks w' x) = c_data (chunks w x))"

lemma table_frame_trans: "table_frame u v \<Longrightarrow> table_frame v w \<Longrightarrow> table_frame u w"
  unfolding table_frame_def by (metis same_shape_trans)

lemma table_frame_steps:
  "table_frame w (place_entity c k n w)" "table_frame w (set_free n w)" "table_frame w (grow_datas k w)" "table_frame w w"
  by (auto simp: table_frame_def same_shape_def place_entity_def set_data_def upd_ents_def set_row_def set_free_def
      grow_datas_def Let_def)

lemma table_frame_loop: "table_frame w (for_up (\<lambda>j. place_entity c (a + j) (b j)) i n w)"
proof (induction n)
  case 0
  then show ?case by (simp add: table_frame_steps)
next
  case (Suc n)
  then show ?case
    using table_frame_trans [OF Suc table_frame_steps(1)] by (cases "i \<le> n") (simp_all add: for_up_Suc table_frame_steps)
qed

lemma table_frame_free: "new_ents_free s i w = (j, w') \<Longrightarrow> table_frame w w'"
proof (induction s i w arbitrary: j w' rule: new_ents_free.induct)
  case (1 s i w)
  show ?case
  proof (cases "i < sl_count s \<and> free_head (ents w) \<noteq> 0")
    case True
    let ?w1 = "place_entity (sl_c s) (sl_start s + i) (free_head (ents w)) (set_free (ed_nextFree (data_of w (free_head (ents w)))) w)"
    have "table_frame w ?w1" by (rule table_frame_trans [OF table_frame_steps(2) table_frame_steps(1)])
    moreover have "table_frame ?w1 w'" using 1 True by (simp add: new_ents_free_step)
    ultimately show ?thesis by (rule table_frame_trans)
  next
    case False
    then show ?thesis using 1(2) by (simp add: new_ents_free.simps [of s i w] table_frame_steps split: if_splits)
  qed
qed

lemma table_frame_new_entities: "table_frame w (new_entities s w)"
proof -
  obtain i w1 where f: "new_ents_free s 0 w = (i, w1)" by fastforce
  note tf = table_frame_free [OF f]
  show ?thesis
  proof (cases "i = sl_count s")
    case False
    then show ?thesis
      using table_frame_trans [OF table_frame_trans [OF tf table_frame_steps(3)] table_frame_loop]
      by (simp add: new_entities_def f Let_def)
  qed (use f tf in \<open>simp add: new_entities_def\<close>)
qed

lemma set_rows_in: "set (rows_in s) = slice_rows s 0 (sl_count s)"
  by (auto simp: rows_in_def slice_rows_def)

lemma allocate_step:
  assumes ok: "pool_ok w g full free U L fl" and n: "0 < n" "length (datas (ents w)) + n \<le> 2 ^ 24"
  shows "\<exists>s w1 w2 full' free' U'. allocate_slice g n w = Some (s, w1) \<and> w2 = new_entities s (chunk_construct s w1)
    \<and> pool_ok w2 g full' free' U' (L \<union> set (rows_in s)) (drop (sl_count s) fl) \<and> set (full @ free) \<subseteq> set (full' @ free')
    \<and> 0 < sl_count s \<and> sl_count s \<le> n \<and> sl_c s \<in> set (full' @ free') \<and> set (rows_in s) \<inter> L = {}
    \<and> length (datas (ents w2)) = length (datas (ents w)) + (sl_count s - length fl)
    \<and> (\<forall>(c, r) \<in> L. row_of w2 c r = row_of w c r) \<and> u32 (g_size (archs w2 g)) = u32 (g_size (archs w g) + sl_count s)
    \<and> U \<subseteq> U' \<and> set (full' @ free') \<subseteq> set (full @ free) \<union> - U
    \<and> (dense w (set (full @ free)) L \<longrightarrow> dense w2 (set (full' @ free')) (L \<union> set (rows_in s)))
    \<and> (0 < length (datas (ents w)) \<longrightarrow> (\<forall>(c, r) \<in> set (rows_in s). e_id (row_of w2 c r) \<noteq> 0))"
proof -
  have n32: "n < 2 ^ 32" using n(2) by simp
  obtain s w1 full' free' U' where a: "allocate_slice g n w = Some (s, w1)" "pool_ok w1 g full' free' U' L fl" "U \<subseteq> U'"
    "0 < sl_count s" "sl_count s \<le> n" "sl_start s + sl_count s = c_count (chunks w1 (sl_c s))"
    "sl_start s + sl_count s \<le> chunk_capacity w1 g (sl_c s)" "sl_c s \<in> set (full' @ free')"
    "set (full @ free) \<subseteq> set (full' @ free')" "slice_rows s 0 (sl_count s) \<inter> L = {}" "keeps_rows w w1 U"
    "g_size (archs w1 g) = u32 (g_size (archs w g) + sl_count s)" "set (full' @ free') \<subseteq> set (full @ free) \<union> - U"
    "dense w (set (full @ free)) L \<longrightarrow> dense w1 (set (full' @ free')) (L \<union> slice_rows s 0 (sl_count s))"
    using allocate_slice_ok [OF ok n(1) n32] by - (elim exE conjE, rule that, assumption+)
  let ?w1 = "chunk_construct s w1" let ?w2 = "new_entities s ?w1" let ?L = "L \<union> slice_rows s 0 (sl_count s)"
  note cf = chunk_construct_frame [where s = s and w = w1]
  have tf: "table_frame ?w1 ?w2" by (rule table_frame_new_entities)
  have inv1: "tab_inv ?w1 L fl"
    by (rule tab_inv_cong [OF cf(2,3)]) (use a(2) cf(4) in \<open>simp_all add: pool_ok_def\<close>)
  have len1: "length (datas (ents ?w1)) = length (datas (ents w))" using cf(2) a(11) by (simp add: keeps_rows_def)
  have cap: "chunk_capacity w1 g (sl_c s) < 2 ^ 24" using a(2) by (simp add: pool_ok_def chunk_capacity_def)
  have T: "tab_inv ?w2 ?L (drop (sl_count s) fl)"
    "\<forall>c r. (c, r) \<notin> slice_rows s 0 (sl_count s) \<longrightarrow> row_of ?w2 c r = row_of ?w1 c r"
    "length (datas (ents ?w2)) = length (datas (ents ?w1)) + (sl_count s - length fl)"
    "\<forall>k < sl_count s. e_id (row_of ?w2 (sl_c s) (sl_start s + k))
       = (if k < length fl then fl ! k else length (datas (ents ?w1)) + (k - length fl))"
    using new_entities_table [OF inv1 a(10) _ _ refl] a(5,7) cap n(2) len1 by simp_all
  have shape: "same_shape w1 ?w2" using same_shape_trans [OF cf(1)] tf by (simp add: table_frame_def)
  have pool: "pool_ok ?w2 g full' free' U' ?L (drop (sl_count s) fl)"
  proof (rule pool_ok_shape [OF shape a(2) _ _ T(1)])
    show "fst ` ?L \<subseteq> U'" using a(2,8) by (auto simp: pool_ok_def slice_rows_def)
    show "\<forall>(c, r) \<in> ?L. r < c_count (chunks w1 c)" using a(2,6) by (auto simp: pool_ok_def slice_rows_def)
  qed
  have old: "row_of ?w2 c r = row_of w c r" if "(c, r) \<in> L" for c r
  proof -
    have "(c, r) \<notin> slice_rows s 0 (sl_count s)" using a(10) that by blast
    then have "row_of ?w2 c r = row_of ?w1 c r" using T(2) by blast
    also have "\<dots> = row_of w1 c r" by (simp only: cf(4))
    also have "fst ` L \<subseteq> U" using ok by (simp add: pool_ok_def)
    then have "row_of w1 c r = row_of w c r" using a(11) that by (force simp: keeps_rows_def row_of_def)
    finally show ?thesis .
  qed
  have "g_size (archs ?w2 g) = u32 (g_size (archs w g) + sl_count s)"
    using tf cf(5) a(12) by (simp add: table_frame_def)
  then have sz: "u32 (g_size (archs ?w2 g)) = u32 (g_size (archs w g) + sl_count s)" by (simp add: u32_def)
  have facts: "pool_ok ?w2 g full' free' U' (L \<union> set (rows_in s)) (drop (sl_count s) fl)"
    using pool by (simp only: set_rows_in)
  have rows: "\<forall>(c, r) \<in> L. row_of ?w2 c r = row_of w c r" using old by auto
  have new: "set (rows_in s) \<inter> L = {}" "length (datas (ents ?w2)) = length (datas (ents w)) + (sl_count s - length fl)"
    using a(10) T(3) len1 by (simp_all add: set_rows_in)
  have dense: "dense w (set (full @ free)) L \<longrightarrow> dense ?w2 (set (full' @ free')) (L \<union> set (rows_in s))"
    using a(14) shape unfolding set_rows_in by (simp add: dense_def same_shape_def)
  have "0 \<notin> set fl"
    using ok free_chain_bound [of "datas (ents w)" "free_head (ents w)" fl 0] by (auto simp: pool_ok_def tab_inv_def)
  then have fl0: "fl ! k \<noteq> 0" if "k < length fl" for k using that nth_mem by metis
  have "e_id (row_of ?w2 (sl_c s) (sl_start s + k)) \<noteq> 0" if "k < sl_count s" "0 < length (datas (ents w))" for k
  proof (cases "k < length fl")
    case False
    then have "e_id (row_of ?w2 (sl_c s) (sl_start s + k)) = length (datas (ents w)) + (k - length fl)"
      using T(4) [rule_format, OF that(1)] unfolding len1 by simp
    then show ?thesis using that(2) by linarith
  qed (use T(4) [rule_format, OF that(1)] fl0 in simp)
  then have ids: "0 < length (datas (ents w)) \<longrightarrow> (\<forall>(c, r) \<in> set (rows_in s). e_id (row_of ?w2 c r) \<noteq> 0)"
    by (auto simp: rows_in_def)
  show ?thesis
    by (intro exI conjI, rule a(1), rule refl, rule facts, rule a(9), rule a(4), rule a(5), rule a(8), rule new(1),
        rule new(2), rule rows, rule sz, rule a(3), rule a(13), rule dense, rule ids)
qed

lemma allocate_loop_ok:
  assumes "pool_ok w g full free U L fl" "length (datas (ents w)) + (n - k) \<le> 2 ^ 24"
  shows "\<exists>ss w' full' free' U'. allocate_loop g n k result w = Some (result @ ss, w')
    \<and> pool_ok w' g full' free' U' (L \<union> set (concat (map rows_in ss))) (drop (n - k) fl)
    \<and> set (full @ free) \<subseteq> set (full' @ free') \<and> distinct (concat (map rows_in ss)) \<and> length (concat (map rows_in ss)) = n - k
    \<and> set (concat (map rows_in ss)) \<inter> L = {} \<and> (\<forall>s \<in> set ss. 0 < sl_count s \<and> sl_c s \<in> set (full' @ free'))
    \<and> (\<forall>(c, r) \<in> L. row_of w' c r = row_of w c r) \<and> u32 (g_size (archs w' g)) = u32 (g_size (archs w g) + (n - k))
    \<and> U \<subseteq> U' \<and> set (full' @ free') \<subseteq> set (full @ free) \<union> - U
    \<and> (dense w (set (full @ free)) L \<longrightarrow> dense w' (set (full' @ free')) (L \<union> set (concat (map rows_in ss))))
    \<and> (0 < length (datas (ents w)) \<longrightarrow> 0 < length (datas (ents w')) \<and> (\<forall>(c, r) \<in> set (concat (map rows_in ss)). e_id (row_of w' c r) \<noteq> 0))"
  using assms
proof (induction "n - k" arbitrary: k w full free U L fl result rule: less_induct)
  case less
  show ?case
  proof (cases "k < n")
    case False
    then show ?thesis
      using less.prems
      by (intro exI [of _ "[]"] exI [of _ w] exI [of _ full] exI [of _ free] exI [of _ U]) (simp add: allocate_loop.simps [of g n k])
  next
    case True
    obtain s w1 w2 full1 free1 U1 where a: "allocate_slice g (n - k) w = Some (s, w1)" "w2 = new_entities s (chunk_construct s w1)"
      "pool_ok w2 g full1 free1 U1 (L \<union> set (rows_in s)) (drop (sl_count s) fl)" "set (full @ free) \<subseteq> set (full1 @ free1)"
      "0 < sl_count s" "sl_count s \<le> n - k" "sl_c s \<in> set (full1 @ free1)" "set (rows_in s) \<inter> L = {}"
      "length (datas (ents w2)) = length (datas (ents w)) + (sl_count s - length fl)"
      "\<forall>(c, r) \<in> L. row_of w2 c r = row_of w c r" "u32 (g_size (archs w2 g)) = u32 (g_size (archs w g) + sl_count s)"
      "U \<subseteq> U1" "set (full1 @ free1) \<subseteq> set (full @ free) \<union> - U"
      "dense w (set (full @ free)) L \<longrightarrow> dense w2 (set (full1 @ free1)) (L \<union> set (rows_in s))"
      "0 < length (datas (ents w)) \<longrightarrow> (\<forall>(c, r) \<in> set (rows_in s). e_id (row_of w2 c r) \<noteq> 0)"
      using allocate_step [OF less.prems(1) _ less.prems(2)] True by - (drule meta_mp, simp, elim exE conjE, rule that, assumption+)
    have m: "n - (k + sl_count s) < n - k" "length (datas (ents w2)) + (n - (k + sl_count s)) \<le> 2 ^ 24"
      using a(5,6,9) True less.prems(2) by auto
    obtain ss w' full' free' U' where b: "allocate_loop g n (k + sl_count s) (result @ [s]) w2 = Some ((result @ [s]) @ ss, w')"
      "pool_ok w' g full' free' U' (L \<union> set (rows_in s) \<union> set (concat (map rows_in ss))) (drop (n - (k + sl_count s)) (drop (sl_count s) fl))"
      "set (full1 @ free1) \<subseteq> set (full' @ free')" "distinct (concat (map rows_in ss))" "length (concat (map rows_in ss)) = n - (k + sl_count s)"
      "set (concat (map rows_in ss)) \<inter> (L \<union> set (rows_in s)) = {}" "\<forall>s \<in> set ss. 0 < sl_count s \<and> sl_c s \<in> set (full' @ free')"
      "\<forall>(c, r) \<in> L \<union> set (rows_in s). row_of w' c r = row_of w2 c r"
      "u32 (g_size (archs w' g)) = u32 (g_size (archs w2 g) + (n - (k + sl_count s)))"
      "U1 \<subseteq> U'" "set (full' @ free') \<subseteq> set (full1 @ free1) \<union> - U1"
      "dense w2 (set (full1 @ free1)) (L \<union> set (rows_in s)) \<longrightarrow> dense w' (set (full' @ free')) (L \<union> set (rows_in s) \<union> set (concat (map rows_in ss)))"
      "0 < length (datas (ents w2)) \<longrightarrow> 0 < length (datas (ents w')) \<and> (\<forall>(c, r) \<in> set (concat (map rows_in ss)). e_id (row_of w' c r) \<noteq> 0)"
      using less.hyps [OF m(1) a(3) m(2), of "result @ [s]"] by - (elim exE conjE, rule that, assumption+)
    have loop: "allocate_loop g n k result w = Some (result @ (s # ss), w')"
      using True a(1,2) b(1) by (simp add: allocate_loop.simps [of g n k] Let_def)
    have sum: "n - (k + sl_count s) + sl_count s = n - k" using a(6) by simp
    have "u32 (g_size (archs w' g)) = u32 (g_size (archs w g) + (n - k))"
    proof -
      have "u32 (g_size (archs w' g)) = u32 (u32 (g_size (archs w2 g)) + (n - (k + sl_count s)))" using b(9) by (simp add: u32_def mod_simps)
      also have "\<dots> = u32 (g_size (archs w g) + sl_count s + (n - (k + sl_count s)))" unfolding a(11) by (simp add: u32_def mod_simps)
      also have "g_size (archs w g) + sl_count s + (n - (k + sl_count s)) = g_size (archs w g) + (n - k)" using sum by linarith
      finally show ?thesis .
    qed
    moreover have one: "distinct (rows_in s)" "length (rows_in s) = sl_count s" by (auto simp: rows_in_def distinct_map inj_on_def)
    moreover have all: "L \<union> set (rows_in s) \<union> set (concat (map rows_in ss)) = L \<union> set (concat (map rows_in (s # ss)))"
      "concat (map rows_in (s # ss)) = rows_in s @ concat (map rows_in ss)" by auto
    moreover have "drop (n - (k + sl_count s)) (drop (sl_count s) fl) = drop (n - k) fl" using sum by (simp add: add.commute)
    moreover from this have "pool_ok w' g full' free' U' (L \<union> set (concat (map rows_in (s # ss)))) (drop (n - k) fl)"
      using b(2) by (simp only: all(1))
    moreover have "set (full @ free) \<subseteq> set (full' @ free')" "sl_c s \<in> set (full' @ free')" using a(4,7) b(3) by blast+
    moreover have "distinct (concat (map rows_in (s # ss)))" using one(1) b(4,6) unfolding all(2) distinct_append by blast
    moreover have "length (concat (map rows_in (s # ss))) = n - k" using one(2) b(5) a(6) unfolding all(2) length_append by linarith
    moreover have "set (concat (map rows_in (s # ss))) \<inter> L = {}" using a(8) b(6) unfolding all(2) set_append by blast
    moreover have "\<forall>s \<in> set (s # ss). 0 < sl_count s \<and> sl_c s \<in> set (full' @ free')" using b(7) a(5) calculation by simp
    moreover have "\<forall>(c, r) \<in> L. row_of w' c r = row_of w c r"
    proof
      fix x assume "x \<in> L"
      then show "case x of (c, r) \<Rightarrow> row_of w' c r = row_of w c r" using a(10) bspec [OF b(8), of x] by (cases x) auto
    qed
    moreover have "U \<subseteq> U'" "set (full' @ free') \<subseteq> set (full @ free) \<union> - U" using a(12,13) b(10,11) by blast+
    moreover have "dense w (set (full @ free)) L \<longrightarrow> dense w' (set (full' @ free')) (L \<union> set (concat (map rows_in (s # ss))))"
      using a(14) b(12) unfolding all(1) by blast
    moreover have "0 < length (datas (ents w)) \<longrightarrow> 0 < length (datas (ents w')) \<and> (\<forall>(c, r) \<in> set (concat (map rows_in (s # ss))). e_id (row_of w' c r) \<noteq> 0)"
    proof
      assume pos: "0 < length (datas (ents w))"
      then have B: "0 < length (datas (ents w'))" "\<forall>(c, r) \<in> set (concat (map rows_in ss)). e_id (row_of w' c r) \<noteq> 0" using a(9) b(13) by auto
      have "e_id (row_of w' c r) \<noteq> 0" if "(c, r) \<in> set (rows_in s)" for c r
      proof -
        have "(c, r) \<in> L \<union> set (rows_in s)" using that by blast
        then have "row_of w' c r = row_of w2 c r" using b(8) by blast
        then show ?thesis using a(15) pos that by auto
      qed
      then show "0 < length (datas (ents w')) \<and> (\<forall>(c, r) \<in> set (concat (map rows_in (s # ss))). e_id (row_of w' c r) \<noteq> 0)"
        using B unfolding all(2) set_append by blast
    qed
    ultimately show ?thesis using loop
      by - (rule exI [of _ "s # ss"], rule exI [of _ w'], rule exI [of _ full'], rule exI [of _ free'], rule exI [of _ U'], simp only: simp_thms)
  qed
qed


lemma two_chunks_pool: "pool_ok two_chunks 9 [] [] {} {} []"
  by (simp add: pool_ok_def two_chunks_simps mem_ok_def tab_inv_def)
    (simp add: two_chunks_def blank_memory_def)


end
