(* ===== verification/Release.thy ===== *)
theory Release
  imports Allocation Chunk_Copy
begin

text \<open>
  Release of rows: shrinking and removing chunks, \<open>free_slice\<close> and \<open>destroy\<close>.  The last rows of
  the chunk fill the gap, so that the rows in use are again the first ones.  The theorems say where
  every entity and every byte of its components are found afterwards, and that the invariant
  \<open>pool_ok\<close> of memory, chunk list and entity table holds again.
\<close>

section \<open>Frames\<close>

lemma table_frame_basic:
  "table_frame w (set_data n f w)" "table_frame w (copy_rows c a rows m n w)"
  by (auto simp: table_frame_def same_shape_def set_data_def upd_ents_def copy_rows_def)

lemma table_frame_up:
  assumes "\<And>i w. table_frame w (f i w)"
  shows "table_frame w (for_up f lo n w)"
proof (cases "lo \<le> n")
  case True
  show ?thesis
    by (rule for_up_invariant [where P = "\<lambda>_. table_frame w"]) (use True assms table_frame_trans in \<open>auto simp: table_frame_steps\<close>)
qed (simp add: table_frame_steps)

lemma table_frame_free_entities: "table_frame w (free_entities s w)"
  unfolding free_entities_def Let_def free_slot_def
  by (intro table_frame_trans [OF table_frame_trans [OF table_frame_up table_frame_basic(1)] table_frame_steps(2)] table_frame_basic)

lemma table_frame_move_entities: "table_frame w (move_entities d src i w)"
  unfolding move_entities_def Let_def
  by (intro table_frame_trans [OF table_frame_up table_frame_basic(2)] table_frame_basic)

text \<open>Versions, and with them the set of living handles, are only changed by making and freeing entities.\<close>

lemma entity_exist_cong: "ents w' = ents w \<Longrightarrow> entity_exist w' = entity_exist w"
  by (simp add: fun_eq_iff entity_exist_def data_of_def Let_def)

lemma entity_exist_set_data: "(\<And>d. ed_v (f d) = ed_v d) \<Longrightarrow> entity_exist (set_data n f w) = entity_exist w"
  by (auto simp: fun_eq_iff entity_exist_def data_of_set_data Let_def)

lemma entity_exist_fill: "entity_exist (fill_entities s i w) = entity_exist w"
proof -
  have "entity_exist (for_up (\<lambda>j. set_data (x j) (set_ed_i (y j))) 0 n w) = entity_exist w" for x y n
    by (rule for_up_keeps) (simp add: entity_exist_set_data)
  then show ?thesis by (simp add: fill_entities_def Let_def entity_exist_cong [of "copy_rows c a r m n w" w for c a r m n w])
qed

lemma chunk_move_within_on_mem: "\<exists>f. chunk_move_within s i w = on_mem (sl_c s) f w"
  unfolding chunk_move_within_def Let_def for_up_on_mem by blast

lemma same_shape_refl [simp]: "same_shape w w"
  by (simp add: same_shape_def)

lemma same_shape_views:
  assumes "same_shape w w'"
  shows "c_count (chunks w' x) = c_count (chunks w x)" "c_type (chunks w' x) = c_type (chunks w x)"
    "c_ct (chunks w' x) = c_ct (chunks w x)" "chunk_capacity w' y x = chunk_capacity w y x"
  using assms by (simp_all add: same_shape_def chunk_capacity_def)

section \<open>Shrinking and removing a chunk\<close>

lemma pool_ok_split:
  assumes "pool_ok w g full free U L fl" "c \<in> set (full @ free)"
  shows "c \<in> set full \<and> c_count (chunks w c) = chunk_capacity w g c \<and> c \<notin> set free
       \<or> c \<in> set free \<and> c_count (chunks w c) < chunk_capacity w g c \<and> c \<notin> set full"
  using assms unfolding pool_ok_def by fastforce

lemma resize_chunk_shrinks:
  assumes ok: "pool_ok w g full free U L fl" and c: "c \<in> set (full @ free)" and n: "0 < n" "n < c_count (chunks w c)"
    and rows: "\<forall>r. (c, r) \<in> L \<longrightarrow> r < n"
  shows "\<exists>w' full' free'. resize_chunk c n w = Some w' \<and> pool_ok w' g full' free' U L fl \<and> set (full' @ free') = set (full @ free)
    \<and> keeps_rows w w' V \<and> arch_core (archs w' g) = arch_core (archs w g)
    \<and> (\<forall>x. c_count (chunks w' x) = (if x = c then n else c_count (chunks w x)) \<and> c_ct (chunks w' x) = c_ct (chunks w x))"
proof -
  define w1 where "w1 = (if c_count (chunks w c) = chunk_capacity w g c then mark_free g c w else w)"
  let ?w' = "upd_chunk c (\<lambda>ch. ch\<lparr>c_count := n\<rparr>) w1"
  have ct: "c_type (chunks w c) = g" and le: "c_count (chunks w c) \<le> chunk_capacity w g c"
    using ok c by (auto simp: pool_ok_def order.strict_implies_order)
  have lf: "list_frame w w1" by (simp add: w1_def list_frame_mark_free)
  note v = list_frame_views [OF lf]
  have res: "resize_chunk c n w = Some ?w'" using n le ct by (simp add: resize_chunk_def Let_def w1_def)
  obtain full' free' where list1: "arch_chunks w1 g full' free'" and sets: "set (full' @ free') = set (full @ free)"
    and parts: "set full' \<subseteq> set full - {c}" "set free' \<subseteq> set free \<union> {c}"
  proof (cases "c \<in> set full")
    case True
    then obtain ys zs where full: "full = ys @ c # zs" using split_list by fastforce
    have cap: "c_count (chunks w c) = chunk_capacity w g c" using ok True by (simp add: pool_ok_def)
    have "arch_chunks w g (ys @ c # zs) free" "c \<notin> set (ys @ zs)"
      using ok by (auto simp: pool_ok_def full arch_chunks_def arch_list_def)
    then show thesis using that [of "ys @ zs" "free @ [c]"] mark_free_chunks [of w g ys c zs free] cap
      by (auto simp: w1_def full)
  next
    case False
    then have "c_count (chunks w c) \<noteq> chunk_capacity w g c" using pool_ok_split [OF ok c] by simp
    then show thesis using that [of full free] ok False by (auto simp: w1_def pool_ok_def)
  qed
  have "dseg (chunks ?w') p h xs t m = dseg (chunks w1) p h xs t m" for p h xs t m
    by (rule dseg_cong) simp
  then have list: "arch_chunks ?w' g full' free'" using list1 by (simp add: arch_chunks_def arch_list_def)
  have cap: "chunk_capacity ?w' g x = chunk_capacity w g x" for x using v(12) by (simp add: chunk_capacity_def)
  have cnt: "c_count (chunks ?w' x) = (if x = c then n else c_count (chunks w x))" for x using v(1) by simp
  have kr: "keeps_rows w ?w' V" for V using v(4-7) by (simp add: keeps_rows_def)
  have "pool_ok ?w' g full' free' U L fl"
    unfolding pool_ok_def
  proof (intro conjI)
    show "\<forall>x \<in> set full'. c_count (chunks ?w' x) = chunk_capacity ?w' g x"
      using ok parts(1) unfolding cnt cap pool_ok_def by auto
    show "\<forall>x \<in> set free'. c_count (chunks ?w' x) < chunk_capacity ?w' g x"
      using ok parts(2) n le unfolding cnt cap pool_ok_def by auto
    show "\<forall>x \<in> set (full' @ free'). c_type (chunks ?w' x) = g"
      using ok v(3) sets unfolding pool_ok_def by auto
    show "\<forall>ct. 0 < chunkCapacity (archs ?w' g) ct \<and> chunkCapacity (archs ?w' g) ct < 2 ^ 24"
      using ok list_frame_arch(1) [OF lf, of g] unfolding pool_ok_def by simp
    show "mem_ok ?w' U" using ok v(8,9) unfolding pool_ok_def mem_ok_def by simp
    show "set (full' @ free') \<subseteq> U" using ok sets unfolding pool_ok_def by auto
    show "\<forall>(x, r) \<in> L. r < c_count (chunks ?w' x)" using ok rows unfolding cnt pool_ok_def by fastforce
    show "tab_inv ?w' L fl" by (rule tab_inv_keeps [OF kr]) (use ok in \<open>auto simp: pool_ok_def\<close>)
  qed (use list ok in \<open>auto simp: pool_ok_def\<close>)
  moreover have "arch_core (archs ?w' g) = arch_core (archs w g)" using lf by (simp add: list_frame_def)
  ultimately show ?thesis using res kr cnt sets v(2)
    by (intro exI [of _ ?w'] exI [of _ full'] exI [of _ free']) simp
qed

text \<open>The first part of \<open>remove_chunk\<close>: everything but the removal of an empty archetype.\<close>

definition drop_chunk :: "ptr \<Rightarrow> ptr \<Rightarrow> world \<Rightarrow> world" where
  "drop_chunk g c w =
     (let w1 = structural_change g c w;
          w2 = upd_arch g (\<lambda>a. a\<lparr>g_size := sub32 (g_size a) (c_count (chunks w1 c)), chunkCount := u16 (chunkCount a + 2 ^ 16 - 1)\<rparr>) w1;
          w3 = (if c = firstFree (archs w2 g) then upd_arch g (\<lambda>a. a\<lparr>firstFree := c_next (chunks w2 c)\<rparr>) w2 else w2)
      in upd_chunk c (\<lambda>ch. ch\<lparr>c_type := 0\<rparr>) (world_remove g c w3))"

lemma remove_chunk_alt:
  "remove_chunk g c w = (let w5 = drop_chunk g c w in
     if firstChunk (archs w5 g) = 0 then update_queries g False (archetypes_erase (arch_type (archs w5 g)) w5) else Some w5)"
  by (simp add: remove_chunk_def drop_chunk_def Let_def)

lemma drop_chunk_list:
  assumes ac: "arch_chunks w g full free" and c: "c \<in> set (full @ free)"
  shows "arch_chunks (drop_chunk g c w) g (remove1 c full) (remove1 c free)"
proof -
  define w2 where "w2 = upd_arch g (\<lambda>a. a\<lparr>g_size := sub32 (g_size a) (c_count (chunks (structural_change g c w) c)),
    chunkCount := u16 (chunkCount a + 2 ^ 16 - 1)\<rparr>) (structural_change g c w)"
  define w3 where "w3 = (if c = firstFree (archs w2 g) then upd_arch g (\<lambda>a. a\<lparr>firstFree := c_next (chunks w2 c)\<rparr>) w2 else w2)"
  have seg: "dseg (chunks w3) p h xs t n = dseg (chunks w) p h xs t n" for p h xs t n
    by (rule dseg_cong) (simp add: w3_def w2_def structural_change_simps)
  have ends: "firstChunk (archs w3 g) = firstChunk (archs w g)" "lastChunk (archs w3 g) = lastChunk (archs w g)"
    "firstFree (archs w3 g) = (if c = firstFree (archs w g) then c_next (chunks w c) else firstFree (archs w g))"
    by (simp_all add: w3_def w2_def structural_change_simps)
  have al: "arch_list w g (full @ free)" and ff: "firstFree (archs w g) = (case free of [] \<Rightarrow> 0 | f # _ \<Rightarrow> f)"
    and d: "distinct (full @ free)" using ac by (simp_all add: arch_chunks_def arch_list_def)
  obtain ys zs where split: "full @ free = ys @ c # zs" using c split_list by fastforce
  have lk: "c \<noteq> 0" "c_next (chunks w c) = (if zs = [] then 0 else hd zs)"
    using arch_list_links(2,3) [of w g ys c zs] al split by simp_all
  have "arch_list w3 g (ys @ c # zs)" using al ends seg split by (simp add: arch_list_def)
  note rem = world_remove_list(1) [OF this]
  have "ys @ zs = remove1 c (full @ free)" using split d by (simp add: remove1_append)
  also have "\<dots> = remove1 c full @ remove1 c free" 
  proof (cases "c \<in> set full")
    case True
    then have "c \<notin> set free" using d by auto
    then show ?thesis using True by (simp add: remove1_append remove1_idem)
  qed (simp add: remove1_append remove1_idem)
  finally have "arch_list (world_remove g c w3) g (remove1 c full @ remove1 c free)" using rem by simp
  moreover have "firstFree (archs (world_remove g c w3) g) = (case remove1 c free of [] \<Rightarrow> 0 | f # _ \<Rightarrow> f)"
  proof (cases "c = firstFree (archs w g)")
    case True
    then obtain fs where free: "free = c # fs" using ff lk(1) by (cases free) auto
    have "c \<notin> set full" "c \<notin> set fs" using d unfolding free by auto
    then have "zs = fs" using split append_Cons_eq_iff [of c full fs ys zs] unfolding free by blast
    then show ?thesis using True ends(3) lk(2) by (cases fs) (simp_all add: world_remove_arch free)
  next
    case False
    then have "(case remove1 c free of [] \<Rightarrow> 0 | f # _ \<Rightarrow> f) = (case free of [] \<Rightarrow> 0 | f # _ \<Rightarrow> f)"
      using ff by (cases free) auto
    then show ?thesis using False ends(3) ff by (simp add: world_remove_arch)
  qed
  ultimately have "arch_chunks (world_remove g c w3) g (remove1 c full) (remove1 c free)" by (simp add: arch_chunks_def)
  moreover have "drop_chunk g c w = upd_chunk c (\<lambda>ch. ch\<lparr>c_type := 0\<rparr>) (world_remove g c w3)"
    by (simp add: drop_chunk_def w3_def w2_def Let_def)
  moreover have "dseg (chunks (upd_chunk c (\<lambda>ch. ch\<lparr>c_type := 0\<rparr>) (world_remove g c w3))) p h xs t n
      = dseg (chunks (world_remove g c w3)) p h xs t n" for p h xs t n
    by (rule dseg_cong) simp
  ultimately show ?thesis by (simp add: arch_chunks_def arch_list_def)
qed


lemma drop_chunk_frame:
  "c_count (chunks (drop_chunk g c w) x) = c_count (chunks w x)" "c_ct (chunks (drop_chunk g c w) x) = c_ct (chunks w x)"
  "c_type (chunks (drop_chunk g c w) x) = (if x = c then 0 else c_type (chunks w x))"
  "keeps_rows w (drop_chunk g c w) V" "bins (drop_chunk g c w) = bins w" "next_ptr (drop_chunk g c w) = next_ptr w"
  "chunkCapacity (archs (drop_chunk g c w) y) = chunkCapacity (archs w y)"
  "g_size (archs (drop_chunk g c w) g) = sub32 (g_size (archs w g)) (c_count (chunks w c))"
  "metaCount (archs (drop_chunk g c w) y) = metaCount (archs w y)" "bin_room (drop_chunk g c w) = bin_room w"
proof -
  define w2 where "w2 = upd_arch g (\<lambda>a. a\<lparr>g_size := sub32 (g_size a) (c_count (chunks (structural_change g c w) c)),
    chunkCount := u16 (chunkCount a + 2 ^ 16 - 1)\<rparr>) (structural_change g c w)"
  define w4 where "w4 = world_remove g c (if c = firstFree (archs w2 g) then upd_arch g (\<lambda>a. a\<lparr>firstFree := c_next (chunks w2 c)\<rparr>) w2 else w2)"
  have lf: "list_frame w2 w4" unfolding w4_def by (intro list_frame_remove list_frame_steps list_frame_refl arch_core_links)
  have d: "drop_chunk g c w = upd_chunk c (\<lambda>ch. ch\<lparr>c_type := 0\<rparr>) w4" by (simp add: drop_chunk_def w4_def w2_def Let_def)
  have core: "arch_core (archs w4 y) = arch_core (archs w2 y)" using lf by (simp add: list_frame_def)
  have meta: "metaCount (archs w4 y) = metaCount (archs w2 y)" using arg_cong [OF core, of metaCount] by (simp add: arch_core_def)
  have w2: "c_count (chunks w2 x) = c_count (chunks w x)" "c_ct (chunks w2 x) = c_ct (chunks w x)" "c_type (chunks w2 x) = c_type (chunks w x)"
    "c_ents (chunks w2 x) = c_ents (chunks w x)" "c_data (chunks w2 x) = c_data (chunks w x)" "ents w2 = ents w" "fresh_data w2 = fresh_data w"
    "bins w2 = bins w" "next_ptr w2 = next_ptr w" "bin_room w2 = bin_room w" "chunkCapacity (archs w2 y) = chunkCapacity (archs w y)" "metaCount (archs w2 y) = metaCount (archs w y)"
    "g_size (archs w2 g) = sub32 (g_size (archs w g)) (c_count (chunks w c))" for x y
    by (simp_all add: w2_def structural_change_simps) (simp_all add: structural_change_def Let_def)
  note v = list_frame_views [OF lf] list_frame_arch [OF lf]
  have "bin_room w4 = bin_room w2" using lf world_rest_fields [of w4 w2] by (simp add: list_frame_def)
  then show "c_count (chunks (drop_chunk g c w) x) = c_count (chunks w x)" "c_ct (chunks (drop_chunk g c w) x) = c_ct (chunks w x)"
    "c_type (chunks (drop_chunk g c w) x) = (if x = c then 0 else c_type (chunks w x))"
    "keeps_rows w (drop_chunk g c w) V" "bins (drop_chunk g c w) = bins w" "next_ptr (drop_chunk g c w) = next_ptr w"
    "chunkCapacity (archs (drop_chunk g c w) y) = chunkCapacity (archs w y)"
    "g_size (archs (drop_chunk g c w) g) = sub32 (g_size (archs w g)) (c_count (chunks w c))"
    "metaCount (archs (drop_chunk g c w) y) = metaCount (archs w y)" "bin_room (drop_chunk g c w) = bin_room w"
    using v w2 meta by (simp_all add: d keeps_rows_def)
qed

lemma shared_types_plain:
  assumes "metaCount (archs w g) = 0"
  shows "shared_types w g = Some []"
  using assms by (simp add: shared_types_def estimate_shared_size_def get_shared_type_def estimate_shared_loop.simps [of w g] shared_type_loop.simps [of w g])

lemma recycle_chunk_frame:
  "chunks (recycle_chunk c w) = chunks w" "archs (recycle_chunk c w) = archs w" "ents (recycle_chunk c w) = ents w"
  "fresh_data (recycle_chunk c w) = fresh_data w" "next_ptr (recycle_chunk c w) = next_ptr w"
  by (simp_all add: recycle_chunk_def context_free_def)

lemma recycle_chunk_mem:
  assumes "mem_ok w U" "c \<in> U"
  shows "mem_ok (recycle_chunk c w) (U - {c})"
  using assms unfolding recycle_chunk_def context_free_def mem_ok_def by auto

lemma destroy_chunk_ok:
  assumes ok: "pool_ok w g full free U L fl" and c: "c \<in> set (full @ free)" and rows: "\<forall>r. (c, r) \<notin> L"
    and meta: "metaCount (archs w g) = 0"
  shows "\<exists>w' full' free'. destroy_chunk g c w = Some w' \<and> pool_ok w' g full' free' (U - {c}) L fl \<and> set (full' @ free') = set (full @ free) - {c}
    \<and> keeps_rows w w' V \<and> g_size (archs w' g) = sub32 (g_size (archs w g)) (c_count (chunks w c))
    \<and> (\<forall>x. c_count (chunks w' x) = c_count (chunks w x))"
proof -
  define w1 where "w1 = drop_chunk g c w"
  note f = drop_chunk_frame [where g = g and c = c and w = w, folded w1_def]
  have ac: "arch_chunks w1 g (remove1 c full) (remove1 c free)"
    using drop_chunk_list [OF _ c] ok by (simp add: w1_def pool_ok_def)
  obtain w2 where w2: "remove_chunk g c w = Some w2" and same: "chunks w2 = chunks w1" "archs w2 = archs w1" "ents w2 = ents w1"
    "fresh_data w2 = fresh_data w1" "bins w2 = bins w1" "next_ptr w2 = next_ptr w1" "bin_room w2 = bin_room w1"
  proof (cases "firstChunk (archs w1 g) = 0")
    case True
    have "shared_types ((archetypes_erase k w1)\<lparr>arch_events := e\<rparr>) g = Some []" for k e
      by (rule shared_types_plain) (simp add: archetypes_erase_def f meta)
    then show thesis
      using that True by (simp add: remove_chunk_alt w1_def [symmetric] update_queries_def archetypes_erase_def Let_def)
  next
    case False
    then show thesis using that [of w1] by (simp add: remove_chunk_alt w1_def [symmetric] Let_def)
  qed
  let ?w' = "recycle_chunk c w2"
  have d: "distinct (full @ free)" using ok by (simp add: pool_ok_def arch_chunks_def arch_list_def)
  then have sets: "set (remove1 c full) = set full - {c}" "set (remove1 c free) = set free - {c}" by simp_all
  have kr: "keeps_rows w ?w' V" for V using f(4) [of V] by (simp add: keeps_rows_def recycle_chunk_frame same)
  have "pool_ok ?w' g (remove1 c full) (remove1 c free) (U - {c}) L fl"
    unfolding pool_ok_def
  proof (intro conjI)
    show "arch_chunks ?w' g (remove1 c full) (remove1 c free)"
      using ac by (simp add: arch_chunks_def arch_list_def recycle_chunk_frame same)
    show "\<forall>x \<in> set (remove1 c full). c_count (chunks ?w' x) = chunk_capacity ?w' g x"
      "\<forall>x \<in> set (remove1 c free). c_count (chunks ?w' x) < chunk_capacity ?w' g x"
      "\<forall>ct. 0 < chunkCapacity (archs ?w' g) ct \<and> chunkCapacity (archs ?w' g) ct < 2 ^ 24"
      using ok unfolding pool_ok_def chunk_capacity_def recycle_chunk_frame same f sets by auto
    show "\<forall>x \<in> set (remove1 c full @ remove1 c free). c_type (chunks ?w' x) = g"
      using ok unfolding pool_ok_def recycle_chunk_frame same f set_append sets by auto
    have "mem_ok w2 U = mem_ok w U" by (rule mem_ok_cong) (simp_all only: same f)
    then have "mem_ok w2 U" using ok by (simp add: pool_ok_def)
    moreover have "c \<in> U" using ok c by (auto simp: pool_ok_def)
    ultimately show "mem_ok ?w' (U - {c})" by (rule recycle_chunk_mem)
    show "set (remove1 c full @ remove1 c free) \<subseteq> U - {c}" using ok unfolding pool_ok_def set_append sets by auto
    have "fst ` L \<subseteq> U" "c \<notin> fst ` L" using ok rows by (auto simp: pool_ok_def)
    then show "fst ` L \<subseteq> U - {c}" by blast
    show "\<forall>(x, r) \<in> L. r < c_count (chunks ?w' x)" using ok unfolding recycle_chunk_frame same f pool_ok_def by simp
    show "tab_inv ?w' L fl" by (rule tab_inv_keeps [OF kr]) (use ok in \<open>auto simp: pool_ok_def\<close>)
  qed
  moreover have "destroy_chunk g c w = Some ?w'" by (simp add: destroy_chunk_def w2)
  moreover have "set (remove1 c full @ remove1 c free) = set (full @ free) - {c}" using sets by auto
  ultimately show ?thesis using kr f(8) f(1)
    by (intro exI [of _ ?w'] exI [of _ "remove1 c full"] exI [of _ "remove1 c free"]) (simp add: recycle_chunk_frame same)
qed


section \<open>Filling the gap\<close>

lemma cell_outside:
  assumes "columns_disjoint a ct" "k < firstTag a" "l < firstTag a" "b < sizes a ! k" "r < chunkCapacity a ct" "start + m \<le> chunkCapacity a ct"
    and "\<not> (l = k \<and> start \<le> r \<and> r < start + m)"
  shows "\<not> (col_addr a ct l start \<le> col_addr a ct k r + b \<and> col_addr a ct k r + b < col_addr a ct l start + sizes a ! l * m)"
proof (cases "l = k")
  case True
  then have "r < start \<or> start + m \<le> r" using assms(7) by auto
  then show ?thesis
  proof
    assume "r < start"
    then have "sizes a ! k * Suc r \<le> sizes a ! k * start" by (intro mult_le_mono2) simp
    then show ?thesis using True assms(4) by (simp add: col_addr_def)
  next
    assume "start + m \<le> r"
    then have "sizes a ! k * (start + m) \<le> sizes a ! k * r" by (intro mult_le_mono2)
    then show ?thesis using True by (simp add: col_addr_def distrib_left)
  qed
next
  case False
  then show ?thesis
    using cells_disjoint [OF assms(1-3), of r 1 start m "col_addr a ct k r + b"] assms(4-6) by simp
qed

lemma slice_rows_times: "slice_rows s 0 n = {sl_c s} \<times> {sl_start s..<sl_start s + n}"
proof -
  have "slice_rows s 0 n = Pair (sl_c s) ` ((+) (sl_start s) ` {0..<n})" by (simp only: slice_rows_def image_image)
  also have "(+) (sl_start s) ` {0..<n} = {sl_start s..<sl_start s + n}" by (simp add: add.commute)
  finally show ?thesis by auto
qed

lemma rows_left:
  assumes "st + n \<le> (cnt::nat)" "m = min n (cnt - st - n)"
  shows "r < cnt - n \<longleftrightarrow> r < cnt \<and> \<not> (st \<le> r \<and> r < st + n) \<and> \<not> (cnt - m \<le> r \<and> r < cnt) \<or> st \<le> r \<and> r < st + m"
proof -
  obtain b where b: "cnt = st + n + b" using assms(1) le_Suc_ex by blast
  show ?thesis
  proof (cases "n \<le> b")
    case True
    then have "m = n" "cnt - m = st + b" "cnt - n = st + b" using assms(2) b by simp_all
    then show ?thesis using b True by auto
  next
    case False
    then have "m = b" "cnt - m = st + n" "cnt - n = st + b" using assms(2) b by simp_all
    then show ?thesis using b False by auto
  qed
qed

text \<open>Row \<open>r\<close> of a chunk of \<open>cnt\<close> rows, from which \<open>n\<close> rows at \<open>start\<close> are removed, holds the entity that
  was at \<open>old_row\<close>.\<close>

definition old_row :: "nat \<Rightarrow> nat \<Rightarrow> nat \<Rightarrow> nat \<Rightarrow> nat" where
  "old_row cnt start n r = (let m = min n (cnt - start - n) in if start \<le> r \<and> r < start + m then cnt - m + (r - start) else r)"

definition fill_gap :: "chunk_slice \<Rightarrow> world \<Rightarrow> world" where
  "fill_gap s w =
     (let cnt = c_count (chunks w (sl_c s));
          toMoveCount = min (sl_count s) (sub32 (sub32 cnt (sl_start s)) (sl_count s));
          moveSlice = \<lparr>sl_c = sl_c s, sl_start = sl_start s, sl_count = toMoveCount\<rparr>
      in if toMoveCount > 0
         then fill_entities moveSlice (sub32 cnt toMoveCount) (chunk_move_within moveSlice (sub32 cnt toMoveCount) w)
         else w)"

definition take_off :: "ptr \<Rightarrow> ptr \<Rightarrow> nat \<Rightarrow> world \<Rightarrow> world" where
  "take_off g c n w = upd_arch g (\<lambda>a. a\<lparr>g_size := sub32 (g_size a) n\<rparr>) (structural_change g c w)"

lemma free_slice_alt:
  "free_slice s w = (let w3 = fill_gap s (take_off (c_type (chunks w (sl_c s))) (sl_c s) (sl_count s) w)
     in resize_chunk (sl_c s) (sub32 (c_count (chunks w3 (sl_c s))) (sl_count s)) w3)"
  by (simp add: free_slice_def fill_gap_def take_off_def Let_def)

text \<open>The bytes of the rows after the last \<open>m\<close> of \<open>cnt\<close> rows have been moved to \<open>sl_start ms\<close>.\<close>

lemma gap_bytes:
  assumes c: "c = sl_c ms" "m = sl_count ms" "0 < m" "sl_start ms + m \<le> cnt - m" "m \<le> cnt" "cnt \<le> 2 ^ 16"
    and lay: "a = chunk_arch w c" "columns_disjoint a (c_ct (chunks w c))" "cnt \<le> chunkCapacity a (c_ct (chunks w c))"
    and w1: "w1 = chunk_move_within ms (cnt - m) w" and k: "k < firstTag a" "b < sizes a ! k" "r < cnt"
  shows "row_byte w1 c k r b = row_byte w c k (if sl_start ms \<le> r \<and> r < sl_start ms + m then cnt - m + (r - sl_start ms) else r) b"
proof -
  obtain f where f: "w1 = on_mem c f w" using chunk_move_within_on_mem [of ms "cnt - m" w] by (auto simp: w1 c(1))
  have lt: "cnt - m < 65536" using c(3,5,6) by simp
  have B: "(\<forall>k r b. k < firstTag a \<and> r < m \<and> b < sizes a ! k \<longrightarrow> row_byte w1 c k (sl_start ms + r) b = row_byte w c k (cnt - m + r) b)
    \<and> (\<forall>x. (\<forall>k < firstTag a. \<not> (cell_addr w c k (sl_start ms) \<le> x \<and> x < cell_addr w c k (sl_start ms) + sizes a ! k * m)) \<longrightarrow> bytes_of w1 c x = bytes_of w c x)"
    using move_within_bytes [OF c(1) lay(1,2) c(2), of "cnt - m" w1] c(3-6) lay(3) lt by (simp add: w1)
  show ?thesis
  proof (cases "sl_start ms \<le> r \<and> r < sl_start ms + m")
    case True
    then have "r - sl_start ms < m" by linarith
    then show ?thesis using B [THEN conjunct1, rule_format, of k "r - sl_start ms" b] k True by simp
  next
    case False
    have "\<forall>l < firstTag a. \<not> (cell_addr w c l (sl_start ms) \<le> cell_addr w c k r + b
        \<and> cell_addr w c k r + b < cell_addr w c l (sl_start ms) + sizes a ! l * m)"
      using cell_outside [OF lay(2) k(1) _ k(2), of _ r "sl_start ms" m] False k(3) lay c(4,5) by (auto simp: cell_addr_def)
    then show ?thesis using B False by (simp add: row_byte_def f if_not_P cell_addr_def)
  qed
qed

lemma fill_gap_ok:
  assumes inv: "tab_inv w L fl" and c: "c = sl_c s" "cnt = c_count (chunks w c)" "sl_start s + sl_count s \<le> cnt" "cnt \<le> 2 ^ 16"
    and rows: "\<forall>r. (c, r) \<in> L \<longleftrightarrow> r < cnt \<and> \<not> (sl_start s \<le> r \<and> r < sl_start s + sl_count s)"
    and lay: "a = chunk_arch w c" "columns_disjoint a (c_ct (chunks w c))" "cnt \<le> chunkCapacity a (c_ct (chunks w c))"
  shows "same_shape w (fill_gap s w) \<and> archs (fill_gap s w) = archs w
    \<and> tab_inv (fill_gap s w) ({(d, r) \<in> L. d \<noteq> c} \<union> {c} \<times> {..<cnt - sl_count s}) fl
    \<and> (\<forall>r < cnt - sl_count s. row_of (fill_gap s w) c r = row_of w c (old_row cnt (sl_start s) (sl_count s) r)
        \<and> (\<forall>k < firstTag a. \<forall>b < sizes a ! k. row_byte (fill_gap s w) c k r b = row_byte w c k (old_row cnt (sl_start s) (sl_count s) r) b))
    \<and> (\<forall>d. d \<noteq> c \<longrightarrow> c_ents (chunks (fill_gap s w) d) = c_ents (chunks w d) \<and> c_data (chunks (fill_gap s w) d) = c_data (chunks w d))"
proof -
  let ?n = "sl_count s" and ?st = "sl_start s"
  define m where "m = min ?n (cnt - ?st - ?n)"
  define ms where "ms = \<lparr>sl_c = c, sl_start = ?st, sl_count = m\<rparr>"
  have "sub32 (sub32 cnt ?st) ?n = cnt - ?st - ?n" using c(3,4) by (simp add: wrap_simps)
  then have sub: "min ?n (sub32 (sub32 cnt ?st) ?n) = m" "sub32 cnt m = cnt - m"
    using c(3,4) by (simp_all add: m_def wrap_simps)
  have gap: "fill_gap s w = (if 0 < m then fill_entities ms (cnt - m) (chunk_move_within ms (cnt - m) w) else w)"
    by (simp only: fill_gap_def c(1,2) [symmetric] sub ms_def Let_def)
  have old: "old_row cnt ?st ?n r = (if ?st \<le> r \<and> r < ?st + m then cnt - m + (r - ?st) else r)" for r
    unfolding old_row_def m_def Let_def by (rule refl)
  show ?thesis
  proof (cases "m = 0")
    case True
    then have "fill_gap s w = w" by (simp add: gap)
    moreover have "old_row cnt ?st ?n r = r" for r using True by (simp add: old)
    moreover have "r < cnt - ?n \<longleftrightarrow> r < cnt \<and> \<not> (?st \<le> r \<and> r < ?st + ?n)" for r
      using rows_left [OF c(3) m_def, of r] True by auto
    then have "(d, r) \<in> {(d, r) \<in> L. d \<noteq> c} \<union> {c} \<times> {..<cnt - ?n} \<longleftrightarrow> (d, r) \<in> L" for d r
      using spec [OF rows, of r] by (cases "d = c") auto
    then have "{(d, r) \<in> L. d \<noteq> c} \<union> {c} \<times> {..<cnt - ?n} = L" by (simp only: set_eq_iff split_paired_all) simp
    ultimately show ?thesis using inv by simp
  next
    case False
    have m: "m \<le> ?n" "?st + ?n \<le> cnt - m" "m \<le> cnt" using False by (auto simp: m_def)
    have new: "r < cnt - ?n \<Longrightarrow> \<not> (?st \<le> r \<and> r < ?st + m) \<Longrightarrow> r < ?st \<or> ?st + ?n \<le> r" for r using c(3) by (auto simp: m_def)
    define w1 where "w1 = chunk_move_within ms (cnt - m) w"
    obtain f where f: "w1 = on_mem c f w" using chunk_move_within_on_mem [of ms "cnt - m" w] by (auto simp: w1_def ms_def)
    have v: "row_of w1 = row_of w" "ents w1 = ents w" "fresh_data w1 = fresh_data w" "same_shape w w1" "archs w1 = archs w"
      "c_ents (chunks w1 d) = c_ents (chunks w d)" "d \<noteq> c \<Longrightarrow> c_data (chunks w1 d) = c_data (chunks w d)" for d
      by (auto simp: f on_mem_def row_of_def [abs_def] same_shape_def)
    have inv1: "tab_inv w1 L fl" by (rule tab_inv_cong [OF v(2,3) _ inv]) (simp add: v(1))
    have sets: "slice_rows \<lparr>sl_c = c, sl_start = cnt - m, sl_count = 0\<rparr> 0 (sl_count ms) = {c} \<times> {cnt - m..<cnt}"
      "slice_rows ms 0 (sl_count ms) = {c} \<times> {?st..<?st + m}"
      using m(3) by (simp_all add: slice_rows_times ms_def)
    have "(c, r) \<in> L" if "cnt - m \<le> r" "r < cnt" for r using spec [OF rows, of r] that m(2) by simp
    moreover have "(c, r) \<notin> L" if "?st \<le> r" "r < ?st + m" for r using spec [OF rows, of r] that m(1) by simp
    ultimately have src: "{c} \<times> {cnt - m..<cnt} \<subseteq> L" and dst: "{c} \<times> {?st..<?st + m} \<inter> L = {}" by auto
    define w2 where "w2 = move_entities ms c (cnt - m) w1"
    have w2: "fill_gap s w = w2"
      using False fill_entities_is_move [OF inv1, of ms "cnt - m"] src sets(1) by (simp add: gap w1_def w2_def ms_def)
    have T: "tab_inv w2 (L - {c} \<times> {cnt - m..<cnt} \<union> {c} \<times> {?st..<?st + m}) fl"
      "\<forall>i < m. row_of w2 c (?st + i) = row_of w1 c (cnt - m + i)"
      "\<forall>d r. (d, r) \<notin> {c} \<times> {?st..<?st + m} \<longrightarrow> row_of w2 d r = row_of w1 d r"
      using move_entities_table [OF inv1, of c "cnt - m" ms w2] src dst c(3,4) m sets by (simp_all add: w2_def ms_def)
    have "(d, r) \<in> L - {c} \<times> {cnt - m..<cnt} \<union> {c} \<times> {?st..<?st + m} \<longleftrightarrow> (d, r) \<in> {(d, r) \<in> L. d \<noteq> c} \<union> {c} \<times> {..<cnt - ?n}" for d r
      using spec [OF rows, of r] rows_left [OF c(3) m_def, of r] by (cases "d = c") auto
    then have "L - {c} \<times> {cnt - m..<cnt} \<union> {c} \<times> {?st..<?st + m} = {(d, r) \<in> L. d \<noteq> c} \<union> {c} \<times> {..<cnt - ?n}"
      by (simp only: set_eq_iff split_paired_all) simp
    then have inv2: "tab_inv w2 ({(d, r) \<in> L. d \<noteq> c} \<union> {c} \<times> {..<cnt - ?n}) fl" using T(1) by simp
    have rowsT: "row_of w2 c r = row_of w c (old_row cnt ?st ?n r)" if "r < cnt - ?n" for r
    proof (cases "?st \<le> r \<and> r < ?st + m")
      case True
      then have "r - ?st < m" by linarith
      then show ?thesis using T(2) [rule_format, of "r - ?st"] True by (simp add: old v(1))
    next
      case False
      then show ?thesis using T(3) by (simp add: old v(1) if_not_P)
    qed
    have frame: "table_frame w1 w2" unfolding w2_def by (rule table_frame_move_entities)
    then have shape: "same_shape w w2" "archs w2 = archs w" "c_data (chunks w2 d) = c_data (chunks w1 d)" for d
      using same_shape_trans [OF v(4)] v(5) by (simp_all add: table_frame_def)
    have "row_byte w2 c k r b = row_byte w1 c k r b" for k r b
      using frame by (simp add: row_byte_def bytes_of_def cell_addr_def chunk_arch_def table_frame_def same_shape_def)
    moreover have "row_byte w1 c k r b = row_byte w c k (if ?st \<le> r \<and> r < ?st + m then cnt - m + (r - ?st) else r) b"
      if "r < cnt - ?n" "k < firstTag a" "b < sizes a ! k" for r k b
    proof -
      have ms: "c = sl_c ms" "m = sl_count ms" "sl_start ms = ?st" by (simp_all add: ms_def)
      have "0 < m" "sl_start ms + m \<le> cnt - m" "r < cnt" using False m that(1) by (simp_all add: ms(3))
      from gap_bytes [OF ms(1,2) this(1,2) m(3) c(4) lay w1_def that(2,3) this(3)] show ?thesis by (simp only: ms(3))
    qed
    ultimately have bytesT: "row_byte w2 c k r b = row_byte w c k (old_row cnt ?st ?n r) b" if "r < cnt - ?n" "k < firstTag a" "b < sizes a ! k" for r k b
      using that by (simp only: old)
    have other: "c_ents (chunks w2 d) = c_ents (chunks w d)" if "d \<noteq> c" for d
      using that by (simp add: fun_eq_iff row_of_def [symmetric] T(3) v(1))
    show ?thesis unfolding w2 using shape inv2 rowsT bytesT other v(7) by simp
  qed
qed


lemma entity_exist_gap: "entity_exist (fill_gap s w) = entity_exist w"
proof -
  have "entity_exist (chunk_move_within ms i w) = entity_exist w" for ms i
    using chunk_move_within_on_mem [of ms i w] by (auto intro!: entity_exist_cong)
  then show ?thesis by (simp add: fill_gap_def Let_def entity_exist_fill)
qed

section \<open>free\_slice\<close>

lemma arch_core_views:
  assumes "arch_core a' = arch_core a"
  shows "col_addr a' = col_addr a" "sizes a' = sizes a" "firstTag a' = firstTag a" "g_size a' = g_size a"
proof -
  show s: "sizes a' = sizes a" "firstTag a' = firstTag a" "g_size a' = g_size a"
    using arg_cong [OF assms, of sizes] arg_cong [OF assms, of firstTag] arg_cong [OF assms, of g_size] by (simp_all add: arch_core_def)
  have "offsets a' = offsets a" using arg_cong [OF assms, of offsets] by (simp add: arch_core_def)
  then show "col_addr a' = col_addr a" using s by (simp add: fun_eq_iff col_addr_def)
qed

lemma take_off_frame:
  "same_shape w (take_off g c n w)" "keeps_rows w (take_off g c n w) V" "g_size (archs (take_off g c n w) g) = sub32 (g_size (archs w g)) n"
  "metaCount (archs (take_off g c n w) g) = metaCount (archs w g)" "col_addr (archs (take_off g c n w) g) = col_addr (archs w g)"
  "sizes (archs (take_off g c n w) g) = sizes (archs w g)" "firstTag (archs (take_off g c n w) g) = firstTag (archs w g)"
  "columns_disjoint (archs (take_off g c n w) g) ct = columns_disjoint (archs w g) ct"
  using structural_change_shape [of w g c]
  by (auto simp: take_off_def same_shape_def keeps_rows_def structural_change_def Let_def fun_eq_iff col_addr_def columns_disjoint_def)

text \<open>The rows of \<open>s\<close> are dead, those behind and before it in the chunk are alive.\<close>

lemma free_slice_ok:
  assumes ok: "pool_ok w g full free U L fl" and c: "c = sl_c s" "c \<in> set (full @ free)" "cnt = c_count (chunks w c)"
    and n: "n = sl_count s" "0 < n" "sl_start s + n \<le> cnt" "cnt \<le> 2 ^ 16"
    and rows: "\<forall>r. (c, r) \<in> L \<longleftrightarrow> r < cnt \<and> \<not> (sl_start s \<le> r \<and> r < sl_start s + n)"
    and lay: "a = archs w g" "columns_disjoint a (c_ct (chunks w c))" "metaCount a = 0"
  shows "\<exists>w' full' free' U'. free_slice s w = Some w'
    \<and> pool_ok w' g full' free' U' ({(d, r) \<in> L. d \<noteq> c} \<union> {c} \<times> {..<cnt - n}) fl
    \<and> set (full' @ free') = (if n < cnt then set (full @ free) else set (full @ free) - {c})
    \<and> (\<forall>r < cnt - n. row_of w' c r = row_of w c (old_row cnt (sl_start s) n r)
        \<and> (\<forall>k < firstTag a. \<forall>b < sizes a ! k. row_byte w' c k r b = row_byte w c k (old_row cnt (sl_start s) n r) b))
    \<and> (\<forall>d. d \<noteq> c \<longrightarrow> c_ents (chunks w' d) = c_ents (chunks w d) \<and> c_data (chunks w' d) = c_data (chunks w d))
    \<and> g_size (archs w' g) = (if n < cnt then sub32 (g_size a) n else sub32 (sub32 (g_size a) n) n)
    \<and> entity_exist w' = entity_exist w \<and> U - {c} \<subseteq> U'"
proof -
  let ?L = "{(d, r) \<in> L. d \<noteq> c} \<union> {c} \<times> {..<cnt - n}"
  define w1 where "w1 = take_off g c n w"
  define w2 where "w2 = fill_gap s w1"
  note t = take_off_frame [where w = w and g = g and c = c and n = n, folded w1_def]
  have type: "c_type (chunks w c) = g" and caps: "cnt \<le> chunkCapacity a (c_ct (chunks w c))" and mem: "tab_inv w L fl" "fst ` L \<subseteq> U"
    and pos: "\<forall>(d, r) \<in> L. r < c_count (chunks w d)"
    using ok c pool_ok_split [OF ok c(2)] by (auto simp: pool_ok_def chunk_capacity_def lay(1))
  note sh1 = same_shape_views [OF t(1)]
  have inv1: "tab_inv w1 L fl" by (rule tab_inv_keeps [OF t(2) mem(2,1)])
  have view1: "row_of w1 = row_of w" "row_byte w1 c k r b = row_byte w c k r b"
    "c_ents (chunks w1 d) = c_ents (chunks w d)" "c_data (chunks w1 d) = c_data (chunks w d)" for k r b d
    using t(2) [of UNIV] sh1 t(5) type
    by (simp_all add: keeps_rows_def row_of_def [abs_def] row_byte_def bytes_of_def cell_addr_def chunk_arch_def)
  have G: "same_shape w1 w2 \<and> archs w2 = archs w1 \<and> tab_inv w2 ?L fl
    \<and> (\<forall>r < cnt - n. row_of w2 c r = row_of w1 c (old_row cnt (sl_start s) n r)
        \<and> (\<forall>k < firstTag (archs w1 g). \<forall>b < sizes (archs w1 g) ! k. row_byte w2 c k r b = row_byte w1 c k (old_row cnt (sl_start s) n r) b))
    \<and> (\<forall>d. d \<noteq> c \<longrightarrow> c_ents (chunks w2 d) = c_ents (chunks w1 d) \<and> c_data (chunks w2 d) = c_data (chunks w1 d))"
    unfolding w2_def n(1)
    by (rule fill_gap_ok [OF inv1 c(1)]) (use n c(3) rows lay caps sh1 t type in \<open>simp_all add: chunk_arch_def same_shape_def\<close>)
  note sh2 = same_shape_views [OF G [THEN conjunct1]]
  have ok2: "pool_ok w2 g full free U ?L fl"
  proof (rule pool_ok_shape [OF same_shape_trans [OF t(1) G [THEN conjunct1]] ok])
    show "fst ` ?L \<subseteq> U" using mem(2) c(2) ok by (auto simp: pool_ok_def)
    show "\<forall>(d, r) \<in> ?L. r < c_count (chunks w d)" using pos c(3) by auto
  qed (use G in blast)
  have cnt2: "c_count (chunks w2 c) = cnt" "sub32 cnt n = cnt - n" using sh1 sh2 c(3) n by (simp_all add: wrap_simps)
  have free: "free_slice s w = resize_chunk c (cnt - n) w2"
    using cnt2 type by (simp add: free_slice_alt c(1) [symmetric] n(1) [symmetric] w1_def [symmetric] w2_def [symmetric] Let_def)
  have exist: "entity_exist w' = entity_exist w" if "keeps_rows w2 w' UNIV" for w'
    using that t(2) [of UNIV] entity_exist_cong [of w' w2] entity_exist_cong [of w1 w] entity_exist_gap [of s w1]
    by (simp add: keeps_rows_def w2_def)
  have kept: "row_of w' d = row_of w2 d \<and> c_ents (chunks w' d) = c_ents (chunks w2 d) \<and> c_data (chunks w' d) = c_data (chunks w2 d)"
    if "keeps_rows w2 w' UNIV" for w' d
    using that by (simp add: keeps_rows_def row_of_def [abs_def])
  show ?thesis
  proof (cases "n < cnt")
    case True
    obtain w' full' free' where r: "resize_chunk c (cnt - n) w2 = Some w'" "pool_ok w' g full' free' U ?L fl"
      "set (full' @ free') = set (full @ free)" "keeps_rows w2 w' UNIV" "arch_core (archs w' g) = arch_core (archs w2 g)"
      "\<forall>x. c_ct (chunks w' x) = c_ct (chunks w2 x)"
      using resize_chunk_shrinks [OF ok2 c(2), of "cnt - n" UNIV] True n(2) cnt2(1) by auto
    have "c_type (chunks w' c) = g" using r(2,3) c(2) by (auto simp: pool_ok_def)
    then have bytes: "row_byte w' c k r b = row_byte w2 c k r b" for k r b
      using kept [OF r(4)] r(6) arch_core_views(1) [OF r(5)] sh1 sh2 type
      by (simp add: row_byte_def bytes_of_def cell_addr_def chunk_arch_def)
    have "g_size (archs w' g) = sub32 (g_size a) n" using arch_core_views(4) [OF r(5)] G t(3) lay(1) by simp
    then show ?thesis
      using True r(1-3) free bytes kept [OF r(4)] exist [OF r(4)] G view1 t(6,7) lay(1)
      by (intro exI [of _ w'] exI [of _ full'] exI [of _ free'] exI [of _ U]) simp
  next
    case False
    then have all: "n = cnt" using n(3) by simp
    have meta: "metaCount (archs w2 g) = 0" using G t(4) lay(1,3) by simp
    have none: "\<forall>r. (c, r) \<notin> ?L" using all by simp
    obtain w' full' free' where r: "destroy_chunk g c w2 = Some w'" "pool_ok w' g full' free' (U - {c}) ?L fl"
      "set (full' @ free') = set (full @ free) - {c}" "keeps_rows w2 w' UNIV" "g_size (archs w' g) = sub32 (g_size (archs w2 g)) (c_count (chunks w2 c))"
      using destroy_chunk_ok [OF ok2 c(2) none meta] by blast
    have "resize_chunk c (cnt - n) w2 = Some w'" using r(1) all sh1 sh2 type by (simp add: resize_chunk_def)
    moreover have "g_size (archs w' g) = sub32 (sub32 (g_size a) n) n" using r(5) G t(3) cnt2(1) all lay(1) by simp
    ultimately show ?thesis
      using all r(2,3) free kept [OF r(4)] exist [OF r(4)] G view1
      by (intro exI [of _ w'] exI [of _ full'] exI [of _ free'] exI [of _ "U - {c}"]) simp
  qed
qed


section \<open>destroy\<close>

lemma destroy_plain:
  assumes "c_type (chunks w (sl_c s)) = g" "\<not> cleaning (archs w g)" "\<not> withTracked (archs w g)"
  shows "destroy_single s w = free_slice s (free_entities s w)"
  using assms by (simp add: destroy_single_def get_cleaning_def Let_def)



text \<open>Two entities in chunk 2 of an archetype with one component of 8 bytes.\<close>

definition duo_world :: world where
  "duo_world = (let w = blank_memory padded_ctx in
     w\<lparr>ents := \<lparr>datas = [\<lparr>ed_u = 0, ed_i = 0, ed_v = 0\<rparr>, \<lparr>ed_u = 2, ed_i = 0, ed_v = 3\<rparr>, \<lparr>ed_u = 2, ed_i = 1, ed_v = 4\<rparr>], free_head = 0\<rparr>,
       next_ptr := 3,
       chunks := (\<lambda>_. zero_chunk)(2 := zero_chunk\<lparr>c_type := 9, c_count := 2, c_ents := (\<lambda>k. if k = 0 then mk_handle 1 3 else mk_handle 2 4),
         c_data := (\<lambda>x. of_nat x)\<rparr>),
       archs := (\<lambda>_. zero_archetype)(9 := zero_archetype\<lparr>firstChunk := 2, lastChunk := 2, firstFree := 2, componentCount := 1, firstTag := 1,
         firstManaged := 1, firstBuffer := 1, chunkCapacity := (\<lambda>_. 4), g_size := 2, g_types := [5], offsets := (\<lambda>_ _. 16), sizes := [8]\<rparr>)\<rparr>)"

lemma duo_rows: "row_of duo_world 2 0 = mk_handle 1 3" "row_of duo_world 2 (Suc 0) = mk_handle 2 4"
  by (simp_all add: duo_world_def Let_def row_of_def)

lemma duo_pool: "pool_ok duo_world 9 [] [2] {2} {(2, 0), (2, Suc 0)} []"
  unfolding pool_ok_def
proof (intro conjI)
  show "tab_inv duo_world {(2, 0), (2, Suc 0)} []"
    by (simp add: tab_inv_def located_def duo_rows Let_def) (simp add: duo_world_def entity_exist_def data_of_def blank_memory_def ed_c_def)
qed (simp_all add: duo_world_def blank_memory_def Let_def arch_chunks_def arch_list_def mem_ok_def chunk_capacity_def zero_chunk_def)


end
