(* ===== verification/Casting.thy ===== *)
theory Casting
  imports Release Chunk_Cast
begin

text \<open>
  The cast of rows from one archetype to another (\<open>world::cast\<close>): rows are allocated in the
  destination, \<open>chunk::cast\<close> carries the components over, \<open>move_entities\<close> the entities, and
  \<open>free_slice\<close> closes the gap in the source.  \<open>off_list\<close> says that an operation on the chunks of one
  archetype leaves the lists of the others alone, so that both archetypes keep their invariant.
\<close>

section \<open>Operations on one chunk list leave the others alone\<close>

definition touches :: "world \<Rightarrow> world \<Rightarrow> ptr set \<Rightarrow> bool" where
  "touches w w' S \<longleftrightarrow> (\<forall>x. x \<notin> S \<longrightarrow> c_next (chunks w' x) = c_next (chunks w x) \<and> c_prev (chunks w' x) = c_prev (chunks w x))"

lemma touches_trans: "touches u v S \<Longrightarrow> touches v w S \<Longrightarrow> touches u w S"
  by (simp add: touches_def)

lemma touches_mono: "touches u v S \<Longrightarrow> S \<subseteq> T \<Longrightarrow> touches u v T"
  by (auto simp: touches_def)

lemma touches_refl [simp]: "touches w w S"
  by (simp add: touches_def)

lemma touches_arch [simp]: "touches w (upd_arch g f v) S = touches w v S" "touches (upd_arch g f v) w S = touches v w S"
  by (simp_all add: touches_def)

lemma link_touches:
  assumes "t \<in> S" "c \<in> S" "c_next (chunks w t) \<in> insert 0 S"
  shows "touches w (chunk_link t c w) S"
  using assms by (auto simp: touches_def chunk_link_def Let_def)

lemma list_neighbours:
  assumes "arch_list w g xs" "c \<in> set xs"
  shows "c_next (chunks w c) \<in> insert 0 (set xs)" "c_prev (chunks w c) \<in> insert 0 (set xs)" "c \<noteq> 0"
proof -
  obtain ys zs where xs: "xs = ys @ c # zs" using assms(2) split_list by fastforce
  note l = arch_list_links [OF assms(1) [unfolded xs]]
  show "c_next (chunks w c) \<in> insert 0 (set xs)" using l(2) by (cases zs) (simp_all add: xs)
  show "c_prev (chunks w c) \<in> insert 0 (set xs)" using l(1) by (cases ys rule: rev_cases) (simp_all add: xs)
  show "c \<noteq> 0" by (rule l(3))
qed

lemma list_ends:
  assumes "arch_list w g xs"
  shows "xs \<noteq> [] \<Longrightarrow> firstChunk (archs w g) \<in> set xs \<and> lastChunk (archs w g) \<in> set xs \<and> c_next (chunks w (lastChunk (archs w g))) = 0"
    "firstChunk (archs w g) \<noteq> 0 \<longleftrightarrow> xs \<noteq> []" "lastChunk (archs w g) \<noteq> 0 \<longleftrightarrow> xs \<noteq> []"
proof -
  have seg: "dseg (chunks w) 0 (firstChunk (archs w g)) xs (lastChunk (archs w g)) 0" using assms by (simp add: arch_list_def)
  show "xs \<noteq> [] \<Longrightarrow> firstChunk (archs w g) \<in> set xs \<and> lastChunk (archs w g) \<in> set xs \<and> c_next (chunks w (lastChunk (archs w g))) = 0"
    using dseg_last [OF seg] last_in_set [of xs] hd_in_set [of xs] by auto
  then show "firstChunk (archs w g) \<noteq> 0 \<longleftrightarrow> xs \<noteq> []" "lastChunk (archs w g) \<noteq> 0 \<longleftrightarrow> xs \<noteq> []"
    using seg dseg_nonzero [OF seg] by auto
qed

lemma remove_touches:
  assumes "arch_list w g xs" "c \<in> set xs"
  shows "touches w (world_remove g c w) (set xs)" "y \<noteq> g \<Longrightarrow> archs (world_remove g c w) y = archs w y"
proof -
  have "touches v (chunk_unlink c v) (set xs)" if "chunks v = chunks w" for v
    using list_neighbours [OF assms] assms(2) that by (auto simp: touches_def chunk_unlink_def Let_def)
  then show "touches w (world_remove g c w) (set xs)" by (auto simp: world_remove_def Let_def touches_def)
  show "y \<noteq> g \<Longrightarrow> archs (world_remove g c w) y = archs w y" by (simp add: world_remove_def Let_def)
qed

lemma removed_list:
  assumes "arch_list w g xs" "c \<in> set xs"
  obtains zs where "arch_list (world_remove g c w) g zs" "set zs = set xs - {c}"
proof -
  obtain ys zs where xs: "xs = ys @ c # zs" using assms(2) split_list by fastforce
  have "distinct xs" using assms(1) by (simp add: arch_list_def)
  then show thesis using that [of "ys @ zs"] world_remove_list(1) [OF assms(1) [unfolded xs]] by (auto simp: xs)
qed

lemma mark_free_touches:
  assumes "arch_list w g xs" "c \<in> set xs"
  shows "touches w (mark_free g c w) (set xs)" "y \<noteq> g \<Longrightarrow> archs (mark_free g c w) y = archs w y"
proof -
  define w1 where "w1 = world_remove g c w"
  obtain zs where zs: "arch_list w1 g zs" "set zs = set xs - {c}" using removed_list [OF assms] by (auto simp: w1_def)
  have t: "touches w w1 (set xs)" unfolding w1_def by (rule remove_touches [OF assms])
  have "touches w1 (if lastChunk (archs w1 g) \<noteq> 0 then chunk_link (lastChunk (archs w1 g)) c w1 else w1) (set xs)"
    using list_ends [OF zs(1)] zs(2) assms(2) link_touches [of "lastChunk (archs w1 g)" "set xs" c w1] by auto
  then show "touches w (mark_free g c w) (set xs)"
    using touches_trans [OF t] by (auto simp: mark_free_def Let_def w1_def [symmetric] split: if_splits)
  show "y \<noteq> g \<Longrightarrow> archs (mark_free g c w) y = archs w y" using remove_touches(2) [OF assms] by (simp add: mark_free_def Let_def)
qed

lemma unmark_free_touches:
  assumes "arch_list w g xs" "c \<in> set xs"
  shows "touches w (unmark_free g c w) (set xs)" "y \<noteq> g \<Longrightarrow> archs (unmark_free g c w) y = archs w y"
proof -
  define w1 where "w1 = world_remove g c w"
  define w2 where "w2 = upd_chunk c (\<lambda>ch. ch\<lparr>c_next := c_next (chunks w1 (firstChunk (archs w1 g)))\<rparr>) w1"
  obtain zs where zs: "arch_list w1 g zs" "set zs = set xs - {c}" using removed_list [OF assms] by (auto simp: w1_def)
  have t: "touches w w1 (set xs)" unfolding w1_def by (rule remove_touches [OF assms])
  have "touches w1 (if firstChunk (archs w1 g) \<noteq> 0 then chunk_link c (firstChunk (archs w1 g)) w2 else w1) (set xs)"
  proof (cases "zs = []")
    case False
    then have f: "firstChunk (archs w1 g) \<in> set zs" using list_ends [OF zs(1)] by blast
    have "touches w2 (chunk_link c (firstChunk (archs w1 g)) w2) (set xs)"
      using list_neighbours(1) [OF zs(1) f] f zs(2) assms(2) by (intro link_touches) (auto simp: w2_def)
    moreover have "touches w1 w2 (set xs)" using assms(2) by (auto simp: touches_def w2_def)
    ultimately show ?thesis using touches_trans by auto
  qed (use list_ends [OF zs(1)] in auto)
  from touches_trans [OF t this] show "touches w (unmark_free g c w) (set xs)"
    by (auto simp: unmark_free_def Let_def w1_def [symmetric] w2_def [symmetric] split: if_splits)
  show "y \<noteq> g \<Longrightarrow> archs (unmark_free g c w) y = archs w y" using remove_touches(2) [OF assms] by (simp add: unmark_free_def Let_def)
qed

lemma add_chunk_touches:
  assumes "arch_list w g xs" "c \<notin> set xs"
  shows "touches w (add_chunk g c w) (insert c (set xs))" "y \<noteq> g \<Longrightarrow> archs (add_chunk g c w) y = archs w y"
proof -
  define w3 where "w3 = add_chunk_prep g c w"
  have t: "touches w w3 (insert c (set xs))" by (simp add: touches_def w3_def add_chunk_prep_simps)
  have list: "arch_list w3 g xs" using assms(1) by (simp add: w3_def arch_list_def prep_facts)
  have "touches w3 (chunk_link (lastChunk (archs w3 g)) c w3) (insert c (set xs))"
    "touches w3 (chunk_link (firstChunk (archs w3 g)) c w3) (insert c (set xs))" if "firstChunk (archs w3 g) \<noteq> 0"
    using that list_ends [OF list] list_neighbours(1) [OF list, of "firstChunk (archs w3 g)"] by (auto intro!: link_touches)
  then show "touches w (add_chunk g c w) (insert c (set xs))"
    using t touches_trans [OF t] by (simp add: add_chunk_alt Let_def w3_def [symmetric])
  show "y \<noteq> g \<Longrightarrow> archs (add_chunk g c w) y = archs w y"
    by (simp add: add_chunk_alt add_chunk_prep_def Let_def structural_change_def)
qed

section \<open>Everything about another archetype stays\<close>

text \<open>The fields of an archetype that never change once it is built.\<close>

definition arch_shape :: "archetype \<Rightarrow> archetype" where
  "arch_shape a = a\<lparr>firstChunk := 0, lastChunk := 0, firstFree := 0, chunkCount := 0, g_timestamp := 0, g_size := 0\<rparr>"

lemma arch_shape_views:
  assumes "arch_shape a' = arch_shape a"
  shows "col_addr a' = col_addr a" "sizes a' = sizes a" "firstTag a' = firstTag a" "firstBuffer a' = firstBuffer a"
    "firstManaged a' = firstManaged a" "g_types a' = g_types a" "managedFuncs a' = managedFuncs a"
    "componentCount a' = componentCount a" "chunkCapacity a' = chunkCapacity a" "metaCount a' = metaCount a" "offsets a' = offsets a"
    "metatypes a' = metatypes a"
proof -
  show s: "sizes a' = sizes a" "firstTag a' = firstTag a" "firstBuffer a' = firstBuffer a" "firstManaged a' = firstManaged a"
    "g_types a' = g_types a" "managedFuncs a' = managedFuncs a" "componentCount a' = componentCount a"
    "chunkCapacity a' = chunkCapacity a" "metaCount a' = metaCount a" "offsets a' = offsets a" "metatypes a' = metatypes a"
    using arg_cong [OF assms, of sizes] arg_cong [OF assms, of firstTag] arg_cong [OF assms, of firstBuffer]
      arg_cong [OF assms, of firstManaged] arg_cong [OF assms, of g_types] arg_cong [OF assms, of managedFuncs]
      arg_cong [OF assms, of componentCount] arg_cong [OF assms, of chunkCapacity] arg_cong [OF assms, of metaCount]
      arg_cong [OF assms, of offsets] arg_cong [OF assms, of metatypes]
    by (simp_all add: arch_shape_def)
  then show "col_addr a' = col_addr a" by (simp add: fun_eq_iff col_addr_def)
qed

lemma arch_shape_upd [simp]:
  "arch_shape (a\<lparr>lastChunk := x\<rparr>) = arch_shape a" "arch_shape (a\<lparr>firstChunk := x\<rparr>) = arch_shape a"
  "arch_shape (a\<lparr>firstFree := x\<rparr>) = arch_shape a" "arch_shape (a\<lparr>chunkCount := n\<rparr>) = arch_shape a"
  "arch_shape (a\<lparr>g_size := n\<rparr>) = arch_shape a" "arch_shape (a\<lparr>g_timestamp := n\<rparr>) = arch_shape a"
  by (simp_all add: arch_shape_def)

lemma arch_core_shape: "arch_core a' = arch_core a \<Longrightarrow> arch_shape a' = arch_shape a"
proof -
  assume "arch_core a' = arch_core a"
  then have "arch_shape (arch_core a') = arch_shape (arch_core a)" by simp
  then show ?thesis by (simp add: arch_core_def arch_shape_def)
qed

definition off_list :: "world \<Rightarrow> world \<Rightarrow> ptr \<Rightarrow> ptr set \<Rightarrow> bool" where
  "off_list w w' g S \<longleftrightarrow> touches w w' S
     \<and> (\<forall>x. x \<notin> S \<longrightarrow> c_count (chunks w' x) = c_count (chunks w x) \<and> c_ct (chunks w' x) = c_ct (chunks w x) \<and> c_type (chunks w' x) = c_type (chunks w x))
     \<and> (\<forall>y. y \<noteq> g \<longrightarrow> archs w' y = archs w y) \<and> arch_shape (archs w' g) = arch_shape (archs w g) \<and> w_ctx w' = w_ctx w"

lemma off_list_trans: "off_list u v g S \<Longrightarrow> off_list v w g S \<Longrightarrow> off_list u w g S"
  unfolding off_list_def by (simp add: touches_trans [of u v S w])

lemma off_list_mono: "off_list u v g S \<Longrightarrow> S \<subseteq> T \<Longrightarrow> off_list u v g T"
  unfolding off_list_def by (meson subsetD touches_mono)

lemma off_list_shape: "off_list w w' g S \<Longrightarrow> arch_shape (archs w' y) = arch_shape (archs w y)"
  by (cases "y = g") (simp_all add: off_list_def)

lemma off_list_frame:
  assumes "list_frame w w'" "touches w w' S" "\<And>y. y \<noteq> g \<Longrightarrow> archs w' y = archs w y"
  shows "off_list w w' g S"
proof -
  have core: "arch_core (archs w' g) = arch_core (archs w g)" and "world_rest w' = world_rest w"
    using assms(1) by (simp_all add: list_frame_def)
  then have "w_ctx w' = w_ctx w" using world_rest_fields(5) by blast
  then show ?thesis
    using assms(2,3) list_frame_views(1-3) [OF assms(1)] arch_core_shape [OF core] by (simp add: off_list_def)
qed

lemma off_list_same_shape:
  assumes "same_shape w w'" "\<And>y. y \<noteq> g \<Longrightarrow> archs w' y = archs w y" "arch_shape (archs w' g) = arch_shape (archs w g)" "w_ctx w' = w_ctx w"
  shows "off_list w w' g S"
  using assms by (simp add: off_list_def same_shape_def touches_def)

lemma off_list_structural: "off_list w (structural_change g c w) g S"
  by (rule off_list_same_shape [OF structural_change_shape(1)]) (simp_all add: structural_change_def Let_def)

lemma off_list_upd_arch: "arch_shape (f (archs w g)) = arch_shape (archs w g) \<Longrightarrow> off_list w (upd_arch g f w) g S"
  by (simp add: off_list_def)

lemma off_list_upd_chunk: "c \<in> S \<Longrightarrow> off_list w (upd_chunk c f w) g S"
  by (auto simp: off_list_def touches_def)

lemma add_chunk_apart:
  assumes "arch_list w g xs" "c \<notin> set xs"
  shows "off_list w (add_chunk g c w) g (insert c (set xs))"
proof -
  have core: "arch_core (archs (add_chunk g c w) y) = arch_core (archs (add_chunk_prep g c w) y)" for y
    using list_frame_add_chunk [of g c w] by (simp add: list_frame_def)
  have "arch_shape (archs (add_chunk_prep g c w) g) = arch_shape (archs w g)"
    by (simp add: add_chunk_prep_def structural_change_def Let_def)
  moreover have "w_ctx (add_chunk g c w) = w_ctx w"
    using list_frame_add_chunk [of g c w] world_rest_fields(5) [of "add_chunk g c w" "add_chunk_prep g c w"] by (simp add: list_frame_def prep_frame)
  ultimately show ?thesis
    using add_chunk_touches [OF assms] arch_core_shape [OF core, of g] by (simp add: off_list_def add_chunk_frame)
qed

lemma new_chunk_apart:
  assumes "mem_ok w U" "set xs \<subseteq> U" "arch_list w g xs" "new_chunk g hint w = (c, w1)"
  shows "off_list w w1 g (insert c (set xs))"
proof -
  obtain ct w0 where m: "malloc_chunk ct w = (c, w0)" and w1: "w1 = add_chunk g c w0"
    using assms(4) by (auto simp: new_chunk_def Let_def split: prod.splits)
  note c = malloc_chunk_ok [OF assms(1) m]
  have fresh: "c \<notin> set xs" using c(2) assms(2) by blast
  have "w_ctx w0 = w_ctx w" using m by (auto simp: malloc_chunk_def context_malloc_def Let_def split: list.splits prod.splits)
  then have a: "off_list w w0 g (insert c (set xs))" using c(4,7) by (simp add: off_list_def touches_def)
  have "dseg (chunks w0) p h xs t n = dseg (chunks w) p h xs t n" for p h t n
    by (rule dseg_cong) (use fresh c(7) in auto)
  then have "arch_list w0 g xs" using assms(3) c(4) by (simp add: arch_list_def)
  from off_list_trans [OF a add_chunk_apart [OF this fresh]] show ?thesis by (simp add: w1)
qed

lemma marks_apart:
  assumes "arch_list w g xs" "c \<in> set xs"
  shows "off_list w (mark_free g c w) g (set xs)" "off_list w (unmark_free g c w) g (set xs)" "off_list w (world_remove g c w) g (set xs)"
  using off_list_frame [OF list_frame_mark_free [OF list_frame_refl] mark_free_touches [OF assms]]
    off_list_frame [OF list_frame_unmark_free [OF list_frame_refl] unmark_free_touches [OF assms]]
    off_list_frame [OF list_frame_remove [OF list_frame_refl] remove_touches [OF assms]] by simp_all

lemma destroy_chunk_apart:
  assumes "arch_list w g xs" "c \<in> set xs" "metaCount (archs w g) = 0" "destroy_chunk g c w = Some w'"
  shows "off_list w w' g (set xs)"
proof -
  define w2 where "w2 = upd_arch g (\<lambda>a. a\<lparr>g_size := sub32 (g_size a) (c_count (chunks (structural_change g c w) c)),
    chunkCount := u16 (chunkCount a + 2 ^ 16 - 1)\<rparr>) (structural_change g c w)"
  define w3 where "w3 = (if c = firstFree (archs w2 g) then upd_arch g (\<lambda>a. a\<lparr>firstFree := c_next (chunks w2 c)\<rparr>) w2 else w2)"
  have "off_list w w2 g (set xs)" unfolding w2_def by (rule off_list_trans [OF off_list_structural off_list_upd_arch]) simp
  moreover have "off_list w2 w3 g (set xs)" unfolding w3_def using off_list_upd_arch [of _ w2] by (simp add: off_list_def)
  ultimately have a3: "off_list w w3 g (set xs)" by (rule off_list_trans)
  have "dseg (chunks w3) p h xs t n = dseg (chunks w) p h xs t n" for p h t n
    by (rule dseg_cong) (simp add: w3_def w2_def structural_change_simps)
  then have "arch_list w3 g xs" using assms(1) by (simp add: arch_list_def w3_def w2_def structural_change_simps)
  moreover have "drop_chunk g c w = upd_chunk c (\<lambda>ch. ch\<lparr>c_type := 0\<rparr>) (world_remove g c w3)"
    by (simp add: drop_chunk_def w3_def w2_def Let_def)
  ultimately have "off_list w (drop_chunk g c w) g (set xs)"
    using off_list_trans [OF off_list_trans [OF a3 marks_apart(3)] off_list_upd_chunk] assms(2) by simp
  moreover have "off_list (drop_chunk g c w) w' g (set xs)"
  proof -
    have plain: "shared_types ((archetypes_erase k (drop_chunk g c w))\<lparr>arch_events := e\<rparr>) g = Some []" for k e
      by (rule shared_types_plain) (simp add: archetypes_erase_def drop_chunk_frame assms(3))
    show ?thesis
      using assms(4) plain
      by (auto simp: destroy_chunk_def remove_chunk_alt Let_def update_queries_def archetypes_erase_def off_list_def touches_def
          recycle_chunk_def context_free_def split: if_splits)
  qed
  ultimately show ?thesis by (rule off_list_trans)
qed

lemma resize_chunk_apart:
  assumes "arch_list w g xs" "c \<in> set xs" "c_type (chunks w c) = g" "metaCount (archs w g) = 0 \<or> 0 < n" "resize_chunk c n w = Some w'"
  shows "off_list w w' g (set xs)"
proof (cases "n = 0")
  case True
  then show ?thesis using assms destroy_chunk_apart [OF assms(1,2)] by (simp add: resize_chunk_def)
next
  case False
  then have "w' = upd_chunk c (\<lambda>ch. ch\<lparr>c_count := n\<rparr>) (if n = chunk_capacity w g c then unmark_free g c w
      else if c_count (chunks w c) = chunk_capacity w g c then mark_free g c w else w)"
    using assms(3,5) by (simp add: resize_chunk_def Let_def)
  moreover have "off_list w w g (set xs)" by (simp add: off_list_def)
  ultimately show ?thesis
    using marks_apart [OF assms(1,2)] off_list_trans [OF _ off_list_upd_chunk [OF assms(2)]] by simp
qed

lemma allocate_slice_apart:
  assumes ok: "pool_ok w g full free U L fl" and n: "0 < n" "n < 2 ^ 32" and a: "allocate_slice g n w = Some (s, w')"
  shows "off_list w w' g (set (full @ free) \<union> - U)"
proof -
  obtain c w1 free1 U1 where c: "(if firstFree (archs w g) = 0 then new_chunk g n w else (firstFree (archs w g), w)) = (c, w1)"
    and ok1: "pool_ok w1 g full (c # free1) U1 L fl" and a1: "off_list w w1 g (insert c (set (full @ free)))"
    and sub: "set (c # free1) \<subseteq> insert c (set free)" "c \<in> set free \<or> c \<notin> U"
  proof (cases free)
    case Nil
    then have ff: "firstFree (archs w g) = 0" using ok by (simp add: pool_ok_def arch_chunks_def)
    obtain c w1 where new: "new_chunk g n w = (c, w1)" by fastforce
    have "off_list w w1 g (insert c (set (full @ free)))"
      by (rule new_chunk_apart [OF _ _ _ new]) (use ok in \<open>auto simp: pool_ok_def arch_chunks_def\<close>)
    then show ?thesis using that [of c w1 "[]" "insert c U"] new_chunk_ok [OF ok new] ff new Nil by auto
  next
    case (Cons f fs)
    then have "firstFree (archs w g) = f" "f \<noteq> 0" using ok dseg_nonzero
      by (fastforce simp: pool_ok_def arch_chunks_def arch_list_def)+
    then show ?thesis using that [of f w fs U] ok Cons by (simp add: off_list_def)
  qed
  define w2 where "w2 = structural_change g c w1"
  define cnt where "cnt = min n (sub32 (chunk_capacity w2 g c) (c_count (chunks w2 c)))"
  define w3 where "w3 = upd_arch g (\<lambda>a. a\<lparr>g_size := u32 (g_size a + cnt)\<rparr>) w2"
  have res: "resize_chunk c (u32 (c_count (chunks w2 c) + cnt)) w3 = Some w'"
    using a c by (auto simp: allocate_slice_def Let_def w2_def [symmetric] cnt_def [symmetric] w3_def [symmetric])
  have shape: "same_shape w1 w3"
    using structural_change_shape(1) [of w1 g c] by (simp add: w3_def w2_def same_shape_def)
  have al: "arch_list w3 g (full @ c # free1)" and ct: "c_type (chunks w3 c) = g"
    using ok1 arch_chunks_cong [OF shape, of g full "c # free1"] shape by (simp_all add: pool_ok_def arch_chunks_def same_shape_def)
  have "c_count (chunks w2 c) < chunk_capacity w2 g c" "chunk_capacity w2 g c < 2 ^ 24"
    using ok1 same_shape_views [OF structural_change_shape(1) [of w1 g c]] structural_change_shape(1) [of w1 g c]
    by (simp_all add: pool_ok_def chunk_capacity_def w2_def same_shape_def)
  then have pos: "0 < u32 (c_count (chunks w2 c) + cnt)" using n by (auto simp: cnt_def wrap_simps)
  have "off_list w1 w3 g (set (full @ c # free1))"
    unfolding w3_def w2_def by (rule off_list_trans [OF off_list_structural off_list_upd_arch]) simp
  then have "off_list w1 w' g (set (full @ c # free1))"
    using off_list_trans resize_chunk_apart [OF al _ ct _ res] pos by fastforce
  moreover have "set (full @ c # free1) \<subseteq> set (full @ free) \<union> - U" "insert c (set (full @ free)) \<subseteq> set (full @ free) \<union> - U"
    using sub by auto
  ultimately show ?thesis using off_list_trans off_list_mono a1 by meson
qed

section \<open>Releasing rows\<close>

lemma table_ctx:
  "w_ctx (set_data n f w) = w_ctx w" "w_ctx (copy_rows c a rows m k w) = w_ctx w" "w_ctx (move_entities d src i w) = w_ctx w"
  "w_ctx (fill_entities s i w) = w_ctx w"
proof -
  have s: "w_ctx (set_data n f w) = w_ctx w" "w_ctx (copy_rows c a rows m k w) = w_ctx w" for n f c a rows m k w
    by (simp_all add: set_data_def upd_ents_def copy_rows_def)
  have "w_ctx (for_up (\<lambda>j w. set_data (x j w) (f j w) w) 0 k w) = w_ctx w" for x f k w by (rule for_up_keeps) (simp add: s)
  then show "w_ctx (set_data n f w) = w_ctx w" "w_ctx (copy_rows c a rows m k w) = w_ctx w" "w_ctx (move_entities d src i w) = w_ctx w"
    "w_ctx (fill_entities s i w) = w_ctx w"
    by (simp_all add: s move_entities_def fill_entities_def Let_def)
qed

lemma table_frame_fill: "table_frame w (fill_entities s i w)"
  unfolding fill_entities_def Let_def
  by (intro table_frame_trans [OF table_frame_up table_frame_basic(2)] table_frame_basic)

lemma fill_gap_frame: "same_shape w (fill_gap s w)" "archs (fill_gap s w) = archs w" "w_ctx (fill_gap s w) = w_ctx w"
proof -
  have m: "same_shape w (chunk_move_within ms i w)" "archs (chunk_move_within ms i w) = archs w" "w_ctx (chunk_move_within ms i w) = w_ctx w" for ms i
    using chunk_move_within_on_mem [of ms i w] by (auto simp: same_shape_def on_mem_def)
  have t: "same_shape u (fill_entities ms i u)" "archs (fill_entities ms i u) = archs u" for ms i u
    using table_frame_fill by (simp_all add: table_frame_def)
  have "same_shape w (fill_entities ms' j (chunk_move_within ms i w))" for ms ms' i j by (rule same_shape_trans [OF m(1) t(1)])
  then show "same_shape w (fill_gap s w)" "archs (fill_gap s w) = archs w" "w_ctx (fill_gap s w) = w_ctx w"
    using m t by (auto simp: fill_gap_def Let_def table_ctx)
qed

lemma free_slice_apart:
  assumes ok: "arch_chunks w g full free" and c: "sl_c s \<in> set (full @ free)" "c_type (chunks w (sl_c s)) = g"
    and meta: "metaCount (archs w g) = 0" and f: "free_slice s w = Some w'"
  shows "off_list w w' g (set (full @ free))"
proof -
  let ?w1 = "take_off g (sl_c s) (sl_count s) w" let ?w2 = "fill_gap s ?w1"
  note t = take_off_frame [where w = w and g = g and c = "sl_c s" and n = "sl_count s"]
  have a1: "off_list w ?w1 g S" for S unfolding take_off_def by (rule off_list_trans [OF off_list_structural off_list_upd_arch]) simp
  have a2: "off_list ?w1 ?w2 g S" for S by (rule off_list_same_shape [OF fill_gap_frame(1)]) (simp_all add: fill_gap_frame)
  have sh: "same_shape w ?w2" by (rule same_shape_trans [OF t(1) fill_gap_frame(1)])
  have "arch_list ?w2 g (full @ free)" using ok arch_chunks_cong [OF sh, of g full free] by (simp add: arch_chunks_def)
  then have "off_list ?w2 w' g (set (full @ free))"
    by (rule resize_chunk_apart [OF _ c(1)]) (use f c(2) meta sh t(4) in \<open>simp_all add: free_slice_alt Let_def same_shape_def fill_gap_frame\<close>)
  then show ?thesis using off_list_trans a1 a2 by meson
qed

text \<open>What one archetype's operation keeps, the other's invariant needs.\<close>

lemma pool_elsewhere:
  assumes ok: "pool_ok w h hfull hfree U L fl" and ap: "off_list w w' g S" and ne: "h \<noteq> g" "set (hfull @ hfree) \<inter> S = {}"
    and new: "pool_ok w' g full' free' U' L' fl'" "set (hfull @ hfree) \<subseteq> U'"
  shows "pool_ok w' h hfull hfree U' L' fl'"
proof -
  have same: "archs w' h = archs w h" and ch: "c_next (chunks w' x) = c_next (chunks w x)" "c_prev (chunks w' x) = c_prev (chunks w x)"
    "c_count (chunks w' x) = c_count (chunks w x)" "c_ct (chunks w' x) = c_ct (chunks w x)" "c_type (chunks w' x) = c_type (chunks w x)"
    if "x \<in> set (hfull @ hfree)" for x
    using ap ne that by (auto simp: off_list_def touches_def disjoint_iff)
  have archs: "archs w' h = archs w h" using ap ne by (simp add: off_list_def)
  have "dseg (chunks w') p x xs t n = dseg (chunks w) p x xs t n" if "set xs \<subseteq> set (hfull @ hfree)" for p x xs t n
    by (rule dseg_cong) (use ch that in auto)
  then have "arch_chunks w' h hfull hfree" using ok archs by (simp add: pool_ok_def arch_chunks_def arch_list_def)
  moreover have "chunk_capacity w' h x = chunk_capacity w h x" if "x \<in> set (hfull @ hfree)" for x
    using ch that by (simp add: chunk_capacity_def archs)
  ultimately show ?thesis using ok new ch archs unfolding pool_ok_def by auto
qed

lemma pools_disjoint:
  assumes "pool_ok w g full free U L fl" "pool_ok w h hfull hfree U L fl" "g \<noteq> h"
  shows "set (full @ free) \<inter> set (hfull @ hfree) = {}"
  using assms unfolding pool_ok_def by fastforce

section \<open>The bytes a cast can change\<close>

definition cast_rest where
  "cast_rest src c w = (archs w, ents w, fresh_data w, w_ctx w, bins w, next_ptr w,
     (\<lambda>x. if x = src \<or> x = c then (chunks w x)\<lparr>c_data := undefined\<rparr> else chunks w x))"

lemma cast_rest_ops: "cast_rest src c (on_mem c f w) = cast_rest src c w" "cast_rest src c (on_mem src f w) = cast_rest src c w"
  "cast_rest src c (on_bytes src f2 w) = cast_rest src c w"
  by (auto simp: cast_rest_def on_mem_def on_bytes_def split: prod.splits)

lemma cast_rest_phases:
  "cast_rest src (sl_c dst) (cast_pods dst src i w) = cast_rest src (sl_c dst) w"
  "cast_rest src (sl_c dst) (cast_buffers dst src i d w) = cast_rest src (sl_c dst) w"
  "cast_rest src (sl_c dst) (cast_managed dst src i w) = cast_rest src (sl_c dst) w"
  unfolding cast_pods_def cast_buffers_def cast_managed_def Let_def
  by (rule cast_range_keeps [where g = "cast_rest src (sl_c dst)"]; simp add: cast_rest_ops)+

lemma cast_rest_views:
  assumes "cast_rest src c w' = cast_rest src c w"
  shows "same_shape w w'" "archs w' = archs w" "ents w' = ents w" "fresh_data w' = fresh_data w" "w_ctx w' = w_ctx w"
    "c_ents (chunks w' x) = c_ents (chunks w x)" "x \<noteq> src \<Longrightarrow> x \<noteq> c \<Longrightarrow> c_data (chunks w' x) = c_data (chunks w x)"
proof -
  have rest: "archs w' = archs w" "ents w' = ents w" "fresh_data w' = fresh_data w" "w_ctx w' = w_ctx w" "bins w' = bins w" "next_ptr w' = next_ptr w"
    and ch: "(if x = src \<or> x = c then (chunks w' x)\<lparr>c_data := undefined\<rparr> else chunks w' x)
      = (if x = src \<or> x = c then (chunks w x)\<lparr>c_data := undefined\<rparr> else chunks w x)" for x
    using assms by (simp_all add: cast_rest_def fun_eq_iff)
  have c: "c_next (chunks w' x) = c_next (chunks w x)" "c_prev (chunks w' x) = c_prev (chunks w x)" "c_count (chunks w' x) = c_count (chunks w x)"
    "c_ct (chunks w' x) = c_ct (chunks w x)" "c_type (chunks w' x) = c_type (chunks w x)" "c_ents (chunks w' x) = c_ents (chunks w x)"
    "x \<noteq> src \<Longrightarrow> x \<noteq> c \<Longrightarrow> c_data (chunks w' x) = c_data (chunks w x)" for x
    using arg_cong [OF ch [of x], of c_next] arg_cong [OF ch [of x], of c_prev] arg_cong [OF ch [of x], of c_count] arg_cong [OF ch [of x], of c_ct]
      arg_cong [OF ch [of x], of c_type] arg_cong [OF ch [of x], of c_ents] arg_cong [OF ch [of x], of c_data] by (auto split: if_splits)
  show "same_shape w w'" "archs w' = archs w" "ents w' = ents w" "fresh_data w' = fresh_data w" "w_ctx w' = w_ctx w"
    "c_ents (chunks w' x) = c_ents (chunks w x)" "x \<noteq> src \<Longrightarrow> x \<noteq> c \<Longrightarrow> c_data (chunks w' x) = c_data (chunks w x)"
    using rest c by (simp_all add: same_shape_def)
qed

lemma cast_managed_source:
  assumes "src \<noteq> sl_c dst" "components_local (chunk_arch w src)"
    and x: "\<forall>i. firstManaged (chunk_arch w src) \<le> i \<and> i < firstTag (chunk_arch w src) \<longrightarrow> x \<notin> cells w src i0 (sl_count dst) i"
  shows "bytes_of (cast_managed dst src i0 w) src x = bytes_of w src x"
  unfolding cast_managed_def Let_def
proof (rule cast_range_keeps [where g = "\<lambda>w. bytes_of w src x"])
  fix i s assume i: "firstManaged (chunk_arch w src) \<le> i" "i < firstTag (chunk_arch w src)"
  then have "stays_in (vt_destruct (chunk_arch w src) i (cell_addr w src i i0) (sl_count dst)) (cell_addr w src i i0) (sizes (chunk_arch w src) ! i * sl_count dst)"
    using assms(2) by (simp add: components_local_def)
  then show "bytes_of (on_mem src (vt_destruct (chunk_arch w src) i (cell_addr w src i i0) (sl_count dst)) s) src x = bytes_of s src x"
    using x i by (auto simp: stays_in_def)
qed (use assms(1) in simp_all)

lemma cast_masks_on_mem:
  assumes "cast_masks dst src i w = Some w'" "\<not> both_masked w src (sl_c dst)"
  shows "\<exists>f. w' = on_mem (sl_c dst) f w"
proof -
  have "\<exists>f. w = on_mem (sl_c dst) f w" by (rule exI [of _ "\<lambda>m. m"]) simp
  then show ?thesis using assms by (auto simp: cast_masks_def both_masked_def Let_def split: if_splits)
qed

text \<open>What \<open>chunk_cast_rows\<close> leaves open: a cast without masks touches nothing but bytes of the two
  chunks, and in the source nothing outside the rows it casts.\<close>

lemma chunk_cast_frame:
  assumes su: "cast_setup w dst src i0" and r: "chunk_cast dst src i0 destruct w = Some w'" and m: "\<not> both_masked w src (sl_c dst)"
  shows "cast_rest src (sl_c dst) w' = cast_rest src (sl_c dst) w"
    "\<forall>i. i < firstTag (chunk_arch w src) \<longrightarrow> x \<notin> cells w src i0 (sl_count dst) i \<Longrightarrow> bytes_of w' src x = bytes_of w src x"
proof -
  let ?w1 = "cast_pods dst src i0 w" let ?w2 = "cast_buffers dst src i0 destruct ?w1" let ?w3 = "cast_managed dst src i0 ?w2"
  have p2: "same_places ?w2 w" by (rule same_places_trans [OF cast_phase_places(2,1)])
  have p: "same_places ?w3 w" by (rule same_places_trans [OF cast_phase_places(3) p2])
  have i0: "u16 i0 = i0" and ne: "src \<noteq> sl_c dst" using su by (simp_all add: cast_setup_def u16_small)
  have cm: "chunk_cast dst src i0 destruct w = cast_masks dst src i0 ?w3" by (simp add: chunk_cast_def Let_def i0)
  have "\<not> both_masked ?w3 src (sl_c dst)" using m p by (simp add: both_masked_def same_places_def)
  then obtain f where f: "w' = on_mem (sl_c dst) f ?w3"
    using cast_masks_on_mem r unfolding cm by blast
  show "cast_rest src (sl_c dst) w' = cast_rest src (sl_c dst) w" by (simp only: f cast_rest_ops cast_rest_phases)
  assume x: "\<forall>i. i < firstTag (chunk_arch w src) \<longrightarrow> x \<notin> cells w src i0 (sl_count dst) i"
  have "bytes_of ?w3 src x = bytes_of ?w2 src x"
    by (rule cast_managed_source [OF ne]) (use p2 x setup_facts [OF su] in \<open>auto simp: same_places_def\<close>)
  then show "bytes_of w' src x = bytes_of w src x" using ne by (simp add: f cast_phase_source)
qed

section \<open>Rows that stay, rows that are carried over\<close>

definition steady :: "world \<Rightarrow> world \<Rightarrow> ptr set \<Rightarrow> bool" where
  "steady w w' U \<longleftrightarrow> w_ctx w' = w_ctx w \<and> (\<forall>y. arch_shape (archs w' y) = arch_shape (archs w y))
     \<and> (\<forall>x \<in> U. c_type (chunks w' x) = c_type (chunks w x) \<and> c_ct (chunks w' x) = c_ct (chunks w x))"

lemma steady_trans: "steady u v U \<Longrightarrow> steady v w V \<Longrightarrow> U \<subseteq> V \<Longrightarrow> steady u w U"
  unfolding steady_def by (metis subsetD)

lemma steady_views:
  assumes "steady w w' U" "d \<in> U"
  shows "cell_addr w' d = cell_addr w d" "sizes (chunk_arch w' d) = sizes (chunk_arch w d)" "firstTag (chunk_arch w' d) = firstTag (chunk_arch w d)"
proof -
  have s: "arch_shape (archs w' (c_type (chunks w d))) = arch_shape (archs w (c_type (chunks w d)))"
    and c: "c_type (chunks w' d) = c_type (chunks w d)" "c_ct (chunks w' d) = c_ct (chunks w d)" using assms by (simp_all add: steady_def)
  show "cell_addr w' d = cell_addr w d" "sizes (chunk_arch w' d) = sizes (chunk_arch w d)" "firstTag (chunk_arch w' d) = firstTag (chunk_arch w d)"
    using arch_shape_views [OF s] c by (simp_all add: fun_eq_iff cell_addr_def chunk_arch_def)
qed

definition row_same :: "world \<Rightarrow> world \<Rightarrow> ptr \<Rightarrow> nat \<Rightarrow> bool" where
  "row_same w w' d r \<longleftrightarrow> row_of w' d r = row_of w d r
     \<and> (\<forall>k < firstTag (chunk_arch w d). \<forall>b < sizes (chunk_arch w d) ! k. row_byte w' d k r b = row_byte w d k r b)"

lemma row_same_trans: "steady u v U \<Longrightarrow> d \<in> U \<Longrightarrow> row_same u v d r \<Longrightarrow> row_same v w d r \<Longrightarrow> row_same u w d r"
  using steady_views [of u v U d] by (simp add: row_same_def)

lemma row_same_data:
  assumes "steady w w' U" "d \<in> U" "c_ents (chunks w' d) = c_ents (chunks w d)" "c_data (chunks w' d) = c_data (chunks w d)"
  shows "row_same w w' d r"
  using assms(3,4) steady_views [OF assms(1,2)] by (simp add: row_same_def row_of_def row_byte_def bytes_of_def)

text \<open>Row \<open>r'\<close> of chunk \<open>d\<close>, of archetype \<open>g\<close>, holds in \<open>w'\<close> what row \<open>r\<close> of chunk \<open>c\<close>, of archetype \<open>h\<close>,
  held in \<open>w\<close>: the entity and the components both have; pods only \<open>g\<close> has are zero, and a mask only \<open>g\<close> has is all ones.\<close>

definition type_at :: "world \<Rightarrow> ptr \<Rightarrow> nat \<Rightarrow> type_index" where
  "type_at w g i = to_valid_type (w_ctx w) (g_types (archs w g) ! i)"

definition carried :: "world \<Rightarrow> ptr \<Rightarrow> ptr \<Rightarrow> ptr \<Rightarrow> nat \<Rightarrow> world \<Rightarrow> ptr \<Rightarrow> nat \<Rightarrow> bool" where
  "carried w h g c r w' d r' \<longleftrightarrow> (let sa = archs w h; da = archs w g; dm = arch_index da (mask_id (w_ctx w)) in
     row_of w' d r' = row_of w c r
     \<and> (\<forall>i j b. same_kind sa i da j \<and> type_at w h i = type_at w g j \<and> j \<noteq> dm \<and> b < sizes da ! j \<longrightarrow>
          row_byte w' d j r' b = row_byte w c i r b)
     \<and> (\<forall>j b. j < firstBuffer da \<and> (\<forall>i < firstBuffer sa. type_at w h i \<noteq> type_at w g j) \<and> b < sizes da ! j \<longrightarrow>
          row_byte w' d j r' b = (if dm \<noteq> InvalidIndex \<and> j = dm then -1 else 0)))"

section \<open>Carrying the rows of one slice\<close>

text \<open>Two archetypes between which \<open>chunk::cast\<close> is defined: their columns are laid out, equal
  components have equal sizes, and not both have a mask.\<close>

definition castable :: "world \<Rightarrow> ptr \<Rightarrow> ptr \<Rightarrow> bool" where
  "castable w h g \<longleftrightarrow> (\<forall>y \<in> {h, g}. components_local (archs w y) \<and> increasing_on (type_at w y) {0..<firstTag (archs w y)}
       \<and> (\<forall>ct. columns_disjoint (archs w y) ct) \<and> componentCount (archs w y) = length (g_types (archs w y))
       \<and> (let m = arch_index (archs w y) (mask_id (w_ctx w)) in m \<noteq> InvalidIndex \<longrightarrow> m < firstBuffer (archs w y)))
     \<and> (\<forall>i j. same_kind (archs w h) i (archs w g) j \<and> type_at w h i = type_at w g j \<longrightarrow> sizes (archs w h) ! i = sizes (archs w g) ! j)
     \<and> (arch_index (archs w h) (mask_id (w_ctx w)) = InvalidIndex \<or> arch_index (archs w g) (mask_id (w_ctx w)) = InvalidIndex)"

lemma castable_steady:
  assumes "steady w w' U"
  shows "castable w' h g = castable w h g"
proof -
  have v: "col_addr (archs w' y) = col_addr (archs w y)" "sizes (archs w' y) = sizes (archs w y)" "firstTag (archs w' y) = firstTag (archs w y)"
    "firstBuffer (archs w' y) = firstBuffer (archs w y)" "firstManaged (archs w' y) = firstManaged (archs w y)" "g_types (archs w' y) = g_types (archs w y)"
    "managedFuncs (archs w' y) = managedFuncs (archs w y)" "componentCount (archs w' y) = componentCount (archs w y)"
    "chunkCapacity (archs w' y) = chunkCapacity (archs w y)" "offsets (archs w' y) = offsets (archs w y)" for y
    using assms arch_shape_views [of "archs w' y" "archs w y"] by (simp_all add: steady_def)
  have ctx: "w_ctx w' = w_ctx w" using assms by (simp add: steady_def)
  have "type_at w' y = type_at w y" "components_local (archs w' y) = components_local (archs w y)"
    "columns_disjoint (archs w' y) ct = columns_disjoint (archs w y) ct" "same_kind (archs w' y) i (archs w' z) j = same_kind (archs w y) i (archs w z) j"
    "arch_index (archs w' y) t = arch_index (archs w y) t" for y z ct i j t
    by (simp_all add: type_at_def [abs_def] ctx v components_local_def vt_construct_def [abs_def] vt_destruct_def [abs_def] vt_of_def
        columns_disjoint_def same_kind_def arch_index_def)
  then show ?thesis by (simp add: castable_def ctx v)
qed

lemma entity_exist_move: "entity_exist (move_entities d src i w) = entity_exist w"
proof -
  have "ed_v (set_ed_c b (set_ed_i a e)) = ed_v e" "ed_v (set_ed_c b e) = ed_v e" "ed_v (set_ed_i a e) = ed_v e" for a b e
    by (simp_all add: set_ed_i_def set_ed_c_def)
  then have "entity_exist (for_up (\<lambda>j. set_data (x j) (\<lambda>d. set_ed_c c (set_ed_i (y j) d))) 0 n w) = entity_exist w" for x y c n
    by (intro for_up_keeps) (simp add: entity_exist_set_data)
  then show ?thesis by (simp add: move_entities_def Let_def entity_exist_cong [of "copy_rows c a r m n w" w for c a r m n w])
qed

lemma chunk_cast_carries:
  assumes ok: "castable w h g" and c: "c_type (chunks w c) = h" and d: "d = sl_c s" "c_type (chunks w d) = g" "c \<noteq> d"
    and n: "n = sl_count s" "sl_start s + n \<le> chunk_capacity w g d" "i0 + n \<le> chunk_capacity w h c" "i0 < 2 ^ 16"
  shows "\<exists>w'. chunk_cast s c i0 True w = Some w' \<and> cast_rest c d w' = cast_rest c d w
    \<and> (\<forall>r < n. \<forall>v. row_byte v d = row_byte w' d \<and> row_of v d (sl_start s + r) = row_of w c (i0 + r) \<longrightarrow>
          carried w h g c (i0 + r) v d (sl_start s + r))
    \<and> (\<forall>x. (\<forall>j < firstTag (archs w g). x \<notin> cells w d (sl_start s) n j) \<longrightarrow> bytes_of w' d x = bytes_of w d x)
    \<and> (\<forall>x. (\<forall>i < firstTag (archs w h). x \<notin> cells w c i0 n i) \<longrightarrow> bytes_of w' c x = bytes_of w c x)"
proof -
  have a: "chunk_arch w d = archs w g" "chunk_arch w c = archs w h" using c d by (simp_all add: chunk_arch_def)
  have t: "valid_at w c = type_at w h" "valid_at w d = type_at w g" by (simp_all add: fun_eq_iff valid_at_def type_at_def a)
  have su: "cast_setup w s c i0"
    using ok n d(3) by (simp add: cast_setup_def rows_ok_def a t castable_def chunk_capacity_def d(1) [symmetric])
  have m: "\<not> both_masked w c (sl_c s)" using ok by (simp add: both_masked_def a castable_def d(1) [symmetric])
  have cc: "componentCount (archs w h) = length (g_types (archs w h))" "componentCount (archs w g) = length (g_types (archs w g))"
    and dm: "arch_index (archs w g) (mask_id (w_ctx w)) \<noteq> InvalidIndex \<longrightarrow> arch_index (archs w g) (mask_id (w_ctx w)) < firstBuffer (archs w g)"
    and sz: "\<forall>i j. same_kind (archs w h) i (archs w g) j \<and> valid_at w c i = valid_at w d j \<longrightarrow> sizes (archs w h) ! i = sizes (archs w g) ! j"
    using ok by (simp_all add: castable_def t Let_def)
  note T = chunk_cast_rows [where destruct = True, OF su d(1) a [symmetric] n(1) cc refl dm sz]
  obtain w' where r: "chunk_cast s c i0 True w = Some w'" using T m d(1) by auto
  note R = T [THEN conjunct2, rule_format, OF r]
  note F = chunk_cast_frame [OF su r m, folded d(1) n(1), unfolded a]
  have "carried w h g c (i0 + k) v d (sl_start s + k)"
    if "k < n" "row_byte v d = row_byte w' d" "row_of v d (sl_start s + k) = row_of w c (i0 + k)" for k v
    unfolding carried_def Let_def using R that by (simp add: t)
  then show ?thesis using F R by (intro exI [of _ w'] conjI) (simp_all add: r a)
qed

text \<open>A row outside the casted ones keeps its cells.\<close>

lemma row_cells_apart:
  assumes "columns_disjoint a ct" "k < firstTag a" "b < sizes a ! k" "r < chunkCapacity a ct" "start + n \<le> chunkCapacity a ct"
    "\<not> (start \<le> r \<and> r < start + n)" "a = chunk_arch w d" "ct = c_ct (chunks w d)"
  shows "\<forall>j < firstTag a. cell_addr w d k r + b \<notin> cells w d start n j"
  using cell_outside [OF assms(1,2) _ assms(3-5)] assms(6-8) by (auto simp: cell_addr_def)

lemma carry_step:
  assumes cs: "castable w h g" and g: "pool_ok w g full free U L fl" and h: "pool_ok w h hfull hfree U L fl" and ne: "g \<noteq> h"
    and c: "c \<in> set (hfull @ hfree)" and d: "d = sl_c s" "d \<in> set (full @ free)" and n: "n = sl_count s" "sl_start s + n \<le> c_count (chunks w d)"
    and src: "{c} \<times> {i0..<i0 + n} \<subseteq> L" "i0 + n \<le> 2 ^ 16" "0 < n" and dst: "slice_rows s 0 n \<inter> L = {}"
    and L': "L' = L - {c} \<times> {i0..<i0 + n} \<union> slice_rows s 0 n"
  shows "\<exists>w2 w3. chunk_cast s c i0 True w = Some w2 \<and> w3 = move_entities s c i0 w2
    \<and> pool_ok w3 g full free U L' fl \<and> pool_ok w3 h hfull hfree U L' fl
    \<and> (\<forall>r < n. carried w h g c (i0 + r) w3 d (sl_start s + r)) \<and> (\<forall>(x, r) \<in> L - {c} \<times> {i0..<i0 + n}. row_same w w3 x r)
    \<and> same_shape w w3 \<and> archs w3 = archs w \<and> w_ctx w3 = w_ctx w \<and> entity_exist w3 = entity_exist w"
proof -
  have inv: "tab_inv w L fl" "fst ` L \<subseteq> U" "\<forall>(x, r) \<in> L. r < c_count (chunks w x)" using g by (simp_all add: pool_ok_def)
  have in_L: "(c, i0) \<in> L" using src(1,3) by auto
  have types: "c_type (chunks w c) = h" "c_type (chunks w d) = g" and caps: "c_count (chunks w c) \<le> chunk_capacity w h c" "c_count (chunks w d) \<le> chunk_capacity w g d"
    using g h c d(2) pool_ok_split [OF g d(2)] pool_ok_split [OF h c] by (auto simp: pool_ok_def)
  have cd: "c \<noteq> d" using types ne by auto
  have arch: "chunk_arch w c = archs w h" "chunk_arch w d = archs w g" by (simp_all add: chunk_arch_def types)
  have "(c, i0 + n - 1) \<in> L" using src(1,3) by auto
  then have "i0 + n \<le> chunk_capacity w h c" "i0 < 2 ^ 16" using inv(3) caps(1) src by auto
  then obtain w2 where R: "chunk_cast s c i0 True w = Some w2" "cast_rest c d w2 = cast_rest c d w"
    and carry: "\<forall>r < n. \<forall>v. row_byte v d = row_byte w2 d \<and> row_of v d (sl_start s + r) = row_of w c (i0 + r) \<longrightarrow> carried w h g c (i0 + r) v d (sl_start s + r)"
    and other: "\<forall>x. (\<forall>j < firstTag (archs w g). x \<notin> cells w d (sl_start s) n j) \<longrightarrow> bytes_of w2 d x = bytes_of w d x"
      "\<forall>x. (\<forall>i < firstTag (archs w h). x \<notin> cells w c i0 n i) \<longrightarrow> bytes_of w2 c x = bytes_of w c x"
    using chunk_cast_carries [OF cs types(1) d(1) types(2) cd n(1), of i0] n(2) caps by auto
  note v = cast_rest_views [OF R(2)]
  define w3 where "w3 = move_entities s c i0 w2"
  have tf: "table_frame w2 w3" unfolding w3_def by (rule table_frame_move_entities)
  have shape: "same_shape w w3" "archs w3 = archs w" and data: "c_data (chunks w3 x) = c_data (chunks w2 x)" for x
    using tf same_shape_trans [OF v(1)] v(2) by (simp_all add: table_frame_def)
  have row2: "row_of w2 = row_of w" by (simp add: row_of_def [abs_def] v(6))
  have inv2: "tab_inv w2 L fl" by (rule tab_inv_cong [OF v(3,4) _ inv(1)]) (simp add: row2)
  have slice: "slice_rows \<lparr>sl_c = c, sl_start = i0, sl_count = 0\<rparr> 0 n = {c} \<times> {i0..<i0 + n}" by (simp add: slice_rows_times)
  have "chunk_capacity w g d < 2 ^ 24" using g by (simp add: pool_ok_def chunk_capacity_def)
  then have T: "tab_inv w3 L' fl" "\<forall>r < n. row_of w3 d (sl_start s + r) = row_of w c (i0 + r)"
    "\<forall>x r. (x, r) \<notin> slice_rows s 0 n \<longrightarrow> row_of w3 x r = row_of w x r"
    using move_entities_table [OF inv2, of c i0 s w3] src(1) dst n caps(2) unfolding slice row2 n(1) [symmetric] d(1) [symmetric]
    by (simp_all add: w3_def L')
  have addr: "cell_addr w3 = cell_addr w" "chunk_arch w3 = chunk_arch w" using shape by (simp_all add: fun_eq_iff cell_addr_def chunk_arch_def same_shape_def)
  have byte3: "row_byte w3 x k r b = bytes_of w2 x (cell_addr w x k r + b)" for x k r b by (simp add: row_byte_def addr bytes_of_def data)
  have same: "row_same w w3 x r" if xr: "(x, r) \<in> L" "(x, r) \<notin> {c} \<times> {i0..<i0 + n}" for x r
  proof -
    have "row_byte w3 x k r b = row_byte w x k r b" if k: "k < firstTag (chunk_arch w x)" "b < sizes (chunk_arch w x) ! k" for k b
    proof -
      have lt: "r < c_count (chunks w x)" using inv(3) xr(1) by auto
      have cells: "\<forall>j < firstTag (chunk_arch w x). cell_addr w x k r + b \<notin> cells w x st n j" if "x = c \<and> st = i0 \<or> x = d \<and> st = sl_start s" for st
      proof -
        have "\<not> (st \<le> r \<and> r < st + n)"
        proof
          assume "st \<le> r \<and> r < st + n"
          then have "(x, r) \<in> {c} \<times> {i0..<i0 + n} \<or> (x, r) \<in> slice_rows s 0 n" using that by (auto simp: slice_rows_times d(1))
          then show False using xr dst by blast
        qed
        moreover have "columns_disjoint (chunk_arch w x) ct" for ct using that cs arch by (auto simp: castable_def)
        moreover have "r < chunkCapacity (chunk_arch w x) (c_ct (chunks w x)) \<and> st + n \<le> chunkCapacity (chunk_arch w x) (c_ct (chunks w x))"
          using that lt caps n(2) \<open>i0 + n \<le> chunk_capacity w h c\<close> arch by (auto simp: chunk_capacity_def)
        ultimately show ?thesis using row_cells_apart [OF _ k _ _ _ refl refl] by blast
      qed
      show ?thesis
      proof (cases "x = c \<or> x = d")
        case True
        then show ?thesis unfolding byte3 row_byte_def [of w] using cells other arch by auto
      next
        case False
        then show ?thesis unfolding byte3 row_byte_def [of w] using v(7) by (simp add: bytes_of_def)
      qed
    qed
    moreover have "(x, r) \<notin> slice_rows s 0 n" using xr(1) dst by blast
    ultimately show ?thesis using T(3) by (simp add: row_same_def)
  qed
  have stay: "\<forall>(x, r) \<in> L - {c} \<times> {i0..<i0 + n}. row_same w w3 x r"
    using same by (simp only: Ball_def split_paired_All case_prod_conv Diff_iff) blast
  have "cell_addr w2 = cell_addr w" using v(1,2) by (simp add: fun_eq_iff cell_addr_def chunk_arch_def same_shape_def)
  then have bytes2: "row_byte w3 d = row_byte w2 d" unfolding fun_eq_iff byte3 by (simp add: row_byte_def)
  have rows: "fst ` L' \<subseteq> U" "\<forall>(x, r) \<in> L'. r < c_count (chunks w x)"
    using inv(2,3) n(2) d g unfolding L' slice_rows_times pool_ok_def by auto
  have "w_ctx w3 = w_ctx w" "entity_exist w3 = entity_exist w"
    using v(5) entity_exist_cong [OF v(3)] by (simp_all add: w3_def table_ctx entity_exist_move)
  then show ?thesis
    using R(1) pool_ok_shape [OF shape(1) g rows T(1)] pool_ok_shape [OF shape(1) h rows T(1)] carry T(2) bytes2 stay shape
    by - (rule exI [of _ w2], rule exI [of _ w3], simp add: w3_def [symmetric])
qed

section \<open>The loop\<close>

text \<open>No operation but the allocation of a chunk changes size classes.\<close>

lemma resize_chunk_ct:
  assumes "resize_chunk c n w = Some w'" "metaCount (archs w (c_type (chunks w c))) = 0 \<or> 0 < n"
  shows "c_ct (chunks w' x) = c_ct (chunks w x)"
proof (cases "n = 0")
  case False
  then have "w' = upd_chunk c (\<lambda>ch. ch\<lparr>c_count := n\<rparr>) (if n = chunk_capacity w (c_type (chunks w c)) c then unmark_free (c_type (chunks w c)) c w
      else if c_count (chunks w c) = chunk_capacity w (c_type (chunks w c)) c then mark_free (c_type (chunks w c)) c w else w)"
    using assms(1) by (simp add: resize_chunk_def Let_def)
  then show ?thesis
    using list_frame_views(2) [OF list_frame_mark_free [OF list_frame_refl]] list_frame_views(2) [OF list_frame_unmark_free [OF list_frame_refl]] by simp
next
  case True
  define g where "g = c_type (chunks w c)"
  have d: "destroy_chunk g c w = Some w'" "metaCount (archs w g) = 0" using True assms by (simp_all add: resize_chunk_def Let_def g_def)
  have plain: "shared_types ((archetypes_erase k (drop_chunk g c w))\<lparr>arch_events := e\<rparr>) g = Some []" for k e
    by (rule shared_types_plain) (simp add: archetypes_erase_def drop_chunk_frame d(2))
  have "chunks w' = chunks (drop_chunk g c w)"
    using d(1) plain by (auto simp: destroy_chunk_def remove_chunk_alt Let_def update_queries_def archetypes_erase_def recycle_chunk_frame split: if_splits)
  then show ?thesis by (simp add: drop_chunk_frame)
qed

lemma allocate_slice_ct:
  assumes ok: "pool_ok w g full free U L fl" and n: "0 < n" "n < 2 ^ 32" and a: "allocate_slice g n w = Some (s, w')" and x: "x \<in> U"
  shows "c_ct (chunks w' x) = c_ct (chunks w x)"
proof -
  obtain c w1 where c: "(if firstFree (archs w g) = 0 then new_chunk g n w else (firstFree (archs w g), w)) = (c, w1)" by fastforce
  have w1: "c_ct (chunks w1 x) = c_ct (chunks w x)"
  proof (cases "firstFree (archs w g) = 0")
    case True
    then obtain ct w0 where m: "malloc_chunk ct w = (c, w0)" and "w1 = add_chunk g c w0"
      using c by (auto simp: new_chunk_def Let_def split: prod.splits)
    moreover have "mem_ok w U" using ok by (simp add: pool_ok_def)
    then have "c \<noteq> x" "chunks w0 x = chunks w x" using malloc_chunk_ok(2,7) [OF _ m] x by auto
    ultimately show ?thesis by (simp add: add_chunk_frame)
  qed (use c in simp)
  define w2 where "w2 = structural_change g c w1"
  define k where "k = min n (sub32 (chunk_capacity w2 g c) (c_count (chunks w2 c)))"
  define w3 where "w3 = upd_arch g (\<lambda>a. a\<lparr>g_size := u32 (g_size a + k)\<rparr>) w2"
  have res: "resize_chunk c (u32 (c_count (chunks w2 c) + k)) w3 = Some w'" and s: "s = \<lparr>sl_c = c, sl_start = c_count (chunks w2 c), sl_count = k\<rparr>"
    using a c by (auto simp: allocate_slice_def Let_def w2_def [symmetric] k_def [symmetric] w3_def [symmetric])
  obtain full' free' U' where "0 < sl_count s" "sl_start s + sl_count s \<le> chunk_capacity w' g (sl_c s)" "pool_ok w' g full' free' U' L fl"
    using allocate_slice_ok [OF ok n] a by auto
  then have "0 < k" "c_count (chunks w2 c) + k < 2 ^ 24" using s by (auto simp: pool_ok_def chunk_capacity_def intro: le_less_trans)
  then have "0 < u32 (c_count (chunks w2 c) + k)" by (simp add: wrap_simps)
  then have "c_ct (chunks w' x) = c_ct (chunks w3 x)" using resize_chunk_ct [OF res] by blast
  then show ?thesis using w1 by (simp add: w3_def w2_def structural_change_simps)
qed

lemma carried_from:
  assumes cs: "castable w h g" and st: "steady w w1 U" "c \<in> U" and r: "row_same w w1 c r" "c_type (chunks w c) = h" and ca: "carried w1 h g c r v d r'"
  shows "carried w h g c r v d r'"
proof -
  have sh: "arch_shape (archs w1 y) = arch_shape (archs w y)" and ctx: "w_ctx w1 = w_ctx w" for y using st(1) by (simp_all add: steady_def)
  note v = arch_shape_views [OF sh]
  have t: "type_at w1 y = type_at w y" for y by (simp add: type_at_def [abs_def] v ctx)
  have k: "same_kind (archs w1 h) i (archs w1 g) j = same_kind (archs w h) i (archs w g) j" for i j by (simp add: same_kind_def v)
  have row: "row_byte w1 c i r b = row_byte w c i r b" if "same_kind (archs w h) i (archs w g) j" "type_at w h i = type_at w g j" "b < sizes (archs w g) ! j" for i j b
  proof -
    have "i < firstTag (archs w h)" "sizes (archs w h) ! i = sizes (archs w g) ! j"
      using that cs by (auto simp: castable_def columns_disjoint_def same_kind_def)
    then show ?thesis using r that(3) by (simp add: row_same_def chunk_arch_def)
  qed
  show ?thesis
    using ca row r(1) unfolding carried_def Let_def t k arch_index_def ctx v row_same_def by auto
qed

lemma carried_to:
  assumes cs: "castable w h g" and sh: "arch_shape (archs w2 g) = arch_shape (archs w g)" and r: "row_same w2 v d r'" "c_type (chunks w2 d) = g"
    and ca: "carried w h g c r w2 d r'"
  shows "carried w h g c r v d r'"
proof -
  have row: "row_byte v d j r' b = row_byte w2 d j r' b" if "j < firstTag (archs w g)" "b < sizes (archs w g) ! j" for j b
    using r that arch_shape_views [OF sh] by (simp add: row_same_def chunk_arch_def)
  have k: "same_kind (archs w h) i (archs w g) j \<Longrightarrow> j < firstTag (archs w g)" "j < firstBuffer (archs w g) \<Longrightarrow> j < firstTag (archs w g)" for i j
    using cs by (auto simp: castable_def columns_disjoint_def same_kind_def)
  show ?thesis using ca row k r(1) unfolding carried_def Let_def row_same_def by auto
qed

text \<open>The \<open>m\<close> rows of chunk \<open>c\<close> from \<open>i0\<close> on have been carried to the \<open>rows\<close> of other chunks, and
  every other live row stays.\<close>

definition casted :: "world \<Rightarrow> ptr \<Rightarrow> ptr \<Rightarrow> ptr \<Rightarrow> nat \<Rightarrow> nat \<Rightarrow> (ptr \<times> nat) list \<Rightarrow> world \<Rightarrow> (ptr \<times> nat) set \<Rightarrow> ptr set \<Rightarrow> bool" where
  "casted w h g c i0 m rows w' L U \<longleftrightarrow> distinct rows \<and> length rows = m \<and> set rows \<inter> L = {} \<and> (\<forall>(d, r) \<in> set rows. d \<noteq> c \<and> c_type (chunks w' d) = g)
     \<and> (\<forall>i < m. carried w h g c (i0 + i) w' (fst (rows ! i)) (snd (rows ! i)))
     \<and> (\<forall>(x, r) \<in> L - {c} \<times> {i0..<i0 + m}. row_same w w' x r) \<and> steady w w' U \<and> entity_exist w' = entity_exist w
     \<and> c_count (chunks w' c) = c_count (chunks w c)"

lemma castedD:
  assumes "casted w h g c i0 m rows w' L U"
  shows "distinct rows" "length rows = m" "set rows \<inter> L = {}" "(d, r) \<in> set rows \<Longrightarrow> d \<noteq> c" "(d, r) \<in> set rows \<Longrightarrow> c_type (chunks w' d) = g"
    "i < m \<Longrightarrow> carried w h g c (i0 + i) w' (fst (rows ! i)) (snd (rows ! i))"
    "(x, r) \<in> L \<Longrightarrow> (x, r) \<notin> {c} \<times> {i0..<i0 + m} \<Longrightarrow> row_same w w' x r" "steady w w' U" "entity_exist w' = entity_exist w"
    "c_count (chunks w' c) = c_count (chunks w c)"
proof -
  show "distinct rows" "length rows = m" "set rows \<inter> L = {}" "steady w w' U" "entity_exist w' = entity_exist w"
    "c_count (chunks w' c) = c_count (chunks w c)"
    "i < m \<Longrightarrow> carried w h g c (i0 + i) w' (fst (rows ! i)) (snd (rows ! i))"
    using assms unfolding casted_def by simp_all
  have "\<forall>p \<in> set rows. fst p \<noteq> c \<and> c_type (chunks w' (fst p)) = g" "\<forall>p \<in> L - {c} \<times> {i0..<i0 + m}. row_same w w' (fst p) (snd p)"
    using assms unfolding casted_def case_prod_beta by simp_all
  then show "(d, r) \<in> set rows \<Longrightarrow> d \<noteq> c" "(d, r) \<in> set rows \<Longrightarrow> c_type (chunks w' d) = g"
    "(x, r) \<in> L \<Longrightarrow> (x, r) \<notin> {c} \<times> {i0..<i0 + m} \<Longrightarrow> row_same w w' x r"
    by (metis DiffI fst_conv snd_conv)+
qed

lemma casted_append:
  assumes a: "casted w h g c i0 m rows w2 L U" and b: "casted w2 h g c (i0 + m) m' rows' w' (L - {c} \<times> {i0..<i0 + m} \<union> set rows) U2"
    and U: "U \<subseteq> U2" "c \<in> U" "fst ` L \<subseteq> U" "fst ` set rows \<subseteq> U2" and cs: "castable w h g" and c: "c_type (chunks w c) = h"
    and L: "{c} \<times> {i0..<i0 + m + m'} \<subseteq> L"
  shows "casted w h g c i0 (m + m') (rows @ rows') w' L U"
proof -
  let ?L = "L - {c} \<times> {i0..<i0 + m} \<union> set rows"
  note A = castedD [OF a] and B = castedD [OF b]
  have st': "steady w w' U" by (rule steady_trans [OF A(8) B(8) U(1)])
  have sh: "arch_shape (archs w2 g) = arch_shape (archs w g)" using A(8) by (simp add: steady_def)
  have new: "row_same w2 w' d r" if "(d, r) \<in> set rows" for d r by (rule B(7)) (use A(4) [OF that] that in auto)
  have type: "c_type (chunks w' d) = g" if "(d, r) \<in> set rows" for d r
    using A(5) [OF that] B(8) U(4) that by (force simp: steady_def)
  have "(d, r) \<notin> L" if "(d, r) \<in> set rows'" for d r using B(3) B(4) [OF that] that by auto
  then have new': "(set rows \<union> set rows') \<inter> L = {}" "set rows \<inter> set rows' = {}" using A(3) B(3) by auto
  have car: "carried w h g c (i0 + i) w' (fst ((rows @ rows') ! i)) (snd ((rows @ rows') ! i))" if "i < m + m'" for i
  proof (cases "i < m")
    case True
    then have mem: "(fst (rows ! i), snd (rows ! i)) \<in> set rows" using A(2) by simp
    from carried_to [OF cs sh new [OF mem] A(5) [OF mem] A(6) [OF True]] show ?thesis using True A(2) by (simp add: nth_append)
  next
    case False
    then obtain j where i: "i = m + j" using le_Suc_ex [of m i] by auto
    then have j: "i = m + j" "j < m'" using that by simp_all
    then have "(c, i0 + i) \<in> L" "(c, i0 + i) \<notin> {c} \<times> {i0..<i0 + m}" using L by auto
    from A(7) [OF this] have "row_same w w2 c (i0 + i)" .
    moreover have "carried w2 h g c (i0 + i) w' (fst (rows' ! j)) (snd (rows' ! j))" using B(6) [OF j(2)] j by (simp add: add.assoc)
    ultimately show ?thesis using carried_from [OF cs A(8) U(2) _ c] j A(2) by (simp add: nth_append)
  qed
  have stay: "row_same w w' x r" if "(x, r) \<in> L" "(x, r) \<notin> {c} \<times> {i0..<i0 + (m + m')}" for x r
  proof -
    have "(x, r) \<notin> {c} \<times> {i0..<i0 + m}" "(x, r) \<notin> {c} \<times> {i0 + m..<i0 + m + m'}" "x \<in> U" using that U(3) by force+
    then show ?thesis using row_same_trans [OF A(8) _ A(7) B(7)] that(1) by blast
  qed
  have "\<forall>(x, r) \<in> L - {c} \<times> {i0..<i0 + (m + m')}. row_same w w' x r"
    using stay by (simp only: Ball_def split_paired_All case_prod_conv Diff_iff) blast
  moreover have "\<forall>(d, r) \<in> set (rows @ rows'). d \<noteq> c \<and> c_type (chunks w' d) = g"
    using A(4) B(4,5) type by (simp only: Ball_def split_paired_All case_prod_conv set_append Un_iff) blast
  ultimately show ?thesis using A(1-3,9,10) B(1,2,9,10) new' st' car unfolding casted_def by simp
qed

lemma cast_one:
  assumes cs: "castable w h g" and g: "pool_ok w g full free U L fl" and h: "pool_ok w h hfull hfree U L fl" and ne: "g \<noteq> h"
    and c: "c \<in> set (hfull @ hfree)" and src: "{c} \<times> {i0..<i0 + n} \<subseteq> L" "i0 + n \<le> 2 ^ 16" "0 < n"
  shows "\<exists>s w1 w2 w3 full' free' U'. allocate_slice g n w = Some (s, w1) \<and> chunk_cast s c i0 True w1 = Some w2 \<and> w3 = move_entities s c i0 w2
    \<and> 0 < sl_count s \<and> sl_count s \<le> n \<and> U \<subseteq> U'
    \<and> fst ` set (rows_in s) \<subseteq> set (full' @ free') \<and> set (full @ free) \<subseteq> set (full' @ free')
    \<and> pool_ok w3 g full' free' U' (L - {c} \<times> {i0..<i0 + sl_count s} \<union> set (rows_in s)) fl
    \<and> pool_ok w3 h hfull hfree U' (L - {c} \<times> {i0..<i0 + sl_count s} \<union> set (rows_in s)) fl
    \<and> casted w h g c i0 (sl_count s) (rows_in s) w3 L U \<and> g_size (archs w3 h) = g_size (archs w h)"
proof -
  have n32: "n < 2 ^ 32" using src(2) by simp
  obtain s w1 full' free' U' where a: "allocate_slice g n w = Some (s, w1)" "pool_ok w1 g full' free' U' L fl" "U \<subseteq> U'"
    "0 < sl_count s" "sl_count s \<le> n" "sl_start s + sl_count s = c_count (chunks w1 (sl_c s))" "sl_c s \<in> set (full' @ free')"
    "set (full @ free) \<subseteq> set (full' @ free')" "slice_rows s 0 (sl_count s) \<inter> L = {}" "keeps_rows w w1 U"
    "\<forall>x \<in> U. x \<noteq> sl_c s \<longrightarrow> c_count (chunks w1 x) = c_count (chunks w x)"
    using allocate_slice_ok [OF g src(3) n32] by blast
  let ?m = "sl_count s" and ?d = "sl_c s"
  have ap: "off_list w w1 g (set (full @ free) \<union> - U)" by (rule allocate_slice_apart [OF g src(3) n32 a(1)])
  have hU: "set (hfull @ hfree) \<subseteq> U" using h by (simp add: pool_ok_def)
  have h1: "pool_ok w1 h hfull hfree U' L fl"
    by (rule pool_elsewhere [OF h ap _ _ a(2)]) (use ne pools_disjoint [OF g h ne] hU a(3) in blast)+
  have types: "c_type (chunks w1 x) = c_type (chunks w x)" if "x \<in> U" for x
  proof (cases "x \<in> set (full @ free)")
    case True
    then have "x \<in> set (full' @ free')" using a(8) by blast
    then show ?thesis using True g a(2) unfolding pool_ok_def by simp
  qed (use ap that in \<open>simp add: off_list_def\<close>)
  have st1: "steady w w1 U"
    using types allocate_slice_ct [OF g src(3) n32 a(1)] off_list_shape [OF ap] ap by (simp add: steady_def off_list_def)
  have cU: "c \<in> U" and type: "c_type (chunks w c) = h" "c_type (chunks w1 ?d) = g" using c hU h a(2,7) unfolding pool_ok_def by auto
  have cd: "?d \<noteq> c" using type types [OF cU] ne by auto
  have part: "{c} \<times> {i0..<i0 + ?m} \<subseteq> L" "i0 + ?m \<le> 2 ^ 16" using src a(5) by auto
  have Ls: "L - {c} \<times> {i0..<i0 + ?m} \<union> set (rows_in s) = L - {c} \<times> {i0..<i0 + ?m} \<union> slice_rows s 0 ?m" by (simp only: set_rows_in)
  obtain w2 w3 where b: "chunk_cast s c i0 True w1 = Some w2" "w3 = move_entities s c i0 w2"
    "pool_ok w3 g full' free' U' (L - {c} \<times> {i0..<i0 + ?m} \<union> set (rows_in s)) fl"
    "pool_ok w3 h hfull hfree U' (L - {c} \<times> {i0..<i0 + ?m} \<union> set (rows_in s)) fl"
    "\<forall>r < ?m. carried w1 h g c (i0 + r) w3 ?d (sl_start s + r)" "\<forall>(x, r) \<in> L - {c} \<times> {i0..<i0 + ?m}. row_same w1 w3 x r"
    "same_shape w1 w3" "archs w3 = archs w1" "w_ctx w3 = w_ctx w1" "entity_exist w3 = entity_exist w1"
    using carry_step [OF _ a(2) h1 ne c refl a(7) refl eq_refl [OF a(6)] part a(4) a(9) Ls] cs castable_steady [OF st1] by blast
  have st3: "steady w1 w3 V" for V using b(7-9) by (simp add: steady_def same_shape_def)
  have kept: "row_same w w1 x r" if "x \<in> U" for x r
    by (rule row_same_data [OF st1 that]) (use a(10) that in \<open>simp_all add: keeps_rows_def\<close>)
  have LU: "fst ` L \<subseteq> U" using g by (simp add: pool_ok_def)
  have same: "row_same w w3 x r" if "(x, r) \<in> L - {c} \<times> {i0..<i0 + ?m}" for x r
  proof -
    have x: "x \<in> U" using that LU by force
    show ?thesis using row_same_trans [OF st1 x kept [OF x]] b(6) that by blast
  qed
  have car: "carried w h g c (i0 + r) w3 ?d (sl_start s + r)" if "r < ?m" for r
    using carried_from [OF cs st1 cU kept [OF cU] type(1)] b(5) that by blast
  have rows: "rows_in s = map (\<lambda>i. (?d, sl_start s + i)) [0..<?m]" by (simp add: rows_in_def)
  have "casted w h g c i0 ?m (rows_in s) w3 L U"
    unfolding casted_def
  proof (intro conjI)
    show "distinct (rows_in s)" "length (rows_in s) = ?m" by (simp_all add: rows distinct_map inj_on_def)
    show "set (rows_in s) \<inter> L = {}" using a(9) by (simp add: set_rows_in)
    show "\<forall>(d, r) \<in> set (rows_in s). d \<noteq> c \<and> c_type (chunks w3 d) = g" using cd type(2) b(7) by (simp add: rows same_shape_def)
    show "\<forall>i < ?m. carried w h g c (i0 + i) w3 (fst (rows_in s ! i)) (snd (rows_in s ! i))" using car by (simp add: rows)
    show "\<forall>(x, r) \<in> L - {c} \<times> {i0..<i0 + ?m}. row_same w w3 x r" using same by blast
    show "steady w w3 U" by (rule steady_trans [OF st1 st3 subset_refl])
    show "entity_exist w3 = entity_exist w" using b(10) entity_exist_cong [of w1 w] a(10) by (simp add: keeps_rows_def)
    show "c_count (chunks w3 c) = c_count (chunks w c)" using b(7) a(11) cU cd by (simp add: same_shape_def)
  qed
  moreover have "fst ` set (rows_in s) \<subseteq> set (full' @ free')" using a(7) by (auto simp: rows)
  moreover have "g_size (archs w3 h) = g_size (archs w h)" using b(8) ap ne by (simp add: off_list_def)
  ultimately show ?thesis using a(1,3-5,8) b(1-4) by blast
qed

lemma steady_refl [simp]: "steady w w U"
  by (simp add: steady_def)

lemma casted_nothing: "casted w h g c i0 0 [] w L U"
  by (simp add: casted_def row_same_def)

lemma live_append:
  assumes "\<And>d r. (d, r) \<in> R \<Longrightarrow> d \<noteq> c"
  shows "L - {c} \<times> {a::nat..<a + m} \<union> R - {c} \<times> {a + m..<a + m + m'} \<union> R' = L - {c} \<times> {a..<a + (m + m')} \<union> (R \<union> R')"
  using assms by auto

lemma cast_loop_ok:
  assumes "castable w h g" "pool_ok w g full free U L fl" "pool_ok w h hfull hfree U L fl" "g \<noteq> h" "sl_c src \<in> set (hfull @ hfree)"
    "{sl_c src} \<times> {sl_start src + k..<sl_start src + sl_count src} \<subseteq> L" "sl_start src + sl_count src \<le> 2 ^ 16" "k \<le> sl_count src"
  shows "\<exists>ss w' full' free' U' rows. cast_slice_loop src g k result w = Some (result @ ss, w') \<and> rows = concat (map rows_in ss)
    \<and> casted w h g (sl_c src) (sl_start src + k) (sl_count src - k) rows w' L U
    \<and> pool_ok w' g full' free' U' (L - {sl_c src} \<times> {sl_start src + k..<sl_start src + sl_count src} \<union> set rows) fl
    \<and> pool_ok w' h hfull hfree U' (L - {sl_c src} \<times> {sl_start src + k..<sl_start src + sl_count src} \<union> set rows) fl
    \<and> U \<subseteq> U' \<and> fst ` set rows \<subseteq> set (full' @ free') \<and> set (full @ free) \<subseteq> set (full' @ free') \<and> g_size (archs w' h) = g_size (archs w h)"
  using assms
proof (induction "sl_count src - k" arbitrary: k w full free U L result rule: less_induct)
  case less
  let ?c = "sl_c src" and ?n = "sl_count src" and ?st = "sl_start src"
  show ?case
  proof (cases "k < ?n")
    case False
    then have "k = ?n" using less.prems(8) by simp
    then show ?thesis
      using less.prems(2,3) casted_nothing [of w h g ?c "?st + k" L U]
      by - (rule exI [of _ "[]"], rule exI [of _ w], rule exI [of _ full], rule exI [of _ free], rule exI [of _ U], rule exI [of _ "[]"],
          simp add: cast_slice_loop.simps [of src g ?n])
  next
    case True
    have src: "{?c} \<times> {?st + k..<?st + k + (?n - k)} \<subseteq> L" "?st + k + (?n - k) \<le> 2 ^ 16" "0 < ?n - k" using less.prems(6,7) True by simp_all
    obtain s w1 w2 w3 full1 free1 U1 where a: "allocate_slice g (?n - k) w = Some (s, w1)" "chunk_cast s ?c (?st + k) True w1 = Some w2"
      "w3 = move_entities s ?c (?st + k) w2" "0 < sl_count s" "sl_count s \<le> ?n - k" "U \<subseteq> U1" "fst ` set (rows_in s) \<subseteq> set (full1 @ free1)"
      "set (full @ free) \<subseteq> set (full1 @ free1)"
      "pool_ok w3 g full1 free1 U1 (L - {?c} \<times> {?st + k..<?st + k + sl_count s} \<union> set (rows_in s)) fl"
      "pool_ok w3 h hfull hfree U1 (L - {?c} \<times> {?st + k..<?st + k + sl_count s} \<union> set (rows_in s)) fl"
      "casted w h g ?c (?st + k) (sl_count s) (rows_in s) w3 L U" "g_size (archs w3 h) = g_size (archs w h)"
      using cast_one [OF less.prems(1-5) src] by - (elim exE conjE, rule that, assumption+)
    let ?L = "L - {?c} \<times> {?st + k..<?st + k + sl_count s} \<union> set (rows_in s)" and ?k = "k + sl_count s"
    have dec: "?n - ?k < ?n - k" and le: "?k \<le> ?n" using a(4,5) True by simp_all
    obtain m' where m': "?n = ?k + m'" using le_Suc_ex [OF le] by blast
    have rest: "{?c} \<times> {?st + ?k..<?st + ?n} \<subseteq> ?L" using less.prems(6) by auto
    have cs: "castable w3 h g" using less.prems(1) castable_steady [OF castedD(8) [OF a(11)]] by simp
    obtain ss w' full' free' U' rows where b: "cast_slice_loop src g ?k (result @ [s]) w3 = Some ((result @ [s]) @ ss, w')" "rows = concat (map rows_in ss)"
      "casted w3 h g ?c (?st + ?k) (?n - ?k) rows w' ?L U1"
      "pool_ok w' g full' free' U' (?L - {?c} \<times> {?st + ?k..<?st + ?n} \<union> set rows) fl"
      "pool_ok w' h hfull hfree U' (?L - {?c} \<times> {?st + ?k..<?st + ?n} \<union> set rows) fl"
      "U1 \<subseteq> U'" "fst ` set rows \<subseteq> set (full' @ free')" "set (full1 @ free1) \<subseteq> set (full' @ free')" "g_size (archs w' h) = g_size (archs w3 h)"
      using less.hyps [OF dec cs a(9,10) less.prems(4,5) rest less.prems(7) le, of "result @ [s]"]
      by - (elim exE conjE, rule that, assumption+)
    have L: "?L - {?c} \<times> {?st + ?k..<?st + ?n} \<union> set rows = L - {?c} \<times> {?st + k..<?st + ?n} \<union> set (rows_in s @ rows)"
      using live_append [of "set (rows_in s)" ?c L "?st + k" "sl_count s" m' "set rows"] castedD(4) [OF a(11)] m' by (simp add: add.assoc)
    have cU: "?c \<in> U" "c_type (chunks w ?c) = h" "fst ` L \<subseteq> U" using less.prems(3,5) unfolding pool_ok_def by auto
    have gU: "fst ` set (rows_in s) \<subseteq> U1" using a(7,9) unfolding pool_ok_def by blast
    have "casted w h g ?c (?st + k) (sl_count s + m') (rows_in s @ rows) w' L U"
      by (rule casted_append [OF a(11) _ a(6) cU(1,3) gU less.prems(1) cU(2)]) (use b(3) m' less.prems(6) in \<open>simp_all add: add.assoc\<close>)
    moreover have "cast_slice_loop src g k result w = Some (result @ s # ss, w')"
      using True a(1-3) b(1) by (simp add: cast_slice_loop.simps [of src g k] Let_def)
    ultimately show ?thesis
      using b(2,4-9) a(6-8,12) m' unfolding L
      by - (rule exI [of _ "s # ss"], rule exI [of _ w'], rule exI [of _ full'], rule exI [of _ free'], rule exI [of _ U'], rule exI [of _ "rows_in s @ rows"],
          auto)
  qed
qed

lemma free_slice_ct:
  assumes "free_slice s w = Some w'" "metaCount (archs w (c_type (chunks w (sl_c s)))) = 0"
  shows "c_ct (chunks w' x) = c_ct (chunks w x)"
proof -
  let ?w1 = "take_off (c_type (chunks w (sl_c s))) (sl_c s) (sl_count s) w" let ?w2 = "fill_gap s ?w1"
  have sh: "same_shape w ?w2" by (rule same_shape_trans [OF take_off_frame(1) fill_gap_frame(1)])
  have "metaCount (archs ?w2 (c_type (chunks ?w2 (sl_c s)))) = 0"
    using sh assms(2) by (simp add: same_shape_def fill_gap_frame take_off_frame(4))
  then have "c_ct (chunks w' x) = c_ct (chunks ?w2 x)"
    using assms(1) resize_chunk_ct by (auto simp: free_slice_alt Let_def)
  then show ?thesis using sh by (simp add: same_shape_def)
qed

section \<open>cast as a whole\<close>

text \<open>The release of the rows that have been carried over.\<close>

lemma free_casted:
  assumes cs: "castable w h g" and g: "pool_ok w g full free U L fl" and h: "pool_ok w h hfull hfree U L fl" and ne: "g \<noteq> h"
    and c: "c = sl_c s" "c \<in> set (hfull @ hfree)" "cnt = c_count (chunks w c)" and n: "n = sl_count s" "0 < n" "sl_start s + n \<le> cnt" "cnt \<le> 2 ^ 16"
    and rows: "\<forall>r. (c, r) \<in> L \<longleftrightarrow> r < cnt \<and> \<not> (sl_start s \<le> r \<and> r < sl_start s + n)" and meta: "metaCount (archs w h) = 0"
    and L': "L' = {(d, r) \<in> L. d \<noteq> c} \<union> {c} \<times> {..<cnt - n}"
  shows "\<exists>w' hfull' hfree' U'. free_slice s w = Some w' \<and> pool_ok w' g full free U' L' fl \<and> pool_ok w' h hfull' hfree' U' L' fl
    \<and> (\<forall>r < cnt - n. row_of w' c r = row_of w c (old_row cnt (sl_start s) n r)
        \<and> (\<forall>k < firstTag (archs w h). \<forall>b < sizes (archs w h) ! k. row_byte w' c k r b = row_byte w c k (old_row cnt (sl_start s) n r) b))
    \<and> (\<forall>d r. d \<in> U \<and> d \<noteq> c \<longrightarrow> row_same w w' d r) \<and> steady w w' (U - {c}) \<and> entity_exist w' = entity_exist w
    \<and> g_size (archs w' h) = (if n < cnt then sub32 (g_size (archs w h)) n else sub32 (sub32 (g_size (archs w h)) n) n)"
proof -
  have type: "c_type (chunks w c) = h" using h c(2) by (simp add: pool_ok_def)
  have cols: "columns_disjoint (archs w h) (c_ct (chunks w c))" using cs by (simp add: castable_def)
  obtain w' hfull' hfree' U' where F: "free_slice s w = Some w'" "pool_ok w' h hfull' hfree' U' L' fl"
    "set (hfull' @ hfree') = (if n < cnt then set (hfull @ hfree) else set (hfull @ hfree) - {c})"
    "\<forall>r < cnt - n. row_of w' c r = row_of w c (old_row cnt (sl_start s) n r)
        \<and> (\<forall>k < firstTag (archs w h). \<forall>b < sizes (archs w h) ! k. row_byte w' c k r b = row_byte w c k (old_row cnt (sl_start s) n r) b)"
    "\<forall>d. d \<noteq> c \<longrightarrow> c_ents (chunks w' d) = c_ents (chunks w d) \<and> c_data (chunks w' d) = c_data (chunks w d)"
    "g_size (archs w' h) = (if n < cnt then sub32 (g_size (archs w h)) n else sub32 (sub32 (g_size (archs w h)) n) n)"
    "entity_exist w' = entity_exist w" "U - {c} \<subseteq> U'"
    using free_slice_ok [OF h c n rows refl cols meta, folded L'] by - (elim exE conjE, rule that, assumption+)
  have "arch_chunks w h hfull hfree" using h by (simp add: pool_ok_def)
  then have ap: "off_list w w' h (set (hfull @ hfree))" using free_slice_apart [OF _ _ _ meta F(1)] c type by simp
  have "set (full @ free) \<inter> set (hfull @ hfree) = {}" by (rule pools_disjoint [OF g h ne])
  note dis = this
  have "set (full @ free) \<subseteq> U" using g by (simp add: pool_ok_def)
  then have "set (full @ free) \<subseteq> U'" using dis c(2) F(8) by blast
  then have g': "pool_ok w' g full free U' L' fl" by (rule pool_elsewhere [OF g ap ne dis F(2)])
  have "c_type (chunks w' x) = c_type (chunks w x)" if "x \<noteq> c" for x
  proof (cases "x \<in> set (hfull @ hfree)")
    case True
    then have "x \<in> set (hfull' @ hfree')" using F(3) that by simp
    then show ?thesis using True F(2) h unfolding pool_ok_def by simp
  qed (use ap in \<open>simp add: off_list_def\<close>)
  moreover have "c_ct (chunks w' x) = c_ct (chunks w x)" for x by (rule free_slice_ct [OF F(1)]) (simp add: c(1) [symmetric] type meta)
  ultimately have st: "steady w w' (U - {c})" using off_list_shape [OF ap] ap by (simp add: steady_def off_list_def)
  have "row_same w w' d r" if "d \<in> U" "d \<noteq> c" for d r by (rule row_same_data [OF st]) (use that F(5) in auto)
  then show ?thesis using F(1,2,4,6,7) g' st
    by - (rule exI [of _ w'], rule exI [of _ hfull'], rule exI [of _ hfree'], rule exI [of _ U'], simp)
qed

lemma take_off_casted:
  assumes "fst ` L \<subseteq> U"
  shows "casted w h g c i0 0 [] (take_off h c' n w) L U"
proof -
  note t = take_off_frame [where w = w and g = h and c = c' and n = n]
  have ap: "off_list w (take_off h c' n w) h V" for V unfolding take_off_def by (rule off_list_trans [OF off_list_structural off_list_upd_arch]) simp
  have st: "steady w (take_off h c' n w) V" for V using t(1) off_list_shape [OF ap] ap by (simp add: steady_def same_shape_def off_list_def)
  have "row_same w (take_off h c' n w) x r" if "x \<in> U" for x r
    by (rule row_same_data [OF st that]) (use t(2) [of U] that in \<open>simp_all add: keeps_rows_def\<close>)
  moreover have "fst p \<in> U" if "p \<in> L" for p using assms that by blast
  ultimately have "\<forall>(x, r) \<in> L. row_same w (take_off h c' n w) x r" by (simp add: case_prod_beta)
  moreover have "entity_exist (take_off h c' n w) = entity_exist w" by (rule entity_exist_cong) (use t(2) [of U] in \<open>simp add: keeps_rows_def\<close>)
  moreover have "c_count (chunks (take_off h c' n w) c) = c_count (chunks w c)" using t(1) by (simp add: same_shape_def)
  ultimately show ?thesis using st by (simp add: casted_def)
qed

lemma live_rest:
  assumes "\<And>d r. (d, r) \<in> R \<Longrightarrow> d \<noteq> c"
  shows "{(d, r) \<in> L - {c} \<times> I \<union> R. d \<noteq> c} \<union> {c} \<times> J = {(d, r) \<in> L. d \<noteq> c} \<union> {c} \<times> J \<union> R"
  using assms by auto

text \<open>The rows after the release of the source's rows.\<close>

lemma casted_freed:
  assumes A: "casted w h g c st n rows w2 L U" and cs: "castable w h g" and type: "c_type (chunks w c) = h"
    and n: "cnt = c_count (chunks w c)" "st + n \<le> cnt" and live: "\<forall>r < cnt. (c, r) \<in> L" and L: "fst ` L \<subseteq> U" "U \<subseteq> U2" "fst ` set rows \<subseteq> U2"
    and gap: "\<forall>r < cnt - n. row_of w3 c r = row_of w2 c (old_row cnt st n r)
        \<and> (\<forall>k < firstTag (archs w2 h). \<forall>b < sizes (archs w2 h) ! k. row_byte w3 c k r b = row_byte w2 c k (old_row cnt st n r) b)"
    and kept: "\<forall>d r. d \<in> U2 \<and> d \<noteq> c \<longrightarrow> row_same w2 w3 d r"
  shows "\<forall>i < n. carried w h g c (st + i) w3 (fst (rows ! i)) (snd (rows ! i))" "\<forall>(d, r) \<in> L. d \<noteq> c \<longrightarrow> row_same w w3 d r"
    "\<forall>r < cnt - n. row_of w3 c r = row_of w c (old_row cnt st n r)
        \<and> (\<forall>k < firstTag (archs w h). \<forall>b < sizes (archs w h) ! k. row_byte w3 c k r b = row_byte w c k (old_row cnt st n r) b)"
proof -
  note D = castedD [OF A]
  have sh: "arch_shape (archs w2 y) = arch_shape (archs w y)" for y using D(8) by (simp add: steady_def)
  show "\<forall>i < n. carried w h g c (st + i) w3 (fst (rows ! i)) (snd (rows ! i))"
  proof (intro allI impI)
    fix i assume i: "i < n"
    then have mem: "(fst (rows ! i), snd (rows ! i)) \<in> set rows" using D(2) by simp
    then have "row_same w2 w3 (fst (rows ! i)) (snd (rows ! i))" using kept D(4) [OF mem] L(3) by force
    then show "carried w h g c (st + i) w3 (fst (rows ! i)) (snd (rows ! i))"
      by (rule carried_to [OF cs sh _ D(5) [OF mem] D(6) [OF i]])
  qed
  have same: "row_same w w3 d r" if "(d, r) \<in> L" "d \<noteq> c" for d r
  proof -
    have d: "d \<in> U" "d \<in> U2" "(d, r) \<notin> {c} \<times> {st..<st + n}" using that L by force+
    then show ?thesis using row_same_trans [OF D(8) d(1) D(7) [OF that(1) d(3)]] kept that(2) by blast
  qed
  then show "\<forall>(d, r) \<in> L. d \<noteq> c \<longrightarrow> row_same w w3 d r" by blast
  show "\<forall>r < cnt - n. row_of w3 c r = row_of w c (old_row cnt st n r)
      \<and> (\<forall>k < firstTag (archs w h). \<forall>b < sizes (archs w h) ! k. row_byte w3 c k r b = row_byte w c k (old_row cnt st n r) b)"
  proof (intro allI impI)
    fix r assume r: "r < cnt - n"
    let ?o = "old_row cnt st n r"
    have "?o < cnt" "\<not> (st \<le> ?o \<and> ?o < st + n)" using r n(2) by (auto simp: old_row_def Let_def)
    then have "row_same w w2 c ?o" using D(7) live by simp
    then show "row_of w3 c r = row_of w c ?o
        \<and> (\<forall>k < firstTag (archs w h). \<forall>b < sizes (archs w h) ! k. row_byte w3 c k r b = row_byte w c k ?o b)"
      using gap r type arch_shape_views(2,3) [OF sh] by (simp add: row_same_def chunk_arch_def)
  qed
qed


text \<open>The first of the two entities of \<open>duo_world\<close> gets a second component.\<close>

definition cast_world :: world where
  "cast_world = upd_arch 11 (\<lambda>_. zero_archetype\<lparr>componentCount := 2, firstTag := 2, firstManaged := 2, firstBuffer := 2,
     chunkCapacity := (\<lambda>_. 4), g_types := [5, 6], offsets := (\<lambda>_ i. 16 + 32 * i), sizes := [8, 12]\<rparr>) duo_world"

lemma cast_world_simps:
  "archs cast_world 11 = zero_archetype\<lparr>componentCount := 2, firstTag := 2, firstManaged := 2, firstBuffer := 2,
     chunkCapacity := (\<lambda>_. 4), g_types := [5, 6], offsets := (\<lambda>_ i. 16 + 32 * i), sizes := [8, 12]\<rparr>"
  "archs cast_world 9 = zero_archetype\<lparr>firstChunk := 2, lastChunk := 2, firstFree := 2, componentCount := 1, firstTag := 1,
     firstManaged := 1, firstBuffer := 1, chunkCapacity := (\<lambda>_. 4), g_size := 2, g_types := [5], offsets := (\<lambda>_ _. 16), sizes := [8]\<rparr>"
  "c_count (chunks cast_world 2) = 2" "c_type (chunks cast_world 2) = 9" "c_ct (chunks cast_world 2) = smallbin"
  "row_of cast_world 2 0 = mk_handle 1 3" "row_of cast_world 2 (Suc 0) = mk_handle 2 4" "w_ctx cast_world = padded_ctx"
  "bytes_of cast_world 2 x = of_nat x"
  by (simp_all add: cast_world_def duo_world_def Let_def blank_memory_def zero_chunk_def row_of_def bytes_of_def)

lemma cast_pools:
  "pool_ok cast_world 9 [] [2] {2} {(2, 0), (2, Suc 0)} []" "pool_ok cast_world 11 [] [] {2} {(2, 0), (2, Suc 0)} []"
proof -
  have t: "tab_inv cast_world {(2, 0), (2, Suc 0)} []" and m: "mem_ok cast_world {2}"
    using duo_pool tab_inv_cong [of cast_world duo_world "{(2, 0), (2, Suc 0)}" "[]"] mem_ok_cong [of cast_world duo_world "{2}"]
    by (simp_all add: pool_ok_def cast_world_def row_of_def)
  have "c_prev (chunks cast_world 2) = 0" "c_next (chunks cast_world 2) = 0"
    by (simp_all add: cast_world_def duo_world_def Let_def zero_chunk_def)
  then show "pool_ok cast_world 9 [] [2] {2} {(2, 0), (2, Suc 0)} []" "pool_ok cast_world 11 [] [] {2} {(2, 0), (2, Suc 0)} []"
    using t m by (auto simp: pool_ok_def cast_world_simps arch_chunks_def arch_list_def chunk_capacity_def zero_archetype_def)
qed

lemma cast_world_index: "arch_index (archs cast_world 9) 3 = InvalidIndex" "arch_index (archs cast_world 11) 3 = InvalidIndex"
  by (simp_all add: cast_world_simps arch_index_def types_index_def lower_bound_def Let_def)

lemma cast_world_castable: "castable cast_world 9 11"
proof -
  have t: "type_at cast_world 9 0 = 5" "type_at cast_world 11 0 = 5" "type_at cast_world 11 (Suc 0) = 6"
    by (simp_all add: type_at_def cast_world_simps padded_valid)
  have "firstBuffer (archs cast_world y) = firstTag (archs cast_world y)" "firstManaged (archs cast_world y) = firstTag (archs cast_world y)"
    if "y = 9 \<or> y = 11" for y using that by (auto simp: cast_world_simps)
  then have a: "components_local (archs cast_world 9)" "components_local (archs cast_world 11)" by (auto simp: components_local_def)
  have b: "increasing_on (type_at cast_world 9) {0..<firstTag (archs cast_world 9)}" "increasing_on (type_at cast_world 11) {0..<firstTag (archs cast_world 11)}"
    using t by (auto simp: increasing_on_def cast_world_simps less_2_cases_iff)
  have c: "columns_disjoint (archs cast_world 9) ct" "columns_disjoint (archs cast_world 11) ct"
    "componentCount (archs cast_world 9) = length (g_types (archs cast_world 9))" "componentCount (archs cast_world 11) = length (g_types (archs cast_world 11))" for ct
    by (auto simp: columns_disjoint_def cast_world_simps less_2_cases_iff)
  have "sizes (archs cast_world 9) ! i = sizes (archs cast_world 11) ! j"
    if "same_kind (archs cast_world 9) i (archs cast_world 11) j" "type_at cast_world 9 i = type_at cast_world 11 j" for i j
    using that t by (auto simp: same_kind_def cast_world_simps less_2_cases_iff)
  then show ?thesis using a b c cast_world_index by (simp add: castable_def cast_world_simps(8) padded_valid Let_def) blast
qed


end
