(* ===== verification/Serial_Rows.thy ===== *)
theory Serial_Rows
  imports Serialize Chunk_Rows
begin

text \<open>
  The serialized form of rows: what \<open>chunk::serialize\<close> writes for a slice is read back by the
  same function into another slice of the same layout.  Buffers that had left their cell get
  blocks of their own.
\<close>

section \<open>Integers and bytes\<close>

lemma bytes_nat_put_int: "bytes_nat (put_int n v) = v mod 256 ^ n"
proof (induction n arbitrary: v)
  case (Suc n)
  have "put_int (Suc n) v = of_nat v # put_int n (v div 256)"
    by (simp add: put_int_def upt_conv_Cons map_Suc_upt [symmetric] div_mult2_eq del: upt_Suc)
  moreover have "v mod (256 * 256 ^ n) = v mod 256 + 256 * (v div 256 mod 256 ^ n)" by (simp add: mod_mult2_eq)
  ultimately show ?case by (simp add: Suc unat_of_nat)
qed (simp add: put_int_def)

lemma length_put_int [simp]: "length (put_int n v) = n"
  by (simp add: put_int_def)

lemma get_bytes_append [simp]: "length xs = n \<Longrightarrow> get_bytes n (xs @ bs) = Some (xs, bs)"
  by (auto simp: get_bytes_def)

lemma get_put_int: "v < 256 ^ n \<Longrightarrow> get_int n (put_int n v @ bs) = Some (v, bs)"
  by (simp add: get_int_def bytes_nat_put_int)

lemma get_list_append:
  assumes "\<And>x bs. x \<in> set xs \<Longrightarrow> f (put x @ bs) = Some (x, bs)"
  shows "get_list f (length xs) (concat (map put xs) @ bs) = Some (xs, bs)"
  using assms by (induction xs) auto

lemma length_mem_bytes [simp]: "length (mem_bytes m a n) = n"
  by (simp add: mem_bytes_def)

section \<open>Loops that may fail\<close>

lemma for_up_opt_inv:
  assumes "P lo s" "lo \<le> hi" "\<And>k s. lo \<le> k \<Longrightarrow> k < hi \<Longrightarrow> P k s \<Longrightarrow> \<exists>s'. f k s = Some s' \<and> P (Suc k) s'"
  shows "\<exists>s'. for_up_opt f lo hi s = Some s' \<and> P hi s'"
  using assms(2,3)
proof (induction hi rule: dec_induct)
  case base
  then show ?case using assms(1) by (simp add: for_up_opt_def)
next
  case (step n)
  then obtain s' where "for_up_opt f lo n s = Some s'" "P n s'" by auto
  moreover from this step(1,4) obtain s'' where "f n s' = Some s''" "P (Suc n) s''" by blast
  ultimately show ?case using step(1) by (simp add: for_up_opt_def)
qed

section \<open>Operations on the bytes of one chunk\<close>

definition only_bytes :: "ptr \<Rightarrow> world \<Rightarrow> world \<Rightarrow> bool" where
  "only_bytes c w w' \<longleftrightarrow> archs w' = archs w \<and> ents w' = ents w \<and> w_ctx w' = w_ctx w
     \<and> (\<forall>x. c_type (chunks w' x) = c_type (chunks w x) \<and> c_ct (chunks w' x) = c_ct (chunks w x)
          \<and> c_ents (chunks w' x) = c_ents (chunks w x) \<and> c_count (chunks w' x) = c_count (chunks w x)
          \<and> c_next (chunks w' x) = c_next (chunks w x) \<and> c_prev (chunks w' x) = c_prev (chunks w x)
          \<and> (x \<noteq> c \<longrightarrow> c_data (chunks w' x) = c_data (chunks w x)))"

lemma only_bytes_refl [simp]: "only_bytes c w w"
  by (simp add: only_bytes_def)

lemma only_bytes_trans: "only_bytes c u v \<Longrightarrow> only_bytes c v w \<Longrightarrow> only_bytes c u w"
  by (simp add: only_bytes_def)

lemma only_bytes_ops [simp]: "only_bytes c w (on_mem c f w)" "only_bytes c w (on_bytes c g w)"
  by (auto simp: only_bytes_def on_mem_def on_bytes_def split: prod.splits)

lemma only_bytes_views:
  assumes "only_bytes c w w'"
  shows "chunk_arch w' x = chunk_arch w x" "cell_addr w' x k i = cell_addr w x k i" "row_of w' = row_of w"
    "archs w' = archs w" "c_ct (chunks w' x) = c_ct (chunks w x)"
  using assms by (auto simp: only_bytes_def chunk_arch_def cell_addr_def row_of_def [abs_def])

section \<open>Columns\<close>

lemma put_mem_in: "a \<le> x \<Longrightarrow> x < a + length xs \<Longrightarrow> put_mem a xs m x = xs ! (x - a)"
  by (simp add: put_mem_def)

lemma put_mem_out: "x < a \<or> a + length xs \<le> x \<Longrightarrow> put_mem a xs m x = m x"
  by (auto simp: put_mem_def)

lemma read_columns:
  assumes c: "c = sl_c t" "a = chunk_arch w c" "n = sl_count t"
    and lay: "columns_disjoint a (c_ct (chunks w c))" "sl_start t + n \<le> chunkCapacity a (c_ct (chunks w c))"
    and len: "\<forall>k < firstTag a. length (col k) = sizes a ! k * n"
  shows "\<exists>w'. for_up_opt (read_column t) 0 (firstTag a) (concat (map col [0..<firstTag a]) @ rest, w) = Some (rest, w')
    \<and> only_bytes c w w' \<and> bheap w' = bheap w
    \<and> (\<forall>k < firstTag a. \<forall>x < sizes a ! k * n. bytes_of w' c (cell_addr w c k (sl_start t) + x) = col k ! x)"
proof -
  let ?at = "\<lambda>k. cell_addr w c k (sl_start t)" and ?F = "firstTag a"
  let ?P = "\<lambda>k (bs, w'). bs = concat (map col [k..<?F]) @ rest \<and> only_bytes c w w' \<and> bheap w' = bheap w
      \<and> (\<forall>l < k. \<forall>x < sizes a ! l * n. bytes_of w' c (?at l + x) = col l ! x)"
  have "\<exists>s'. for_up_opt (read_column t) 0 ?F (concat (map col [0..<?F]) @ rest, w) = Some s' \<and> ?P ?F s'"
  proof (rule for_up_opt_inv [where P = ?P])
    fix k s assume k: "k < ?F" and P: "?P k s"
    obtain bs w1 where s: "s = (bs, w1)" by (cases s)
    have bs: "bs = col k @ (concat (map col [Suc k..<?F]) @ rest)" using P s k by (simp add: upt_conv_Cons)
    have ob: "only_bytes c w w1" "bheap w1 = bheap w" using P s by auto
    note v = only_bytes_views [OF ob(1)]
    let ?w2 = "on_mem c (put_mem (?at k) (col k)) w1"
    have "read_column t k s = Some (concat (map col [Suc k..<?F]) @ rest, ?w2)"
      using len k v c by (simp add: read_column_def s bs Let_def)
    moreover have "bytes_of ?w2 c (?at l + x) = col l ! x" if l: "l < Suc k" and x: "x < sizes a ! l * n" for l x
    proof (cases "l = k")
      case True
      then show ?thesis using len k x by (simp add: put_mem_in)
    next
      case False
      then have "\<not> (?at k \<le> ?at l + x \<and> ?at l + x < ?at k + sizes a ! k * n)"
        using cells_disjoint [OF lay(1), of l k "sl_start t" n "sl_start t" n "?at l + x"] lay(2) l k x c(2)
        by (simp add: cell_addr_def)
      then have "bytes_of ?w2 c (?at l + x) = bytes_of w1 c (?at l + x)" using len k by (auto simp: put_mem_def)
      then show ?thesis using P s l x False by simp
    qed
    ultimately show "\<exists>s'. read_column t k s = Some s' \<and> ?P (Suc k) s'"
      using only_bytes_trans [OF ob(1) only_bytes_ops(1)] ob(2)
      by (intro exI [of _ "(concat (map col [Suc k..<?F]) @ rest, ?w2)"]) simp
  qed simp_all
  then show ?thesis by auto
qed

section \<open>Buffers\<close>

lemma bheap_on_bytes [simp]: "bheap (on_bytes c f w) = snd (f (bytes_of w c, bheap w))"
  by (simp add: on_bytes_def bytes_of_def split: prod.splits)

lemma buf_write_outside:
  "blocks (snd (buf_write b 0 src k (m, h))) p = (if p = buf_d m b \<and> p \<noteq> 0 then memcpy (blocks h p) 0 src 0 k else blocks h p)"
  "x < b \<or> b + sizeof_buffer + k \<le> x \<Longrightarrow> fst (buf_write b 0 src k (m, h)) x = m x"
  "buf_d m b \<noteq> 0 \<Longrightarrow> fst (buf_write b 0 src k (m, h)) = m"
  by (auto simp: buf_write_def memcpy_def sizeof_buffer_def)

text \<open>Reading the contents of one buffer whose header has been read: \<open>sz\<close> is the size of the cell.\<close>

lemma read_buffer_ok:
  assumes m: "m = bytes_of w c" "h = bheap w" and len: "length xs = buf_size m b"
    and nb: "0 < next_block h" "next_block h < 2 ^ 64"
    and inl: "buf_d m b = 0 \<longrightarrow> sizeof_buffer + buf_size m b \<le> sz" "16 \<le> sz"
  shows "\<exists>w'. read_buffer c b (xs @ bs, w) = Some (bs, w') \<and> only_bytes c w w'
    \<and> buf_bytes (bytes_of w' c, bheap w') b = xs \<and> buf_size (bytes_of w' c) b = buf_size m b \<and> buf_capacity (bytes_of w' c) b = buf_capacity m b
    \<and> buf_d (bytes_of w' c) b = (if buf_d m b = 0 then 0 else next_block h)
    \<and> (\<forall>x. x < b \<or> b + sz \<le> x \<longrightarrow> bytes_of w' c x = m x)
    \<and> (\<forall>p. p \<noteq> next_block h \<longrightarrow> blocks (bheap w') p = blocks h p)
    \<and> next_block (bheap w') = (if buf_d m b = 0 then next_block h else Suc (next_block h))"
proof -
  define w1 where "w1 = (if buf_d m b \<noteq> 0
      then on_bytes c (\<lambda>(m, h). let (p, h1) = buffer_malloc h in (set_buf_d b p m, h1)) w else w)"
  define m1 h1 where "m1 = bytes_of w1 c" and "h1 = bheap w1"
  have ob: "only_bytes c w w1" by (simp add: w1_def)
  have m1: "m1 = (if buf_d m b = 0 then m else set_buf_d b (next_block h) m)"
    "h1 = (if buf_d m b = 0 then h else snd (buffer_malloc h))"
    using m by (simp_all add: m1_def h1_def w1_def buffer_malloc_def Let_def)
  have hdr: "buf_d m1 b = (if buf_d m b = 0 then 0 else next_block h)" "buf_size m1 b = buf_size m b"
    "buf_capacity m1 b = buf_capacity m b" "blocks h1 = blocks h" "next_block h1 = (if buf_d m b = 0 then next_block h else Suc (next_block h))"
    using nb by (simp_all add: m1 buffer_malloc_def)
  have out1: "\<forall>x. x < b \<or> b + sz \<le> x \<longrightarrow> m1 x = m x"
    using inl(2) by (auto simp: m1 set_buf_d_def wr_out)
  define w2 where "w2 = on_bytes c (buf_write b 0 (\<lambda>k. xs ! k) (length xs)) w1"
  have read: "read_buffer c b (xs @ bs, w) = Some (bs, w2)"
  proof -
    have "read_buffer c b (xs @ bs, w) = Option.bind (get_bytes (buf_size m1 b) (xs @ bs))
        (\<lambda>(xs, rest). Some (rest, on_bytes c (buf_write b 0 (\<lambda>k. xs ! k) (length xs)) w1))"
      unfolding m1_def w1_def m by (simp add: read_buffer_def Let_def)
    then show ?thesis using len hdr(2) by (simp add: w2_def)
  qed
  have view: "bytes_of w2 c = fst (buf_write b 0 (\<lambda>k. xs ! k) (length xs) (m1, h1))"
    "bheap w2 = snd (buf_write b 0 (\<lambda>k. xs ! k) (length xs) (m1, h1))"
    by (simp_all add: w2_def m1_def h1_def)
  note wf = buf_write_frame [of b 0 "\<lambda>k. xs ! k" "length xs" "(m1, h1)"]
  have "buf_bytes (bytes_of w2 c, bheap w2) b = map (memcpy (buf_data m1 h1 b) 0 (\<lambda>k. xs ! k) 0 (length xs)) [0..<length xs]"
    unfolding buf_bytes_def fst_conv snd_conv view buf_write_data using wf(1) hdr(2) len by simp
  also have "\<dots> = xs" by (rule nth_equalityI) (simp_all add: memcpy_def)
  finally have content: "buf_bytes (bytes_of w2 c, bheap w2) b = xs" .
  have out2: "bytes_of w2 c x = m x" if "x < b \<or> b + sz \<le> x" for x
  proof (cases "buf_d m b = 0")
    case True
    then have "x < b \<or> b + sizeof_buffer + length xs \<le> x" using that inl len by auto
    then show ?thesis using buf_write_outside(2) [of x b] out1 that by (auto simp: view)
  next
    case False
    then show ?thesis using buf_write_outside(3) hdr(1) out1 that nb by (auto simp: view)
  qed
  have "blocks (bheap w2) p = blocks h p" if "p \<noteq> next_block h" for p
    using that hdr(1,4) by (auto simp: view buf_write_outside(1) split: if_splits)
  moreover have "only_bytes c w w2" using ob only_bytes_trans [OF ob] by (simp add: w2_def)
  ultimately show ?thesis
    using read content out2 hdr wf by (intro exI [of _ w2]) (simp add: view)
qed


section \<open>Lists of buffers\<close>

primrec read_cells :: "ptr \<Rightarrow> nat list \<Rightarrow> byte list \<times> world \<Rightarrow> (byte list \<times> world) option" where
  "read_cells c [] bw = Some bw"
| "read_cells c (b # bs) bw = Option.bind (read_buffer c b bw) (read_cells c bs)"

lemma read_cells_append: "read_cells c (as @ bs) bw = Option.bind (read_cells c as bw) (read_cells c bs)"
proof (induction as arbitrary: bw)
  case (Cons a as)
  show ?case by (cases "read_buffer c a bw") (simp_all add: Cons.IH)
qed simp

lemma read_buffer_only: "read_buffer c b bw = Some bw' \<Longrightarrow> only_bytes c (snd bw) (snd bw')"
  by (cases bw) (auto simp: read_buffer_def Let_def bind_eq_Some_conv
      intro: only_bytes_trans [OF only_bytes_ops(2) only_bytes_ops(2)])

lemma read_cells_only: "read_cells c bs bw = Some bw' \<Longrightarrow> only_bytes c (snd bw) (snd bw')"
  by (induction bs arbitrary: bw) (auto simp: bind_eq_Some_conv dest: read_buffer_only intro: only_bytes_trans)

text \<open>A loop whose body reads the cells that the layout names is the list of these cells.\<close>

lemma fold_bind_None [simp]: "fold (\<lambda>k r. Option.bind r (f k)) is None = None"
  by (induction "is") simp_all

lemma loop_read_cells:
  assumes "\<And>i bw'. only_bytes c (snd bw) (snd bw') \<Longrightarrow> f i bw' = read_cells c (A i) bw'"
  shows "for_up_opt f lo hi bw = read_cells c (concat (map A [lo..<hi])) bw"
proof -
  have "fold (\<lambda>k r. Option.bind r (f k)) is (Some bw') = read_cells c (concat (map A is)) bw'"
    if "only_bytes c (snd bw) (snd bw')" for "is" bw'
    using that
  proof (induction "is" arbitrary: bw')
    case (Cons i "is")
    show ?case
    proof (cases "read_cells c (A i) bw'")
      case None
      then show ?thesis using Cons.prems by (simp add: assms read_cells_append)
    next
      case (Some bw2)
      then have "only_bytes c (snd bw) (snd bw2)" using Cons.prems read_cells_only only_bytes_trans by blast
      from Cons.IH [OF this] show ?thesis using Some Cons.prems by (simp add: assms read_cells_append)
    qed
  qed simp
  then show ?thesis by (simp add: for_up_opt_def)
qed

lemma read_cells_single: "read_cells c [b] bw = read_buffer c b bw"
  by (cases "read_buffer c b bw") simp_all

lemma read_buffers_cells:
  assumes "only_bytes c v (snd bw)" "c = sl_c t"
  shows "read_buffers t k bw = read_cells c (map (\<lambda>j. cell_addr v c k (sl_start t + j)) [0..<sl_count t]) bw"
proof -
  have "for_up_opt (\<lambda>j bw. read_buffer c (cell_addr (snd bw) c k (sl_start t + j)) bw) 0 (sl_count t) bw
      = read_cells c (concat (map (\<lambda>j. [cell_addr v c k (sl_start t + j)]) [0..<sl_count t])) bw"
  proof (rule loop_read_cells)
    fix j and bw' :: "byte list \<times> world" assume "only_bytes c (snd bw) (snd bw')"
    then have "cell_addr (snd bw') c k (sl_start t + j) = cell_addr v c k (sl_start t + j)"
      using assms(1) only_bytes_trans only_bytes_views(2) by blast
    then show "read_buffer c (cell_addr (snd bw') c k (sl_start t + j)) bw' = read_cells c [cell_addr v c k (sl_start t + j)] bw'"
      by (simp only: read_cells_single)
  qed
  then show ?thesis by (simp add: read_buffers_def assms(2))
qed

text \<open>Each cell gets its contents when the cells lie apart.\<close>

definition apart :: "nat \<Rightarrow> nat \<Rightarrow> nat \<Rightarrow> nat \<Rightarrow> bool" where
  "apart b sz b' sz' \<longleftrightarrow> b + sz \<le> b' \<or> b' + sz' \<le> b"

definition cell_fits :: "bmem \<Rightarrow> nat \<Rightarrow> nat \<Rightarrow> nat \<Rightarrow> bool" where
  "cell_fits m b sz n \<longleftrightarrow> buf_size m b = n \<and> 16 \<le> sz \<and> (buf_d m b = 0 \<longrightarrow> sizeof_buffer + n \<le> sz)"

lemma cell_shift:
  assumes "\<And>i. i < sz \<Longrightarrow> m' (b' + i) = m (b + i)" "16 \<le> sz"
  shows "buf_d m' b' = buf_d m b" "buf_size m' b' = buf_size m b" "buf_capacity m' b' = buf_capacity m b"
  using assms(1) [of "_ + 8"] assms(1) [of "_ + 10"] assms
  by (auto simp: buf_field_defs add.assoc [symmetric] add.commute add.left_commute intro!: rd_cong)

lemma cell_cong:
  assumes "\<And>x. b \<le> x \<Longrightarrow> x < b + sz \<Longrightarrow> m' x = m x" "16 \<le> sz"
  shows "buf_d m' b = buf_d m b" "buf_size m' b = buf_size m b" "buf_capacity m' b = buf_capacity m b"
  using assms by (auto simp: buf_field_defs intro!: rd_cong)

lemma cell_bytes_cong:
  assumes "\<And>x. b \<le> x \<Longrightarrow> x < b + sz \<Longrightarrow> m' x = m x" "cell_fits m b sz n" "buf_d m b \<noteq> 0 \<longrightarrow> blocks h' (buf_d m b) = blocks h (buf_d m b)"
  shows "buf_bytes (m', h') b = buf_bytes (m, h) b"
  using cell_cong [of b sz m' m] assms by (auto simp: buf_bytes_def buf_data_def cell_fits_def)

lemma read_cells_ok:
  assumes "\<forall>(b, sz, xs) \<in> set cs. cell_fits (bytes_of w c) b sz (length xs)"
    and "sorted_wrt (\<lambda>(b, sz, xs) (b', sz', xs'). apart b sz b' sz') cs"
    and "0 < next_block (bheap w)" "next_block (bheap w) + length cs < 2 ^ 64"
  shows "\<exists>w'. read_cells c (map fst cs) (concat (map (snd \<circ> snd) cs) @ rest, w) = Some (rest, w') \<and> only_bytes c w w'
    \<and> (\<forall>(b, sz, xs) \<in> set cs. buf_bytes (bytes_of w' c, bheap w') b = xs
          \<and> buf_capacity (bytes_of w' c) b = buf_capacity (bytes_of w c) b)
    \<and> (\<forall>x. (\<forall>(b, sz, xs) \<in> set cs. x < b \<or> b + sz \<le> x) \<longrightarrow> bytes_of w' c x = bytes_of w c x)
    \<and> (\<forall>p < next_block (bheap w). blocks (bheap w') p = blocks (bheap w) p)"
  using assms
proof (induction cs arbitrary: w)
  case Nil
  show ?case by (intro exI [of _ w]) simp
next
  case (Cons a cs)
  obtain b sz xs where a: "a = (b, sz, xs)" by (cases a)
  let ?m = "bytes_of w c" and ?h = "bheap w" and ?s = "concat (map (snd \<circ> snd) cs) @ rest"
  have fits: "cell_fits ?m b sz (length xs)" "\<forall>(b', sz', xs') \<in> set cs. cell_fits ?m b' sz' (length xs') \<and> apart b sz b' sz'"
    using Cons.prems(1,2) by (auto simp: a)
  obtain w1 where r1: "read_buffer c b (xs @ ?s, w) = Some (?s, w1)" and o1: "only_bytes c w w1"
    and c1: "buf_bytes (bytes_of w1 c, bheap w1) b = xs" "buf_size (bytes_of w1 c) b = buf_size ?m b"
      "buf_capacity (bytes_of w1 c) b = buf_capacity ?m b" "buf_d (bytes_of w1 c) b = (if buf_d ?m b = 0 then 0 else next_block ?h)"
    and out1: "\<forall>x. x < b \<or> b + sz \<le> x \<longrightarrow> bytes_of w1 c x = ?m x" "\<forall>p. p \<noteq> next_block ?h \<longrightarrow> blocks (bheap w1) p = blocks ?h p"
    and nb1: "next_block (bheap w1) = (if buf_d ?m b = 0 then next_block ?h else Suc (next_block ?h))"
    using read_buffer_ok [of ?m w c ?h xs b sz ?s] fits(1) Cons.prems(3,4) by (auto simp: cell_fits_def)
  have same: "cell_fits (bytes_of w1 c) b' sz' n = cell_fits ?m b' sz' n \<and> buf_capacity (bytes_of w1 c) b' = buf_capacity ?m b'"
    if "(b', sz', xs') \<in> set cs" for b' sz' xs' n
    using fits(2) that out1(1) cell_cong [of b' sz' "bytes_of w1 c" ?m]
    by (fastforce simp: apart_def cell_fits_def)
  have "\<forall>(b', sz', xs') \<in> set cs. cell_fits (bytes_of w1 c) b' sz' (length xs')" using same fits(2) by fastforce
  moreover have "sorted_wrt (\<lambda>(b, sz, xs) (b', sz', xs'). apart b sz b' sz') cs" using Cons.prems(2) by simp
  moreover have "0 < next_block (bheap w1)" "next_block (bheap w1) + length cs < 2 ^ 64" using Cons.prems(3,4) nb1 by (auto split: if_splits)
  ultimately obtain w2 where r2: "read_cells c (map fst cs) (?s, w1) = Some (rest, w2)" and o2: "only_bytes c w1 w2"
    and c2: "\<forall>(b, sz, xs) \<in> set cs. buf_bytes (bytes_of w2 c, bheap w2) b = xs
          \<and> buf_capacity (bytes_of w2 c) b = buf_capacity (bytes_of w1 c) b"
    and out2: "\<forall>x. (\<forall>(b, sz, xs) \<in> set cs. x < b \<or> b + sz \<le> x) \<longrightarrow> bytes_of w2 c x = bytes_of w1 c x"
      "\<forall>p < next_block (bheap w1). blocks (bheap w2) p = blocks (bheap w1) p"
    using Cons.IH [of w1] by blast
  have in_b: "bytes_of w2 c x = bytes_of w1 c x" if "b \<le> x" "x < b + sz" for x
  proof -
    have "\<forall>(b', sz', xs') \<in> set cs. x < b' \<or> b' + sz' \<le> x" using fits(2) that by (fastforce simp: apart_def)
    then show ?thesis using out2(1) by blast
  qed
  have fits1: "cell_fits (bytes_of w1 c) b sz (length xs)" using fits(1) c1 Cons.prems(3) by (auto simp: cell_fits_def split: if_splits)
  have "buf_bytes (bytes_of w2 c, bheap w2) b = xs"
    using cell_bytes_cong [of b sz "bytes_of w2 c" "bytes_of w1 c" "length xs" "bheap w2" "bheap w1", OF in_b fits1] out2(2) c1(1,4) nb1
    by (auto split: if_splits)
  moreover have "buf_capacity (bytes_of w2 c) b = buf_capacity ?m b"
    using cell_cong(3) [of b sz "bytes_of w2 c" "bytes_of w1 c", OF in_b] fits(1) c1(3) by (simp add: cell_fits_def)
  moreover have "\<forall>p < next_block ?h. blocks (bheap w2) p = blocks ?h p" using out1(2) out2(2) nb1 by simp
  moreover have "\<forall>x. (\<forall>(b, sz, xs) \<in> set (a # cs). x < b \<or> b + sz \<le> x) \<longrightarrow> bytes_of w2 c x = ?m x" using out1(1) out2(1) by (auto simp: a)
  moreover have "\<forall>(b, sz, xs) \<in> set cs. buf_bytes (bytes_of w2 c, bheap w2) b = xs \<and> buf_capacity (bytes_of w2 c) b = buf_capacity ?m b"
    using c2 same by fastforce
  moreover have "read_cells c (map fst (a # cs)) (concat (map (snd \<circ> snd) (a # cs)) @ rest, w) = Some (rest, w2)"
    using r1 r2 by (simp add: a)
  ultimately show ?case using only_bytes_trans [OF o1 o2] by (intro exI [of _ w2]) (simp add: a comp_def)
qed


lemma sorted_wrt_apart:
  "distinct xs \<Longrightarrow> (\<And>p q. p \<in> set xs \<Longrightarrow> q \<in> set xs \<Longrightarrow> p \<noteq> q \<Longrightarrow> R p q) \<Longrightarrow> sorted_wrt R xs"
  by (induction xs) auto

lemma concat_product: "concat (map (\<lambda>k. map (f k) ys) xs) = map (\<lambda>(k, y). f k y) (List.product xs ys)"
  by (induction xs) (simp_all add: comp_def)

lemma concat_product2: "concat (map (\<lambda>(k, y). f k y) (List.product xs ys)) = concat (map (\<lambda>k. concat (map (f k) ys)) xs)"
  by (induction xs) (simp_all add: comp_def)

lemma cells_apart:
  assumes lay: "columns_disjoint a ct" "k < firstTag a" "l < firstTag a"
    and r: "i < chunkCapacity a ct" "j < chunkCapacity a ct" and ne: "(k, i) \<noteq> (l, j)"
  shows "apart (col_addr a ct k i) (sizes a ! k) (col_addr a ct l j) (sizes a ! l)"
proof (cases "k = l")
  case True
  then have "i < j \<or> j < i" using ne by auto
  then show ?thesis using mult_le_mono2 [of "Suc i" j "sizes a ! k"] mult_le_mono2 [of "Suc j" i "sizes a ! k"] True
    by (auto simp: apart_def col_addr_def)
next
  case False
  have "sizes a ! k * Suc i \<le> sizes a ! k * chunkCapacity a ct" "sizes a ! l * Suc j \<le> sizes a ! l * chunkCapacity a ct"
    using r by (simp_all add: Suc_leI del: mult_Suc_right)
  then show ?thesis using lay False unfolding columns_disjoint_def apart_def col_addr_def by fastforce
qed

section \<open>The entities of the slice\<close>

lemma read_entities_ok:
  assumes "\<forall>j < n. es j < 2 ^ 32" "sl_count t = n" "c = sl_c t"
  shows "\<exists>v'. read_entities t (concat (map (\<lambda>j. put_int 4 (es j)) [0..<n]) @ rest, v) = Some (rest, v')
    \<and> archs v' = archs v \<and> bheap v' = bheap v \<and> bytes_of v' = bytes_of v \<and> chunk_arch v' = chunk_arch v
    \<and> c_ct (chunks v' c) = c_ct (chunks v c) \<and> cell_addr v' = cell_addr v
    \<and> (\<forall>j < n. row_of v' c (sl_start t + j) = es j)"
proof -
  have "get_list (get_int 4) (length (map es [0..<n])) (concat (map (put_int 4) (map es [0..<n])) @ rest) = Some (map es [0..<n], rest)"
    using assms(1) by (intro get_list_append get_put_int) auto
  then have "read_entities t (concat (map (\<lambda>j. put_int 4 (es j)) [0..<n]) @ rest, v)
      = Some (rest, copy_rows c (sl_start t) ((!) (map es [0..<n])) 0 n v)"
    by (simp add: read_entities_def assms(2,3) comp_def)
  then show ?thesis
    by (intro exI [of _ "copy_rows c (sl_start t) ((!) (map es [0..<n])) 0 n v"])
      (auto simp: copy_rows_def upd_chunk_def bytes_of_def [abs_def] chunk_arch_def [abs_def] cell_addr_def [abs_def] row_of_def fun_eq_iff)
qed


section \<open>Round trip of a slice\<close>

lemma write_buffers_bytes:
  assumes "c = sl_c s"
  shows "write_buffers w s = (\<lambda>k. concat (map (\<lambda>j. buf_bytes (bytes_of w c, bheap w) (cell_addr w c k (sl_start s + j))) [0..<sl_count s]))"
  by (rule ext) (simp add: write_buffers_def buf_bytes_def assms Let_def)

text \<open>The cells of the buffer columns \<open>lo\<close> to \<open>hi\<close> of a slice and the contents they are to get.\<close>

definition slice_cells :: "world \<Rightarrow> chunk_slice \<Rightarrow> nat \<Rightarrow> nat \<Rightarrow> (nat \<Rightarrow> nat \<Rightarrow> byte list) \<Rightarrow> (nat \<times> nat \<times> byte list) list" where
  "slice_cells v t lo hi X = map (\<lambda>(k, j). (cell_addr v (sl_c t) k (sl_start t + j), sizes (chunk_arch v (sl_c t)) ! k, X k j))
     (List.product [lo..<hi] [0..<sl_count t])"

lemma slice_cells_maps:
  "map fst (slice_cells v t lo hi X) = concat (map (\<lambda>k. map (\<lambda>j. cell_addr v (sl_c t) k (sl_start t + j)) [0..<sl_count t]) [lo..<hi])"
  "concat (map (snd \<circ> snd) (slice_cells v t lo hi X)) = concat (map (\<lambda>k. concat (map (X k) [0..<sl_count t])) [lo..<hi])"
  "length (slice_cells v t lo hi X) = (hi - lo) * sl_count t"
  by (simp_all add: slice_cells_def concat_product concat_product2 [symmetric] comp_def case_prod_unfold)

lemma slice_cells_apart:
  assumes "a = chunk_arch v (sl_c t)" "columns_disjoint a (c_ct (chunks v (sl_c t)))" "hi \<le> firstTag a"
    "sl_start t + sl_count t \<le> chunkCapacity a (c_ct (chunks v (sl_c t)))"
  shows "sorted_wrt (\<lambda>(b, sz, xs) (b', sz', xs'). apart b sz b' sz') (slice_cells v t lo hi X)"
proof -
  have "sorted_wrt (\<lambda>(k, i) (l, j). apart (cell_addr v (sl_c t) k (sl_start t + i)) (sizes a ! k)
      (cell_addr v (sl_c t) l (sl_start t + j)) (sizes a ! l)) (List.product [lo..<hi] [0..<sl_count t])"
    using assms by (intro sorted_wrt_apart) (auto simp: distinct_product cell_addr_def intro!: cells_apart)
  then show ?thesis by (simp add: slice_cells_def sorted_wrt_map case_prod_unfold assms(1))
qed


text \<open>The buffer columns of a slice: what \<open>X\<close> holds for each cell is read into it, the other columns
  stay.\<close>

lemma read_buffer_columns:
  assumes t: "d = sl_c t" "b = chunk_arch v d" "sl_count t = n" "only_bytes d v v2"
    and lay: "columns_disjoint b (c_ct (chunks v d))" "sl_start t + n \<le> chunkCapacity b (c_ct (chunks v d))"
    and to: "to = (\<lambda>k j. cell_addr v d k (sl_start t + j))" and bufs: "lo = firstBuffer b" "hi = firstManaged b"
    and fits: "\<And>k j. lo \<le> k \<Longrightarrow> k < hi \<Longrightarrow> j < n \<Longrightarrow> cell_fits (bytes_of v2 d) (to k j) (sizes b ! k) (length (X k j))"
    and nb: "0 < next_block (bheap v2)" "next_block (bheap v2) + (hi - lo) * n < 2 ^ 64"
  shows "\<exists>v3. for_up_opt (read_buffers t) lo hi (concat (map (\<lambda>k. concat (map (X k) [0..<n])) [lo..<hi]) @ rest, v2) = Some (rest, v3)
    \<and> only_bytes d v2 v3
    \<and> (\<forall>k j. lo \<le> k \<and> k < hi \<and> j < n \<longrightarrow> buf_bytes (bytes_of v3 d, bheap v3) (to k j) = X k j
          \<and> buf_capacity (bytes_of v3 d) (to k j) = buf_capacity (bytes_of v2 d) (to k j))
    \<and> (\<forall>k j x. k < firstTag b \<and> \<not> (lo \<le> k \<and> k < hi) \<and> j < n \<and> x < sizes b ! k \<longrightarrow>
          bytes_of v3 d (to k j + x) = bytes_of v2 d (to k j + x))"
proof -
  let ?cs = "slice_cells v t lo hi X"
  have cs: "?cs = map (\<lambda>(k, j). (to k j, sizes b ! k, X k j)) (List.product [lo..<hi] [0..<n])"
    by (simp add: slice_cells_def t(1) [symmetric] t(2) [symmetric] t(3) to)
  have mem: "(\<forall>e \<in> set ?cs. P e) \<longleftrightarrow> (\<forall>k j. lo \<le> k \<and> k < hi \<and> j < n \<longrightarrow> P (to k j, sizes b ! k, X k j))" for P
    by (auto simp: cs)
  have loop: "for_up_opt (read_buffers t) lo hi (bs, v2) = read_cells d (map fst ?cs) (bs, v2)" for bs
    unfolding slice_cells_maps
  proof (rule loop_read_cells)
    fix k and bw' :: "byte list \<times> world" assume "only_bytes d (snd (bs, v2)) (snd bw')"
    then have "only_bytes d v (snd bw')" using t(4) only_bytes_trans by simp
    then show "read_buffers t k bw' = read_cells d (map (\<lambda>j. cell_addr v (sl_c t) k (sl_start t + j)) [0..<sl_count t]) bw'"
      using read_buffers_cells [of d v bw' t k] by (simp add: t(1))
  qed
  have "\<forall>(z, sz, xs) \<in> set ?cs. cell_fits (bytes_of v2 d) z sz (length xs)" unfolding mem using fits by simp
  moreover have "sorted_wrt (\<lambda>(b, sz, xs) (b', sz', xs'). apart b sz b' sz') ?cs"
    using lay t bufs by (intro slice_cells_apart [of b]) (auto simp: columns_disjoint_def)
  ultimately obtain v3 where r: "read_cells d (map fst ?cs) (concat (map (snd \<circ> snd) ?cs) @ rest, v2) = Some (rest, v3)" "only_bytes d v2 v3"
    and X: "\<forall>(z, sz, xs) \<in> set ?cs. buf_bytes (bytes_of v3 d, bheap v3) z = xs \<and> buf_capacity (bytes_of v3 d) z = buf_capacity (bytes_of v2 d) z"
    and out: "\<forall>x. (\<forall>(z, sz, xs) \<in> set ?cs. x < z \<or> z + sz \<le> x) \<longrightarrow> bytes_of v3 d x = bytes_of v2 d x"
    using read_cells_ok [of ?cs v2 d rest] nb by (auto simp: slice_cells_maps(3) t(3))
  have "bytes_of v3 d (to k j + x) = bytes_of v2 d (to k j + x)"
    if k: "k < firstTag b" "\<not> (lo \<le> k \<and> k < hi)" and j: "j < n" "x < sizes b ! k" for k j x
  proof -
    have "to k j + x < to l i \<or> to l i + sizes b ! l \<le> to k j + x" if l: "lo \<le> l" "l < hi" "i < n" for l i
    proof -
      have "l < firstTag b" using lay(1) bufs l by (simp add: columns_disjoint_def)
      then have "apart (to k j) (sizes b ! k) (to l i) (sizes b ! l)"
        using cells_apart [OF lay(1), of k l "sl_start t + j" "sl_start t + i"] l k j lay(2)
        by (auto simp: to cell_addr_def t(2) [symmetric])
      then show ?thesis using j(2) by (auto simp: apart_def)
    qed
    then show ?thesis using out by (simp add: mem)
  qed
  moreover have "\<forall>k j. lo \<le> k \<and> k < hi \<and> j < n \<longrightarrow> buf_bytes (bytes_of v3 d, bheap v3) (to k j) = X k j
      \<and> buf_capacity (bytes_of v3 d) (to k j) = buf_capacity (bytes_of v2 d) (to k j)"
    using X by (simp add: mem)
  ultimately show ?thesis using r by (intro exI [of _ v3]) (simp add: loop slice_cells_maps(2) t(3))
qed

text \<open>C6. Round trip of rows.  What \<open>chunk::serialize\<close> writes for a slice is read back by it into any
  slice of a chunk with the same layout: all of it and nothing more is taken from the stream, the
  entities (when written), every column of plain and of managed data and the contents and capacity
  of every buffer, wherever its bytes live, are those of the written slice.\<close>

theorem chunk_roundtrip:
  assumes src: "c = sl_c s" "a = chunk_arch w c" "n = sl_count s"
    and dst: "d = sl_c t" "b = chunk_arch v d" "sl_count t = n"
    and same: "firstTag b = firstTag a" "firstBuffer b = firstBuffer a" "firstManaged b = firstManaged a" "sizes b = sizes a"
    and lay: "columns_disjoint b (c_ct (chunks v d))" "sl_start t + n \<le> chunkCapacity b (c_ct (chunks v d))"
    and hnd: "\<forall>j < n. row_of w c (sl_start s + j) < 2 ^ 32"
    and fits: "\<forall>k j. firstBuffer a \<le> k \<and> k < firstManaged a \<and> j < n \<longrightarrow>
        cell_fits (bytes_of w c) (cell_addr w c k (sl_start s + j)) (sizes a ! k)
          (buf_size (bytes_of w c) (cell_addr w c k (sl_start s + j)))"
    and nb: "0 < next_block (bheap v)" "next_block (bheap v) + (firstManaged a - firstBuffer a) * n < 2 ^ 64"
  shows "\<exists>v'. chunk_read t ent (chunk_write w s ent @ rest, v) = Some (rest, v')
    \<and> (\<forall>j < n. ent \<longrightarrow> row_of v' d (sl_start t + j) = row_of w c (sl_start s + j))
    \<and> (\<forall>k j x. k < firstTag a \<and> \<not> (firstBuffer a \<le> k \<and> k < firstManaged a) \<and> j < n \<and> x < sizes a ! k \<longrightarrow>
          row_byte v' d k (sl_start t + j) x = row_byte w c k (sl_start s + j) x)
    \<and> (\<forall>k j. firstBuffer a \<le> k \<and> k < firstManaged a \<and> j < n \<longrightarrow>
          buf_bytes (bytes_of v' d, bheap v') (cell_addr v d k (sl_start t + j))
            = buf_bytes (bytes_of w c, bheap w) (cell_addr w c k (sl_start s + j))
        \<and> buf_capacity (bytes_of v' d) (cell_addr v d k (sl_start t + j))
            = buf_capacity (bytes_of w c) (cell_addr w c k (sl_start s + j)))"
proof -
  let ?m = "bytes_of w c" and ?F = "firstTag a" and ?lo = "firstBuffer a" and ?hi = "firstManaged a"
  let ?at = "\<lambda>k j. cell_addr w c k (sl_start s + j)" and ?to = "\<lambda>k j. cell_addr v d k (sl_start t + j)"
  define col where "col = (\<lambda>k. mem_bytes ?m (cell_addr w c k (sl_start s)) (sizes a ! k * n))"
  define X where "X = (\<lambda>k j. buf_bytes (?m, bheap w) (?at k j))"
  define s2 where "s2 = concat (map (\<lambda>k. concat (map (X k) [0..<n])) [?lo..<?hi]) @ rest"
  define s1 where "s1 = concat (map col [0..<?F]) @ s2"
  have stream: "chunk_write w s ent @ rest
      = (if ent then concat (map (\<lambda>j. put_int 4 (row_of w c (sl_start s + j))) [0..<n]) else []) @ s1"
    by (simp add: chunk_write_def write_buffers_bytes [OF src(1)] Let_def src(2,3) col_def s1_def s2_def X_def row_of_def)
       (simp add: src)
  obtain v1 where e: "(if ent then read_entities t (chunk_write w s ent @ rest, v) else Some (chunk_write w s ent @ rest, v)) = Some (s1, v1)"
    and v1: "bheap v1 = bheap v" "chunk_arch v1 d = b" "c_ct (chunks v1 d) = c_ct (chunks v d)" "cell_addr v1 = cell_addr v"
    and rows: "\<forall>j < n. ent \<longrightarrow> row_of v1 d (sl_start t + j) = row_of w c (sl_start s + j)"
  proof (cases ent)
    case True
    with stream have "chunk_write w s ent @ rest = concat (map (\<lambda>j. put_int 4 (row_of w c (sl_start s + j))) [0..<n]) @ s1" by simp
    then show thesis using that True read_entities_ok [OF hnd dst(3,1), of s1 v] by (auto simp: dst(2))
  next
    case False
    then have "chunk_write w s ent @ rest = s1" using stream by simp
    then show thesis using that [of v] False by (simp add: dst(2))
  qed
  obtain v2 where c: "for_up_opt (read_column t) 0 ?F (s1, v1) = Some (s2, v2)" "only_bytes d v1 v2" "bheap v2 = bheap v1"
    and cols: "\<forall>k < ?F. \<forall>x < sizes a ! k * n. bytes_of v2 d (cell_addr v d k (sl_start t) + x) = col k ! x"
    using read_columns [of d t b v1 n col s2] dst same lay v1 by (auto simp: col_def s1_def)
  have cell: "bytes_of v2 d (?to k j + y) = ?m (?at k j + y)" if "k < ?F" "j < n" "y < sizes a ! k" for k j y
  proof -
    have "sizes a ! k * j + y < sizes a ! k * n" using row_in_slice(2) [of 0 j n y "sizes a ! k" 0] that by simp
    then have "bytes_of v2 d (cell_addr v d k (sl_start t) + (sizes a ! k * j + y)) = col k ! (sizes a ! k * j + y)"
      using cols that(1) by blast
    then show ?thesis using \<open>sizes a ! k * j + y < _\<close>
      by (simp add: col_def mem_bytes_def cell_addr_def col_addr_def src(2) dst(2) [symmetric] same distrib_left add.assoc)
  qed
  have hdr: "buf_d (bytes_of v2 d) (?to k j) = buf_d ?m (?at k j) \<and> buf_size (bytes_of v2 d) (?to k j) = buf_size ?m (?at k j)
      \<and> buf_capacity (bytes_of v2 d) (?to k j) = buf_capacity ?m (?at k j)"
    if "?lo \<le> k" "k < ?hi" "j < n" for k j
  proof -
    have "k < ?F" "16 \<le> sizes a ! k" using that lay(1) same fits by (auto simp: columns_disjoint_def cell_fits_def)
    then show ?thesis using cell_shift [of "sizes a ! k" "bytes_of v2 d" "?to k j" ?m "?at k j"] cell that by simp
  qed
  have lenX: "length (X k j) = buf_size ?m (?at k j)" for k j by (simp add: X_def buf_bytes_def)
  have "\<exists>v3. for_up_opt (read_buffers t) ?lo ?hi (concat (map (\<lambda>k. concat (map (X k) [0..<n])) [?lo..<?hi]) @ rest, v2) = Some (rest, v3)
    \<and> only_bytes d v2 v3
    \<and> (\<forall>k j. ?lo \<le> k \<and> k < ?hi \<and> j < n \<longrightarrow> buf_bytes (bytes_of v3 d, bheap v3) (?to k j) = X k j
          \<and> buf_capacity (bytes_of v3 d) (?to k j) = buf_capacity (bytes_of v2 d) (?to k j))
    \<and> (\<forall>k j x. k < firstTag b \<and> \<not> (?lo \<le> k \<and> k < ?hi) \<and> j < n \<and> x < sizes b ! k \<longrightarrow>
          bytes_of v3 d (?to k j + x) = bytes_of v2 d (?to k j + x))"
    using lay dst same v1 nb c fits hdr
    by (intro read_buffer_columns [where v = v1 and t = t]) (auto simp: cell_fits_def lenX)
  then obtain v3 where r: "for_up_opt (read_buffers t) ?lo ?hi (s2, v2) = Some (rest, v3)" "only_bytes d v2 v3"
    and bufs: "\<forall>k j. ?lo \<le> k \<and> k < ?hi \<and> j < n \<longrightarrow> buf_bytes (bytes_of v3 d, bheap v3) (?to k j) = X k j
          \<and> buf_capacity (bytes_of v3 d) (?to k j) = buf_capacity (bytes_of v2 d) (?to k j)"
    and out: "\<forall>k j x. k < ?F \<and> \<not> (?lo \<le> k \<and> k < ?hi) \<and> j < n \<and> x < sizes a ! k \<longrightarrow>
          bytes_of v3 d (?to k j + x) = bytes_of v2 d (?to k j + x)"
    unfolding s2_def same by blast
  have o3: "only_bytes d v1 v3" using only_bytes_trans [OF c(2) r(2)] .
  have plain: "row_byte v3 d k (sl_start t + j) x = row_byte w c k (sl_start s + j) x"
    if "k < ?F" "\<not> (?lo \<le> k \<and> k < ?hi)" "j < n" "x < sizes a ! k" for k j x
    using out cell [of k j x] that only_bytes_views [OF o3] v1 by (simp add: row_byte_def)
  have "chunk_read t ent (chunk_write w s ent @ rest, v) = Some (rest, v3)"
    using e c(1) r(1) by (simp add: chunk_read_def Let_def dst [symmetric] same)
  then show ?thesis
    using rows plain bufs hdr only_bytes_views(3) [OF o3] by (intro exI [of _ v3]) (simp add: X_def)
qed

text \<open>An archetype with a component of 8 bytes and a buffer of 24; chunk 2 has a row whose buffer
  holds three bytes, chunk 3 is empty.\<close>

definition buffered_world :: world where
  "buffered_world = upd_arch 10 (\<lambda>a. a\<lparr>componentCount := 2, firstTag := 2, firstManaged := 2, firstBuffer := 1,
        chunkCapacity := (\<lambda>_. 1), g_types := [5, 6], offsets := (\<lambda>_ i. 16 + 32 * i), sizes := [8, 24]\<rparr>)
     (upd_chunk 2 (\<lambda>c. c\<lparr>c_type := 10, c_count := 1, c_ents := (\<lambda>_. 5),
        c_data := set_buf_size 48 3 (buffer_ctor 48 8 (\<lambda>x. of_nat x))\<rparr>)
     (upd_chunk 3 (\<lambda>c. c\<lparr>c_type := 10\<rparr>) (blank_memory padded_ctx)))"

theorem chunk_roundtrip_witness:
  "\<exists>v'. chunk_read \<lparr>sl_c = 3, sl_start = 0, sl_count = 1\<rparr> True
        (chunk_write buffered_world \<lparr>sl_c = 2, sl_start = 0, sl_count = 1\<rparr> True @ [1], buffered_world) = Some ([1], v')
     \<and> row_of v' 3 0 = 5 \<and> buf_bytes (bytes_of v' 3, bheap v') 48 = [64, 65, 66]"
proof -
  let ?s = "\<lparr>sl_c = 2, sl_start = 0, sl_count = 1\<rparr> :: chunk_slice" and ?t = "\<lparr>sl_c = 3, sl_start = 0, sl_count = 1\<rparr> :: chunk_slice"
  let ?a = "chunk_arch buffered_world 2" and ?w = buffered_world
  have a: "?a = zero_archetype\<lparr>componentCount := 2, firstTag := 2, firstManaged := 2, firstBuffer := 1,
        chunkCapacity := (\<lambda>_. 1), g_types := [5, 6], offsets := (\<lambda>_ i. 16 + 32 * i), sizes := [8, 24]\<rparr>"
    "chunk_arch ?w 3 = ?a" "c_ct (chunks ?w 2) = smallbin" "c_ct (chunks ?w 3) = smallbin"
    and m: "bytes_of ?w 2 = set_buf_size 48 3 (buffer_ctor 48 8 (\<lambda>x. of_nat x))" "row_of ?w 2 0 = 5"
    and h: "next_block (bheap ?w) = 1"
    by (simp_all add: buffered_world_def chunk_arch_def blank_memory_def zero_chunk_def bytes_of_def row_of_def)
  have at: "cell_addr ?w 2 1 0 = 48" "cell_addr ?w 3 1 0 = 48" by (simp_all add: cell_addr_def col_addr_def a)
  have b: "buf_d (bytes_of ?w 2) 48 = 0" "buf_size (bytes_of ?w 2) 48 = 3" by (simp_all add: m buffer_ctor_def)
  have c: "buf_bytes (bytes_of ?w 2, bheap ?w) 48 = [64, 65, 66]"
    using b by (simp add: buf_bytes_def buf_data_def m buffer_ctor_def buf_field_defs wr_out sizeof_buffer_def upt_conv_Cons)
  have p: "2 = sl_c ?s" "1 = sl_count ?s" "3 = sl_c ?t" "sl_count ?t = 1"
    "columns_disjoint (chunk_arch ?w 3) (c_ct (chunks ?w 3))" "sl_start ?t + 1 \<le> chunkCapacity (chunk_arch ?w 3) (c_ct (chunks ?w 3))"
    by (auto simp: a columns_disjoint_def less_2_cases_iff)
  have k1: "Suc 0 \<le> k \<and> k < 2 \<longleftrightarrow> k = 1" for k by auto
  have q: "\<forall>j < 1. row_of ?w 2 (sl_start ?s + j) < 2 ^ 32"
    "\<forall>k j. firstBuffer ?a \<le> k \<and> k < firstManaged ?a \<and> j < 1 \<longrightarrow>
        cell_fits (bytes_of ?w 2) (cell_addr ?w 2 k (sl_start ?s + j)) (sizes ?a ! k)
          (buf_size (bytes_of ?w 2) (cell_addr ?w 2 k (sl_start ?s + j)))"
    "0 < next_block (bheap ?w)" "next_block (bheap ?w) + (firstManaged ?a - firstBuffer ?a) * 1 < 2 ^ 64"
    using at b k1 by (auto simp: m(2) h a cell_fits_def sizeof_buffer_def)
  show ?thesis
    using chunk_roundtrip [OF p(1) refl p(2,3) refl p(4) _ _ _ _ p(5,6) q, of True "[1]"] c
    by (auto simp: a m(2) at [simplified] k1)
qed

end
